(* ===== verification/Prelude.thy ===== *)
theory Prelude
  imports Main "HOL-Library.Word"
begin

text \<open>
  Shared vocabulary of the development: the fixed-width integers of the C and C++ sources, the
  error values that stand for a thrown \<open>std::runtime_error\<close>, readers over a byte stream, and the
  lemmas that move a word computation to the naturals.
\<close>

unbundle bit_operations_syntax

section \<open>Types\<close>

type_synonym u8 = "8 word"
type_synonym u16 = "16 word"
type_synonym u32 = "32 word"
type_synonym u64 = "64 word"
type_synonym bytes = "8 word list"

text \<open>
  The exceptions the modelled code throws. Each constructor stands for one \<open>throw\<close> statement
  (the text of the message is in the comment of the definition that raises it).
\<close>

datatype exn =
    EndOfStream
  | VarintOverflow
  | VarintNotCanonical
  | BadHeight
  | UnknownVariantTag
  | SignaturesSize
  | SignaturesNotExpected
  | InvalidCharacter
  | InvalidStringSize
  | OutOfRange
  | PoolInconsistent
  | LevinSignature
  | LevinTooBig
  | AssertFailed
  | DoesNotReturn

type_synonym 'a reader = "bytes \<Rightarrow> exn + ('a \<times> bytes)"

section \<open>Proof collections\<close>

named_theorems unat_simps \<open>moving word operations to the naturals\<close>
named_theorems unat_bounds \<open>the range of each word width\<close>
named_theorems reader_simps \<open>running a reader on a known input\<close>

section \<open>Words as naturals\<close>

lemma unat_drop_bit [unat_simps]: "unat (drop_bit n (x :: 'a::len word)) = unat x div 2 ^ n"
  unfolding unat_drop_bit_eq by (rule drop_bit_eq_div)

lemma unat_take_bit [unat_simps]: "unat (take_bit n (x :: 'a::len word)) = unat x mod 2 ^ n"
  unfolding unsigned_take_bit_eq by (rule take_bit_eq_mod)

lemma unat_and_mask: "unat (x AND mask n :: 'a::len word) = unat x mod 2 ^ n"
  by (simp only: unat_take_bit flip: take_bit_eq_mask)

lemma unat_push_bit [unat_simps]:
  "unat (push_bit n (x :: 'a::len word)) = unat x * 2 ^ n mod 2 ^ LENGTH('a)"
  unfolding unsigned_push_bit_eq by (simp add: take_bit_eq_mod push_bit_eq_mult)

lemma unat_lt_pow: "unat (x :: 'a::len word) < 2 ^ LENGTH('a)"
  by (rule unsigned_less)

lemma unat_lt64 [unat_bounds]: "unat (x :: u64) < 18446744073709551616"
  using unat_lt_pow [of x] by simp

lemma unat_lt32 [unat_bounds]: "unat (x :: u32) < 4294967296"
  using unat_lt_pow [of x] by simp

lemma unat_lt8 [unat_bounds]: "unat (x :: u8) < 256"
  using unat_lt_pow [of x] by simp

lemma unat_lt16 [unat_bounds]: "unat (x :: u16) < 65536"
  using unat_lt_pow [of x] by simp

text \<open>The value of a little-endian byte string, and the digits of a number.\<close>

fun le_nat :: "bytes \<Rightarrow> nat" where
  "le_nat [] = 0"
| "le_nat (b # bs) = unat b + 256 * le_nat bs"

fun nat_le :: "nat \<Rightarrow> nat \<Rightarrow> bytes" where
  "nat_le 0 n = []"
| "nat_le (Suc k) n = of_nat n # nat_le k (n div 256)"

lemma le_nat_less: "le_nat bs < 256 ^ length bs"
proof (induction bs)
  case (Cons b bs)
  then have le: "le_nat bs + 1 \<le> 256 ^ length bs" by simp
  have "unat b + 256 * le_nat bs < 256 * (le_nat bs + 1)" by (simp add: algebra_simps unat_bounds)
  also have "\<dots> \<le> 256 * 256 ^ length bs" using le by (rule mult_le_mono2)
  finally show ?case by simp
qed simp

lemma le_nat_append: "le_nat (as @ bs) = le_nat as + 256 ^ length as * le_nat bs"
  by (induction as) (simp_all add: algebra_simps)

lemma length_nat_le [simp]: "length (nat_le k n) = k"
  by (induction k arbitrary: n) simp_all

lemma unat_of_nat_u8: "unat (of_nat n :: u8) = n mod 256"
  by (simp add: unsigned_of_nat take_bit_eq_mod)

lemma unat_of_nat_u32: "unat (of_nat n :: u32) = n mod 4294967296"
  by (simp add: unsigned_of_nat take_bit_eq_mod)

lemma unat_of_nat_u64: "unat (of_nat n :: u64) = n mod 18446744073709551616"
  by (simp add: unsigned_of_nat take_bit_eq_mod)

lemma le_nat_nat_le: "le_nat (nat_le k n) = n mod 256 ^ k"
proof (induction k arbitrary: n)
  case (Suc k)
  have "n mod (256 * 256 ^ k) = n mod 256 + 256 * (n div 256 mod 256 ^ k)"
    by (simp add: mod_mult2_eq)
  then show ?case using Suc by (simp add: unat_of_nat_u8)
qed simp

lemma nat_le_le_nat: "nat_le (length bs) (le_nat bs) = bs"
proof (induction bs)
  case (Cons b bs)
  have "(of_nat (unat b + 256 * le_nat bs) :: u8) = b"
    unfolding word_unat_eq_iff unat_of_nat_u8 by (simp add: unat_bounds)
  moreover have "(unat b + 256 * le_nat bs) div 256 = le_nat bs"
    using unat_lt8 [of b] by simp
  ultimately show ?case using Cons by simp
qed simp

lemma minus_one_u64: "(x :: u64) = - 1 \<longleftrightarrow> unat x = 18446744073709551615"
proof -
  have "(- 1 :: u64) = 18446744073709551615" by simp
  then have "unat (- 1 :: u64) = 18446744073709551615" by (simp only: unat_numeral) (simp add: take_bit_eq_mod)
  then show ?thesis by (metis word_unat_eq_iff)
qed

lemma take_bit_small: "unat (x :: 'a::len word) < 2 ^ k \<Longrightarrow> take_bit k x = x"
  by (simp add: word_unat_eq_iff unat_take_bit del: take_bit_eq_mod)

lemma or_eq_add_shift:
  fixes d r :: "'a::len word"
  assumes "unat d < 2 ^ k"
  shows "d OR push_bit k r = d + push_bit k r"
proof -
  have low: "bit d n \<Longrightarrow> n < k" for n
    using take_bit_small [OF assms] by (metis bit_take_bit_iff)
  have "d AND push_bit k r = 0"
  proof (rule bit_word_eqI)
    fix n
    show "bit (d AND push_bit k r) n = bit 0 n"
      using low [of n] by (auto simp: bit_simps)
  qed
  then show ?thesis by (rule disjunctive_add_eq_or [symmetric])
qed

lemma unat_ucast_mod: "unat (ucast (x :: 'a::len word) :: 'b::len word) = unat x mod 2 ^ LENGTH('b)"
  by (simp add: unsigned_ucast_eq take_bit_eq_mod)

lemma unat_ucast_up: "LENGTH('a::len) \<le> LENGTH('b::len) \<Longrightarrow> unat (ucast (x :: 'a word) :: 'b word) = unat x"
  using order_less_le_trans [OF unat_lt_pow [of x] power_increasing [of "LENGTH('a)" "LENGTH('b)" "2::nat"]]
  by (simp add: unat_ucast_mod)

lemmas unat_ucast_widen [simp, unat_simps] =
  unat_ucast_up [where 'a = 32 and 'b = 64, simplified]
  unat_ucast_up [where 'a = 16 and 'b = 64, simplified]
  unat_ucast_up [where 'a = 8 and 'b = 64, simplified]
  unat_ucast_up [where 'a = 8 and 'b = 32, simplified]
  unat_ucast_up [where 'a = 16 and 'b = 32, simplified]
  unat_ucast_up [where 'a = 8 and 'b = 16, simplified]

end
