(* ===== verification/IntUtil.thy ===== *)
theory IntUtil
  imports Prelude
begin

text \<open>
  The integer helpers of \<open>src/crypto/util.h\<close>: the halves of a 64-bit word, the 64 by 64 bit
  product with its high half, and the division of a 128-bit number by a 32-bit one.
\<close>

section \<open>Definitions\<close>

definition hi_dword :: "u64 \<Rightarrow> u64" where
  "hi_dword val = drop_bit 32 val"

definition lo_dword :: "u64 \<Rightarrow> u64" where
  "lo_dword val = val AND 0xFFFFFFFF"

text \<open>
  \<open>mul128\<close> returns the low half and writes the high half through \<open>product_hi\<close>; the model
  returns the pair (low, high).
\<close>

definition mul128 :: "u64 \<Rightarrow> u64 \<Rightarrow> u64 \<times> u64" where
  "mul128 multiplier multiplicand =
     (let a = hi_dword multiplier;
          b = lo_dword multiplier;
          c = hi_dword multiplicand;
          d = lo_dword multiplicand;
          ac = a * c;
          ad = a * d;
          bc = b * c;
          bd = b * d;
          adbc = ad + bc;
          adbc_carry = (if adbc < ad then 1 else 0);
          product_lo = bd + push_bit 32 adbc;
          product_lo_carry = (if product_lo < bd then 1 else 0);
          product_hi = ac + drop_bit 32 adbc + push_bit 32 adbc_carry + product_lo_carry
      in (product_lo, product_hi))"

text \<open>
  \<open>div_with_reminder\<close> returns the quotient and updates the remainder; the model returns
  (quotient, remainder).
\<close>

definition div_with_reminder :: "u64 \<Rightarrow> u32 \<Rightarrow> u32 \<Rightarrow> u64 \<times> u32" where
  "div_with_reminder dividend divisor remainder =
     (let dividend = dividend OR push_bit 32 (ucast remainder)
      in (dividend div ucast divisor, ucast (dividend mod ucast divisor)))"

text \<open>\<open>div128_32\<close> returns (remainder, quotient high, quotient low).\<close>

definition div128_32 :: "u64 \<Rightarrow> u64 \<Rightarrow> u32 \<Rightarrow> u32 \<times> u64 \<times> u64" where
  "div128_32 dividend_hi dividend_lo divisor =
     (let d3 = hi_dword dividend_hi;
          d2 = lo_dword dividend_hi;
          d1 = hi_dword dividend_lo;
          d0 = lo_dword dividend_lo;
          (q3, r3) = div_with_reminder d3 divisor 0;
          (q2, r2) = div_with_reminder d2 divisor r3;
          (q1, r1) = div_with_reminder d1 divisor r2;
          (q0, r0) = div_with_reminder d0 divisor r1
      in (r0, push_bit 32 q3 OR q2, push_bit 32 q1 OR q0))"

section \<open>The halves of a word\<close>

lemma unat_hi_dword [unat_simps]: "unat (hi_dword x) = unat x div 2 ^ 32"
  by (simp add: hi_dword_def unat_drop_bit del: drop_bit_eq_div)

lemma unat_lo_dword [unat_simps]: "unat (lo_dword x) = unat x mod 2 ^ 32"
proof -
  have "(0xFFFFFFFF :: u64) = mask 32" by (simp add: mask_eq_exp_minus_1)
  then show ?thesis by (simp only: lo_dword_def unat_and_mask)
qed

lemma unat_dwords: "unat x = unat (hi_dword x) * 2 ^ 32 + unat (lo_dword x)"
  by (simp add: unat_simps)

lemma hi_dword_less [simp]: "unat (hi_dword x) < 4294967296"
  by (simp add: unat_hi_dword less_mult_imp_div_less unat_bounds)

lemma lo_dword_less [simp]: "unat (lo_dword x) < 4294967296"
  by (simp add: unat_lo_dword)

section \<open>The 128-bit product\<close>

lemma halves_product_le:
  assumes "a < (4294967296::nat)" "b < 4294967296"
  shows "a * b \<le> 18446744065119617025"
proof -
  have "a * b \<le> 4294967295 * 4294967295" using assms by (intro mult_le_mono) auto
  then show ?thesis by simp
qed

text \<open>The carry of a wrapping addition is what its comparison computes.\<close>

lemma add_carry:
  fixes a b :: u64
  shows "(if a + b < a then 1 else 0 :: nat) = (unat a + unat b) div 18446744073709551616"
proof (cases "unat a + unat b < 18446744073709551616")
  case True
  then show ?thesis by (simp add: word_less_nat_alt unat_word_ariths)
next
  case False
  moreover have "unat a + unat b < 2 * 18446744073709551616"
    using unat_lt64 [of a] unat_lt64 [of b] by linarith
  ultimately have d: "(unat a + unat b) div 18446744073709551616 = 1"
    by linarith
  with minus_div_mult_eq_mod [of "unat a + unat b" 18446744073709551616]
  have "(unat a + unat b) mod 18446744073709551616 = unat a + unat b - 18446744073709551616"
    by simp
  moreover have "unat a + unat b - 18446744073709551616 < unat a"
    using False unat_lt64 [of b] by linarith
  ultimately show ?thesis using d by (simp add: word_less_nat_alt unat_word_ariths)
qed

lemma add_wraps:
  fixes a b :: u64
  shows "unat (a + b) = (unat a + unat b) mod 18446744073709551616"
  by (simp add: unat_word_ariths)

lemma unat_carry: "unat (if P then 1 else 0 :: u64) = (if P then 1 else 0)"
  by simp

lemma mul128_exact:
  "unat x * unat y = unat (snd (mul128 x y)) * 2 ^ 64 + unat (fst (mul128 x y))"
proof -
  define A where "A = unat (hi_dword x)"
  define B where "B = unat (lo_dword x)"
  define C where "C = unat (hi_dword y)"
  define D where "D = unat (lo_dword y)"
  have less: "A < 4294967296" "B < 4294967296" "C < 4294967296" "D < 4294967296"
    by (simp_all add: A_def B_def C_def D_def)
  note P = halves_product_le
  define ac where "ac = hi_dword x * hi_dword y"
  define ad where "ad = hi_dword x * lo_dword y"
  define bc where "bc = lo_dword x * hi_dword y"
  define bd where "bd = lo_dword x * lo_dword y"
  have uac: "unat ac = A * C" and uad: "unat ad = A * D"
    and ubc: "unat bc = B * C" and ubd: "unat bd = B * D"
    using P [OF less(1,3)] P [OF less(1,4)] P [OF less(2,3)] P [OF less(2,4)]
    by (simp_all add: ac_def ad_def bc_def bd_def unat_word_ariths A_def B_def C_def D_def)
  define T where "T = A * D + B * C"
  define S where "S = B * D + T mod 4294967296 * 4294967296"
  define adbc where "adbc = ad + bc"
  define carry where "carry = (if adbc < ad then 1 else 0 :: u64)"
  define lo where "lo = bd + push_bit 32 adbc"
  define lo_carry where "lo_carry = (if lo < bd then 1 else 0 :: u64)"
  have uadbc: "unat adbc = T mod 18446744073709551616"
    by (simp only: adbc_def add_wraps uad ubc T_def)
  have ucarry: "unat carry = T div 18446744073709551616"
    unfolding carry_def adbc_def unat_carry add_carry by (simp only: uad ubc T_def)
  have ushift: "unat (push_bit 32 adbc) = T mod 4294967296 * 4294967296"
  proof -
    have "T mod 18446744073709551616 * 4294967296 mod 18446744073709551616
        = T mod 18446744073709551616 mod 4294967296 * 4294967296"
      using mult_mod_left [of "T mod 18446744073709551616" 4294967296 4294967296] by simp
    also have "\<dots> = T mod 4294967296 * 4294967296"
      by (simp add: mod_mod_cancel)
    finally show ?thesis by (simp add: unat_push_bit uadbc del: push_bit_eq_mult)
  qed
  have ulo: "unat lo = S mod 18446744073709551616"
    by (simp only: lo_def add_wraps ushift ubd S_def)
  have ulo_carry: "unat lo_carry = S div 18446744073709551616"
    unfolding lo_carry_def lo_def unat_carry add_carry by (simp only: ushift ubd S_def)
  have mul: "mul128 x y = (lo, ac + drop_bit 32 adbc + push_bit 32 carry + lo_carry)"
    by (simp add: mul128_def Let_def lo_carry_def lo_def carry_def adbc_def ac_def ad_def bc_def bd_def)
  have Tless: "T \<le> 2 * 18446744065119617025"
    using P [OF less(1,4)] P [OF less(2,3)] by (simp add: T_def)
  have split: "unat (drop_bit 32 adbc) + unat carry * 4294967296 = T div 4294967296"
  proof -
    have "T div 4294967296
        = (T mod 18446744073709551616 + T div 18446744073709551616 * 4294967296 * 4294967296)
          div 4294967296"
      by simp
    also have "\<dots> = T div 18446744073709551616 * 4294967296 + T mod 18446744073709551616 div 4294967296"
      by (rule div_mult_self1) simp
    finally show ?thesis by (simp add: unat_drop_bit uadbc ucarry)
  qed
  have hi_small: "A * C + T div 4294967296 + S div 18446744073709551616 < 18446744073709551616"
    using P [OF less(1,3)] P [OF less(2,4)] Tless S_def by simp
  have uhi: "unat (ac + drop_bit 32 adbc + push_bit 32 carry + lo_carry)
      = A * C + T div 4294967296 + S div 18446744073709551616"
  proof -
    have c: "unat (push_bit 32 carry) = unat carry * 4294967296"
      using Tless by (simp add: unat_push_bit ucarry del: push_bit_eq_mult)
    have "A * C + unat (drop_bit 32 adbc) + unat carry * 4294967296 + unat lo_carry
        = A * C + T div 4294967296 + S div 18446744073709551616"
      using split ulo_carry by simp
    then show ?thesis using hi_small c uac
      by (simp add: unat_word_ariths del: push_bit_eq_mult drop_bit_eq_div)
  qed
  have "unat x * unat y = A * C * 18446744073709551616 + T * 4294967296 + B * D"
    unfolding T_def unat_dwords [of x] unat_dwords [of y]
    by (simp add: A_def B_def C_def D_def algebra_simps)
  also have "\<dots> = (A * C + T div 4294967296) * 18446744073709551616 + S"
  proof -
    have "T * 4294967296 = T div 4294967296 * 4294967296 * 4294967296 + T mod 4294967296 * 4294967296"
      by (metis add_mult_distrib div_mult_mod_eq)
    then show ?thesis by (simp add: S_def add_mult_distrib)
  qed
  also have "\<dots> = (A * C + T div 4294967296 + S div 18446744073709551616) * 18446744073709551616
      + S mod 18446744073709551616"
    by (simp add: algebra_simps)
  finally show ?thesis using uhi ulo by (simp add: mul)
qed

text \<open>The two halves of the product, each on its own.\<close>

lemma mul128_lo: "unat (fst (mul128 x y)) = unat x * unat y mod 18446744073709551616"
  using mul128_exact [of x y] unat_lt64 [of "fst (mul128 x y)"] by simp

lemma mul128_hi: "unat (snd (mul128 x y)) = unat x * unat y div 18446744073709551616"
  using mul128_exact [of x y] unat_lt64 [of "fst (mul128 x y)"] by simp

section \<open>Long division in base 2^32\<close>

lemma div_with_reminder_step:
  assumes "unat d < 4294967296" "r < divisor" "div_with_reminder d divisor r = (q, r')"
  shows "unat q = (unat r * 4294967296 + unat d) div unat divisor"
    and "unat r' = (unat r * 4294967296 + unat d) mod unat divisor"
    and "unat q < 4294967296" and "r' < divisor"
proof -
  have pos: "0 < unat divisor" using assms(2) by (simp add: word_less_nat_alt)
  have r: "unat r < unat divisor" using assms(2) by (simp add: word_less_nat_alt)
  define n where "n = unat r * 4294967296 + unat d"
  have "unat r * 4294967296 + unat d < 18446744073709551616"
    using unat_lt32 [of r] assms(1) by linarith
  then have dv: "unat (d OR push_bit 32 (ucast r)) = n"
    using assms(1) or_eq_add_shift [of d 32 "ucast r"]
    by (simp add: n_def unat_word_ariths unat_push_bit del: push_bit_eq_mult)
  have ud: "unat (ucast divisor :: u64) = unat divisor"
    by simp
  have small: "n mod unat divisor < 4294967296"
    using pos unat_lt32 [of divisor] mod_less_divisor [of "unat divisor" n] by linarith
  show q: "unat q = (unat r * 4294967296 + unat d) div unat divisor"
    using assms(3) by (auto simp: div_with_reminder_def Let_def unat_div dv ud n_def)
  show r': "unat r' = (unat r * 4294967296 + unat d) mod unat divisor"
    using assms(3) small
    by (auto simp: div_with_reminder_def Let_def unat_mod dv ud n_def unat_ucast_mod)
  have "unat r * 4294967296 + unat d < unat divisor * 4294967296"
    using r assms(1) by linarith
  then show "unat q < 4294967296"
    unfolding q using pos by (simp add: less_mult_imp_div_less mult.commute)
  show "r' < divisor" unfolding word_less_nat_alt r' using pos by simp
qed

text \<open>Four such steps divide a number of four base 2^32 digits.\<close>

lemma long_division_step:
  assumes "0 < (m::nat)"
  shows "(p * 4294967296 + d) div m = p div m * 4294967296 + (p mod m * 4294967296 + d) div m"
    and "(p * 4294967296 + d) mod m = (p mod m * 4294967296 + d) mod m"
proof -
  define q where "q = p div m"
  define s where "s = p mod m"
  have p: "p = q * m + s" by (simp add: q_def s_def)
  have "p * 4294967296 + d = (s * 4294967296 + d) + q * 4294967296 * m"
    unfolding p by (simp add: algebra_simps)
  then have "p * 4294967296 + d = (p mod m * 4294967296 + d) + p div m * 4294967296 * m"
    by (simp only: q_def s_def)
  then have e: "p * 4294967296 + d = (p mod m * 4294967296 + d) + (p div m * 4294967296) * m" .
  show "(p * 4294967296 + d) div m = p div m * 4294967296 + (p mod m * 4294967296 + d) div m"
    unfolding e by (rule div_mult_self1) (use assms in simp)
  show "(p * 4294967296 + d) mod m = (p mod m * 4294967296 + d) mod m"
    unfolding e by (rule mod_mult_self1)
qed

lemma div128_32_exact:
  assumes "0 < divisor" "div128_32 hi lo divisor = (r, qh, ql)"
  shows "unat qh * 2 ^ 64 + unat ql = (unat hi * 2 ^ 64 + unat lo) div unat divisor"
    and "unat r = (unat hi * 2 ^ 64 + unat lo) mod unat divisor"
proof -
  obtain q3 r3 where s3: "div_with_reminder (hi_dword hi) divisor 0 = (q3, r3)" by fastforce
  obtain q2 r2 where s2: "div_with_reminder (lo_dword hi) divisor r3 = (q2, r2)" by fastforce
  obtain q1 r1 where s1: "div_with_reminder (hi_dword lo) divisor r2 = (q1, r1)" by fastforce
  obtain q0 r0 where s0: "div_with_reminder (lo_dword lo) divisor r1 = (q0, r0)" by fastforce
  note st3 = div_with_reminder_step [OF hi_dword_less assms(1) s3]
  note st2 = div_with_reminder_step [OF lo_dword_less st3(4) s2]
  note st1 = div_with_reminder_step [OF hi_dword_less st2(4) s1]
  note st0 = div_with_reminder_step [OF lo_dword_less st1(4) s0]
  have join: "push_bit 32 b OR a = a + push_bit 32 b" if "unat a < 4294967296" for a b :: u64
    using or_eq_add_shift [of a 32 b] that by (simp add: or.commute del: push_bit_eq_mult)
  have res: "r = r0" "qh = q2 + push_bit 32 q3" "ql = q0 + push_bit 32 q1"
    using assms(2) join [OF st2(3)] join [OF st0(3)]
    by (simp_all add: div128_32_def s3 s2 s1 s0 del: push_bit_eq_mult)
  have pos: "0 < unat divisor" using assms(1) by (simp add: word_less_nat_alt)
  have uqh: "unat qh = unat q3 * 4294967296 + unat q2"
    and uql: "unat ql = unat q1 * 4294967296 + unat q0"
    using st3(3) st2(3) st1(3) st0(3)
    by (simp_all add: res unat_word_ariths unat_push_bit del: push_bit_eq_mult)
  define P2 where "P2 = unat (hi_dword hi) * 4294967296 + unat (lo_dword hi)"
  define P1 where "P1 = P2 * 4294967296 + unat (hi_dword lo)"
  define P0 where "P0 = P1 * 4294967296 + unat (lo_dword lo)"
  note L = long_division_step [OF pos]
  note L2 = L [of "unat (hi_dword hi)" "unat (lo_dword hi)", folded P2_def]
  note L1 = L [of P2 "unat (hi_dword lo)", folded P1_def]
  note L0 = L [of P1 "unat (lo_dword lo)", folded P0_def]
  have m3: "unat r3 = unat (hi_dword hi) mod unat divisor"
    and d3: "unat q3 = unat (hi_dword hi) div unat divisor"
    using st3(1,2) by simp_all
  have m2: "unat r2 = P2 mod unat divisor"
    and d2: "unat q3 * 4294967296 + unat q2 = P2 div unat divisor"
    using st2(1,2) by (simp_all only: L2 m3 d3)
  have m1: "unat r1 = P1 mod unat divisor"
    and d1: "P2 div unat divisor * 4294967296 + unat q1 = P1 div unat divisor"
    using st1(1,2) by (simp_all only: L1 m2)
  have m0: "unat r0 = P0 mod unat divisor"
    and d0: "P1 div unat divisor * 4294967296 + unat q0 = P0 div unat divisor"
    using st0(1,2) by (simp_all only: L0 m1)
  have P0: "P0 = unat hi * 2 ^ 64 + unat lo"
    unfolding P0_def P1_def P2_def unat_dwords [of hi] unat_dwords [of lo]
    by (simp add: algebra_simps)
  show "unat qh * 2 ^ 64 + unat ql = (unat hi * 2 ^ 64 + unat lo) div unat divisor"
    using d2 d1 d0 uqh uql P0 by simp
  show "unat r = (unat hi * 2 ^ 64 + unat lo) mod unat divisor"
    using m0 P0 res(1) by simp
qed

end
