(* ===== verification/Difficulty.thy ===== *)
theory Difficulty
  imports IntUtil
begin

text \<open>
  \<open>src/crypto/difficulty.c\<close>: the proof-of-work test of a hash against a difficulty, and the
  difficulty of the next block from the recent timestamps and cumulative difficulties.
\<close>

section \<open>Definitions\<close>

text \<open>
  \<open>mul\<close> has two bodies, selected by the presence of a 128-bit integer type. Both write the low and
  the high half of the product; the model returns (low, high).
\<close>

definition mul :: "u64 \<Rightarrow> u64 \<Rightarrow> u64 \<times> u64" where
  "mul a b =
     (let res = (ucast a :: 128 word) * ucast b
      in (ucast res, ucast (drop_bit 64 res)))"

definition mul_portable :: "u64 \<Rightarrow> u64 \<Rightarrow> u64 \<times> u64" where
  "mul_portable a b = mul128 a b"

definition cadd :: "u64 \<Rightarrow> u64 \<Rightarrow> bool" where
  "cadd a b \<longleftrightarrow> a + b < a"

definition cadc :: "u64 \<Rightarrow> u64 \<Rightarrow> bool \<Rightarrow> bool" where
  "cadc a b c \<longleftrightarrow> a + b < a \<or> c \<and> a + b = - 1"

text \<open>
  \<open>((const uint64_t *) hash)[i]\<close> on a little-endian host, where \<open>swap64le\<close> is the identity.
\<close>

definition hash_word :: "bytes \<Rightarrow> nat \<Rightarrow> u64" where
  "hash_word h i = of_nat (le_nat (take 8 (drop (8 * i) h)))"

definition check_hash :: "bytes \<Rightarrow> u64 \<Rightarrow> bool" where
  "check_hash h difficulty =
     (let (top, high) = mul (hash_word h 3) difficulty
      in if high \<noteq> 0 then False
         else
           let (low, cur) = mul (hash_word h 0) difficulty;
               (low, high) = mul (hash_word h 1) difficulty;
               carry = cadd cur low;
               cur = high;
               (low, high) = mul (hash_word h 2) difficulty;
               carry = cadc cur low carry;
               carry = cadc high top carry
           in \<not> carry)"

text \<open>
  \<open>compare\<close> reads both operands as \<open>int\<close>: on a little-endian host the low 32 bits of the
  timestamps. Its result is the wrapped 32-bit difference.
\<close>

definition compare_ts :: "u64 \<Rightarrow> u64 \<Rightarrow> int" where
  "compare_ts a b = sint (ucast a - ucast b :: u32)"

text \<open>
  \<open>qsort\<close> of the C library, as a stable insertion sort driven by the comparison function. Any
  sorting algorithm gives the same array where the comparison is a total order on the elements.
\<close>

fun qsort_insert :: "('a \<Rightarrow> 'a \<Rightarrow> int) \<Rightarrow> 'a \<Rightarrow> 'a list \<Rightarrow> 'a list" where
  "qsort_insert cmp x [] = [x]"
| "qsort_insert cmp x (y # ys) = (if cmp x y \<le> 0 then x # y # ys else y # qsort_insert cmp x ys)"

fun qsort :: "('a \<Rightarrow> 'a \<Rightarrow> int) \<Rightarrow> 'a list \<Rightarrow> 'a list" where
  "qsort cmp [] = []"
| "qsort cmp (x # xs) = qsort_insert cmp x (qsort cmp xs)"

record difficulty_config =
  dc_target :: u8
  dc_cut :: u8
  dc_lag :: u16
  dc_window :: u32

text \<open>The choice of \<open>cutBegin\<close> and \<open>cutEnd\<close>: the \<open>keep = window - 2 * cut\<close> middle entries.\<close>

definition cut_range :: "nat \<Rightarrow> nat \<Rightarrow> nat \<times> nat" where
  "cut_range len keep =
     (if len \<le> keep then (0, len)
      else let cutBegin = (len - keep + 1) div 2 in (cutBegin, cutBegin + keep))"

text \<open>
  \<open>next_difficulty\<close>: a failing \<open>assert\<close> is \<open>AssertFailed\<close>, an access outside one of the two arrays
  is \<open>OutOfRange\<close>. The result 0 is the code's own overflow indication.
\<close>

definition next_difficulty ::
  "u64 list \<Rightarrow> u16 \<Rightarrow> u64 list \<Rightarrow> difficulty_config \<Rightarrow> exn + u64" where
  "next_difficulty timestamps timestamps_length cumulativeDifficulties config =
     (if \<not> 2 \<le> dc_window config then Inl AssertFailed
      else
        let timestamps_length =
              (if dc_window config < ucast timestamps_length then ucast (dc_window config)
               else timestamps_length);
            len = unat timestamps_length
        in if len \<le> 1 then Inr 1
        else if length timestamps < len \<or> length cumulativeDifficulties < len then Inl OutOfRange
        else
          let timestamps = qsort compare_ts (take len timestamps) @ drop len timestamps;
              twice_cut = 2 * ucast (dc_cut config) :: u32
          in if \<not> twice_cut \<le> dc_window config - 2 then Inl AssertFailed
          else
            let (cutBegin, cutEnd) = cut_range len (unat (dc_window config - twice_cut))
            in if \<not> (cutBegin + 2 \<le> cutEnd \<and> cutEnd \<le> len) then Inl AssertFailed
            else
              let timeSpan = timestamps ! (cutEnd - 1) - timestamps ! cutBegin;
                  timeSpan = (if timeSpan = 0 then 1 else timeSpan);
                  totalWork = cumulativeDifficulties ! (cutEnd - 1) - cumulativeDifficulties ! cutBegin
              in if \<not> 0 < totalWork then Inl AssertFailed
              else
                let (low, high) = mul128 totalWork (ucast (dc_target config))
                in if high \<noteq> 0 \<or> low + timeSpan - 1 < low then Inr 0
                   else Inr ((low + timeSpan - 1) div timeSpan))"

section \<open>The proof-of-work test\<close>

lemma unat_ucast_64_128: "unat (ucast (x :: u64) :: 128 word) = unat x"
  using unat_ucast_up [where 'a = 64 and 'b = 128, of x] by simp

lemma mul_product:
  assumes "mul a b = (low, high)"
  shows "unat low = unat a * unat b mod 18446744073709551616"
    and "unat high = unat a * unat b div 18446744073709551616"
proof -
  define res where "res = (ucast a :: 128 word) * ucast b"
  have "unat a * unat b < 18446744073709551616 * 18446744073709551616"
    by (intro mult_strict_mono) (simp_all add: unat_bounds)
  then have small: "unat a * unat b < 340282366920938463463374607431768211456" by simp
  then have r: "unat res = unat a * unat b"
    by (simp add: res_def unat_word_ariths unat_ucast_64_128)
  have l: "low = ucast res" and h: "high = ucast (drop_bit 64 res)"
    using assms by (simp_all add: mul_def res_def Let_def)
  show "unat low = unat a * unat b mod 18446744073709551616"
    by (simp add: l unat_ucast_mod r)
  have "unat a * unat b div 18446744073709551616 < 18446744073709551616"
    using small by (simp add: less_mult_imp_div_less)
  then show "unat high = unat a * unat b div 18446744073709551616"
    by (simp add: h unat_ucast_mod unat_drop_bit r del: drop_bit_eq_div)
qed

lemma mul_split:
  assumes "mul a b = (low, high)"
  shows "unat a * unat b = unat low + 18446744073709551616 * unat high"
  using mul_product [OF assms] by simp

lemma cadd_iff: "cadd a b \<longleftrightarrow> 18446744073709551616 \<le> unat a + unat b"
proof -
  have "(unat a + unat b) div 18446744073709551616 \<noteq> 0 \<longleftrightarrow> 18446744073709551616 \<le> unat a + unat b"
    by (simp add: div_eq_0_iff not_less)
  then show ?thesis using add_carry [of a b] by (simp add: cadd_def split: if_splits)
qed

lemma cadc_iff:
  "cadc a b c \<longleftrightarrow> 18446744073709551616 \<le> unat a + unat b + (if c then 1 else 0)"
proof (cases "18446744073709551616 \<le> unat a + unat b")
  case True
  then show ?thesis using cadd_iff [of a b] by (simp add: cadc_def cadd_def)
next
  case False
  then have "unat (a + b) = unat a + unat b" by (simp add: add_wraps)
  then show ?thesis
    using False cadd_iff [of a b] by (auto simp: cadc_def cadd_def minus_one_u64)
qed

lemma less_digit:
  assumes "r < (X::nat)"
  shows "r + X * n < X * m \<longleftrightarrow> n < m"
proof
  assume "r + X * n < X * m"
  then have "X * n < X * m" by linarith
  then show "n < m" by simp
next
  assume "n < m"
  then have "X * (n + 1) \<le> X * m" by (intro mult_le_mono2) simp
  then show "r + X * n < X * m" using assms by (simp add: algebra_simps)
qed

lemma hash_words:
  assumes "length h = 32"
  shows "le_nat h = unat (hash_word h 0) + 18446744073709551616 * (unat (hash_word h 1)
      + 18446744073709551616 * (unat (hash_word h 2) + 18446744073709551616 * unat (hash_word h 3)))"
proof -
  have w: "unat (hash_word h i) = le_nat (take 8 (drop (8 * i) h))" if "i < 4" for i
  proof -
    have "length (take 8 (drop (8 * i) h)) = 8" using assms that by simp
    then have "le_nat (take 8 (drop (8 * i) h)) < 18446744073709551616"
      using le_nat_less [of "take 8 (drop (8 * i) h)"] by simp
    then show ?thesis by (simp add: hash_word_def unat_of_nat_u64)
  qed
  have chunk: "le_nat (drop n h) = le_nat (take 8 (drop n h)) + 18446744073709551616 * le_nat (drop (8 + n) h)"
    if "n \<le> 24" for n
    using le_nat_append [of "take 8 (drop n h)" "drop 8 (drop n h)"] assms that
    unfolding append_take_drop_id by simp
  have c: "le_nat h = le_nat (take 8 h) + 18446744073709551616 * le_nat (drop 8 h)"
    "le_nat (drop 8 h) = le_nat (take 8 (drop 8 h)) + 18446744073709551616 * le_nat (drop 16 h)"
    "le_nat (drop 16 h) = le_nat (take 8 (drop 16 h)) + 18446744073709551616 * le_nat (drop 24 h)"
    "drop 24 h = take 8 (drop 24 h)"
    using chunk [of 0] chunk [of 8] chunk [of 16] assms by simp_all
  have w': "unat (hash_word h 0) = le_nat (take 8 h)" "unat (hash_word h 1) = le_nat (take 8 (drop 8 h))"
    "unat (hash_word h 2) = le_nat (take 8 (drop 16 h))" "unat (hash_word h 3) = le_nat (take 8 (drop 24 h))"
    using w [of 0] w [of 1] w [of 2] w [of 3] by simp_all
  show ?thesis unfolding w' c(4) [symmetric] c(3) [symmetric] c(2) [symmetric] by (rule c(1))
qed

lemma carry_chain:
  fixes X :: nat
  assumes "l0 < X"
  shows "l0 + X * (a1 + X * (a2 + X * a3)) < X * (X * (X * X)) \<longleftrightarrow> a3 + (a2 + a1 div X) div X < X"
proof -
  have pos: "0 < X" using assms by simp
  have step: "a + X * n < X * m \<longleftrightarrow> n + a div X < m" for a n m
  proof -
    have "a + X * n = a mod X + X * (n + a div X)" by (simp add: algebra_simps)
    then show ?thesis using less_digit [of "a mod X" X "n + a div X" m] pos by simp
  qed
  have "a2 + X * a3 + a1 div X < X * X \<longleftrightarrow> a3 + (a2 + a1 div X) div X < X"
    using step [of "a2 + a1 div X" a3 X] by (simp add: ac_simps)
  then show ?thesis
    using less_digit [OF assms] step [of a1 "a2 + X * a3" "X * X"] by simp
qed

lemma carry_div:
  fixes n :: nat
  assumes "n < 2 * 18446744073709551616"
  shows "n div 18446744073709551616 = (if 18446744073709551616 \<le> n then 1 else 0)"
  using assms by auto

lemma check_hash_carries:
  assumes "mul (hash_word h 0) d = (l0, h0)" "mul (hash_word h 1) d = (l1, h1)"
    "mul (hash_word h 2) d = (l2, h2)" "mul (hash_word h 3) d = (l3, h3)"
  shows "check_hash h d \<longleftrightarrow> unat h3 = 0 \<and>
    unat h2 + unat l3 + (unat h1 + unat l2 + (unat h0 + unat l1) div 18446744073709551616)
      div 18446744073709551616 < 18446744073709551616"
proof -
  have c1: "(if cadd h0 l1 then 1 else 0) = (unat h0 + unat l1) div 18446744073709551616"
    using carry_div [of "unat h0 + unat l1"] unat_lt64 [of h0] unat_lt64 [of l1]
    by (simp add: cadd_iff)
  have c2: "(if cadc h1 l2 (cadd h0 l1) then 1 else 0)
      = (unat h1 + unat l2 + (unat h0 + unat l1) div 18446744073709551616) div 18446744073709551616"
    unfolding cadc_iff c1
    by (rule carry_div [symmetric])
      (use unat_lt64 [of h1] unat_lt64 [of l2] c1 in \<open>simp split: if_splits\<close>)
  have "check_hash h d \<longleftrightarrow> h3 = 0 \<and> \<not> cadc h2 l3 (cadc h1 l2 (cadd h0 l1))"
    by (simp add: check_hash_def Let_def assms del: One_nat_def)
  also have "\<dots> \<longleftrightarrow> h3 = 0 \<and> unat h2 + unat l3
      + (unat h1 + unat l2 + (unat h0 + unat l1) div 18446744073709551616) div 18446744073709551616
      < 18446744073709551616"
    unfolding cadc_iff [of h2] c2 by (simp add: not_le)
  finally show ?thesis by (simp add: unat_eq_zero)
qed

text \<open>
  C12: the proof-of-work test accepts a 32-byte hash for a difficulty exactly when the hash, read as
  a little-endian 256-bit number, multiplied by the difficulty is less than 2^256.
\<close>

theorem check_hash_correct:
  assumes "length h = 32"
  shows "check_hash h d \<longleftrightarrow> le_nat h * unat d < 2 ^ 256"
proof -
  obtain l0 h0 where m0: "mul (hash_word h 0) d = (l0, h0)" by fastforce
  obtain l1 h1 where m1: "mul (hash_word h 1) d = (l1, h1)" by fastforce
  obtain l2 h2 where m2: "mul (hash_word h 2) d = (l2, h2)" by fastforce
  obtain l3 h3 where m3: "mul (hash_word h 3) d = (l3, h3)" by fastforce
  note m = m0 m1 m2 m3
  define X :: nat where "X = 18446744073709551616"
  note s = m [THEN mul_split, folded X_def]
  have "le_nat h * unat d = unat (hash_word h 0) * unat d + X * (unat (hash_word h 1) * unat d
      + X * (unat (hash_word h 2) * unat d + X * (unat (hash_word h 3) * unat d)))"
    unfolding hash_words [OF assms] X_def [symmetric] by (simp add: algebra_simps)
  also have "\<dots> = unat l0 + X * ((unat h0 + unat l1) + X * ((unat h1 + unat l2)
      + X * ((unat h2 + unat l3) + X * unat h3)))"
    unfolding s by (simp add: algebra_simps)
  finally have total: "le_nat h * unat d = \<dots>" .
  have pow: "(2::nat) ^ 256 = X * (X * (X * X))" by (simp add: X_def)
  have "le_nat h * unat d < 2 ^ 256 \<longleftrightarrow> (unat h2 + unat l3 + X * unat h3)
      + ((unat h1 + unat l2) + (unat h0 + unat l1) div X) div X < X"
    unfolding total pow by (rule carry_chain) (simp add: X_def unat_bounds)
  also have "\<dots> \<longleftrightarrow> unat h3 = 0 \<and>
      unat h2 + unat l3 + (unat h1 + unat l2 + (unat h0 + unat l1) div X) div X < X"
    by (cases "unat h3") auto
  finally show ?thesis unfolding check_hash_carries [OF m] X_def by simp
qed

theorem check_hash_correct_witness:
  "length (replicate 31 0 @ [1 :: u8]) = 32 \<and>
   (check_hash (replicate 31 0 @ [1]) 255 \<longleftrightarrow> le_nat (replicate 31 0 @ [1]) * unat (255 :: u64) < 2 ^ 256)"
  using check_hash_correct [of "replicate 31 0 @ [1]" 255] by simp

text \<open>The two bodies of \<open>mul\<close>, with and without a 128-bit integer type, compute the same halves.\<close>

lemma mul_bodies_agree: "mul_portable a b = mul a b"
proof -
  obtain low high where m: "mul a b = (low, high)" by fastforce
  have "fst (mul128 a b) = low" "snd (mul128 a b) = high"
    using mul_product [OF m] by (simp_all add: word_unat_eq_iff mul128_lo mul128_hi)
  then show ?thesis by (simp add: mul_portable_def m prod_eq_iff)
qed

section \<open>Sorting the timestamps\<close>

lemma ucast_of_nat: "(ucast (x :: 'a::len word) :: 'b::len word) = of_nat (unat x)"
  by (simp add: word_unat_eq_iff unat_ucast_mod unsigned_of_nat take_bit_eq_mod)

lemma compare_ts_small:
  assumes "unat a < 2147483648" "unat b < 2147483648"
  shows "compare_ts a b = int (unat a) - int (unat b)"
proof -
  have "(ucast a - ucast b :: u32) = of_int (int (unat a) - int (unat b))"
    by (simp only: ucast_of_nat of_int_diff of_int_of_nat_eq)
  then have "compare_ts a b = signed_take_bit 31 (int (unat a) - int (unat b))"
    by (simp only: compare_ts_def signed_of_int) simp
  also have "\<dots> = int (unat a) - int (unat b)"
  proof (rule signed_take_bit_int_eq_self)
    have p: "(2::int) ^ 31 = 2147483648" by simp
    show "- (2 ^ 31) \<le> int (unat a) - int (unat b)" "int (unat a) - int (unat b) < 2 ^ 31"
      unfolding p using assms by linarith+
  qed
  finally show ?thesis .
qed

lemma compare_ts_le:
  assumes "unat a < 2147483648" "unat b < 2147483648"
  shows "compare_ts a b \<le> 0 \<longleftrightarrow> a \<le> b"
  unfolding compare_ts_small [OF assms] word_le_nat_alt by linarith

lemma set_qsort_insert [simp]: "set (qsort_insert cmp x ys) = insert x (set ys)"
  by (induction ys) auto

lemma set_qsort [simp]: "set (qsort cmp xs) = set xs"
  by (induction xs) auto

lemma length_qsort_insert [simp]: "length (qsort_insert cmp x ys) = Suc (length ys)"
  by (induction ys) auto

lemma length_qsort [simp]: "length (qsort cmp xs) = length xs"
  by (induction xs) auto

lemma qsort_insert_insort:
  assumes "\<And>y. y \<in> set ys \<Longrightarrow> cmp x y \<le> 0 \<longleftrightarrow> x \<le> y"
  shows "qsort_insert cmp x ys = insort x ys"
  using assms by (induction ys) auto

lemma qsort_sort:
  assumes "\<And>x y. x \<in> set xs \<Longrightarrow> y \<in> set xs \<Longrightarrow> cmp x y \<le> 0 \<longleftrightarrow> x \<le> y"
  shows "qsort cmp xs = sort xs"
  using assms by (induction xs) (auto intro!: qsort_insert_insort)

lemma compare_sorts:
  assumes "\<forall>t \<in> set ts. unat t < 2147483648"
  shows "qsort compare_ts ts = sort ts"
  by (rule qsort_sort) (use assms in \<open>simp add: compare_ts_le\<close>)

text \<open>
  Sorting block timestamps with \<open>compare\<close> gives the sorted array as long as every timestamp is
  below 2^31.
\<close>

lemma timestamps_sorted:
  assumes "\<forall>t \<in> set ts. unat t < 2 ^ 31"
  shows "qsort compare_ts ts = sort ts"
  using compare_sorts assms by simp

text \<open>
  C25: \<open>compare\<close> looks at the low 32 bits only, so with a timestamp of 2^32 or more the array
  \<open>next_difficulty\<close> sorts is left out of order.
\<close>

lemma compare_truncates:
  "compare_ts 0x100000000 5 < 0 \<and> \<not> sorted (qsort compare_ts [5, 0x100000000])"
  by code_simp

section \<open>The next difficulty\<close>

lemma cut_range_bounds:
  assumes "2 \<le> len" "2 \<le> keep" "cut_range len keep = (b, e)"
  shows "b + 2 \<le> e" "e \<le> len" "e - b = min len keep"
  using assms by (auto simp: cut_range_def Let_def split: if_splits)

lemma unat_twice_cut: "unat (2 * ucast (c :: u8) :: u32) = 2 * unat c"
  using unat_lt8 [of c] by (simp add: unat_word_ariths)

text \<open>The rounded-up division, with the overflow test of the code.\<close>

definition div_up :: "nat \<Rightarrow> nat \<Rightarrow> nat" where
  "div_up work span = (if work + span - 1 < 2 ^ 64 then (work + span - 1) div span else 0)"

lemma div_up_words:
  assumes "mul128 w t = (low, high)" "span \<noteq> 0"
  shows "(if high \<noteq> 0 \<or> low + span - 1 < low then 0 else (low + span - 1) div span)
    = (of_nat (div_up (unat w * unat t) (unat span)) :: u64)"
proof -
  have l: "unat low = unat w * unat t mod 18446744073709551616"
    and h: "unat high = unat w * unat t div 18446744073709551616"
    using mul128_lo [of w t] mul128_hi [of w t] assms(1) by simp_all
  have pos: "0 < unat span" using assms(2) by (simp add: unat_gt_0)
  have e: "low + span - 1 = low + (span - 1)" by simp
  have s1: "unat (span - 1) = unat span - 1" using pos by (simp add: unat_gt_0 unat_minus_one)
  have c: "low + span - 1 < low \<longleftrightarrow> 18446744073709551616 \<le> unat low + (unat span - 1)"
    using cadd_iff [of low "span - 1"] by (simp only: cadd_def e s1)
  show ?thesis
  proof (cases "high = 0")
    case True
    then have low: "unat low = unat w * unat t" using h l by (simp add: div_eq_0_iff)
    show ?thesis
    proof (cases "unat low + (unat span - 1) < 18446744073709551616")
      case fits: True
      then have "unat (low + span - 1) = unat low + (unat span - 1)"
        unfolding e add_wraps s1 by simp
      then have "(low + span - 1) div span = of_nat ((unat low + (unat span - 1)) div unat span)"
        using order_le_less_trans [OF div_le_dividend fits, of "unat span"]
        by (simp only: word_unat_eq_iff unat_div unat_of_nat_u64 mod_less)
      then show ?thesis using True c fits low pos by (simp add: div_up_def)
    next
      case False
      then show ?thesis using True c low pos by (simp add: div_up_def)
    qed
  next
    case False
    then have "18446744073709551616 \<le> unat w * unat t"
      using h by (metis div_less not_less unat_eq_zero)
    then show ?thesis using False pos by (simp add: div_up_def)
  qed
qed

lemma unat_span:
  assumes "(b :: u64) \<le> a"
  shows "unat (if a - b = 0 then 1 else a - b) = max 1 (unat a - unat b)"
proof -
  have d: "unat (a - b) = unat a - unat b" using assms by (rule unat_sub)
  show ?thesis
  proof (cases "a = b")
    case False
    then have "a - b \<noteq> 0" by simp
    then have "0 < unat (a - b)" by (simp add: unat_gt_0)
    then show ?thesis using False d by simp
  qed simp
qed

text \<open>
  C11: with a sound configuration and timestamps below 2^31 no assertion of \<open>next_difficulty\<close> fails,
  and the result is the work of the kept window times the target, divided by its time span and
  rounded up, or 0 when that does not fit 64 bits.
\<close>

theorem next_difficulty_correct:
  assumes conf: "2 * unat (dc_cut conf) + 2 \<le> unat (dc_window conf)"
    and len: "len = min (unat n) (unat (dc_window conf))" "2 \<le> len" "len \<le> length ts" "len \<le> length cds"
    and small: "\<forall>t \<in> set (take len ts). unat t < 2 ^ 31"
    and cut: "cut_range len (unat (dc_window conf) - 2 * unat (dc_cut conf)) = (b, e)"
    and work: "cds ! b < cds ! (e - 1)"
  shows "next_difficulty ts n cds conf = Inr (of_nat (div_up
      ((unat (cds ! (e - 1)) - unat (cds ! b)) * unat (dc_target conf))
      (max 1 (unat (sort (take len ts) ! (e - 1)) - unat (sort (take len ts) ! b)))))"
proof -
  define sorted where "sorted = sort (take len ts)"
  define n' where "n' = (if dc_window conf < ucast n then ucast (dc_window conf) else n)"
  have n': "unat n' = len"
    using len(1) unat_lt16 [of n] by (auto simp: n'_def word_less_nat_alt unat_ucast_mod min_def)
  have win: "2 \<le> dc_window conf" using conf by (simp add: word_le_nat_alt)
  have cutw: "2 * ucast (dc_cut conf) \<le> dc_window conf - 2"
    using conf win by (simp add: word_le_nat_alt unat_twice_cut unat_sub)
  have keep: "unat (dc_window conf - 2 * ucast (dc_cut conf)) = unat (dc_window conf) - 2 * unat (dc_cut conf)"
    using conf by (simp add: unat_sub word_le_nat_alt unat_twice_cut)
  have be: "b + 2 \<le> e" "e \<le> len"
    using cut_range_bounds [OF len(2) _ cut] conf by simp_all
  have q: "qsort compare_ts (take len ts) = sorted"
    using compare_sorts [of "take len ts"] small by (simp add: sorted_def)
  have lens: "length sorted = len" using len(3) by (simp add: sorted_def)
  have mono: "sorted ! b \<le> sorted ! (e - 1)"
    using be lens by (intro sorted_nth_mono) (simp_all add: sorted_def)
  define span where "span = (if sorted ! (e - 1) - sorted ! b = 0 then 1 else sorted ! (e - 1) - sorted ! b)"
  have span: "span \<noteq> 0" "unat span = max 1 (unat (sorted ! (e - 1)) - unat (sorted ! b))"
    using unat_span [OF mono] by (auto simp: span_def)
  have nth: "(sorted @ drop len ts) ! (e - 1) = sorted ! (e - 1)" "(sorted @ drop len ts) ! b = sorted ! b"
    by (rule nth_append_left, use be lens in linarith)+
  define w where "w = cds ! (e - 1) - cds ! b"
  have w: "unat w = unat (cds ! (e - 1)) - unat (cds ! b)" "0 < w"
    using work by (simp_all add: w_def unat_sub order_less_imp_le word_gt_0)
  obtain low high where m: "mul128 w (ucast (dc_target conf)) = (low, high)" by fastforce
  have "next_difficulty ts n cds conf =
      (if high \<noteq> 0 \<or> low + span - 1 < low then Inr 0 else Inr ((low + span - 1) div span))"
    unfolding next_difficulty_def n'_def [symmetric] Let_def n' q keep cut prod.case nth
      span_def [symmetric] w_def [symmetric] m
    using win len(2-4) cutw be w(2) by simp
  also have "\<dots> = Inr (if high \<noteq> 0 \<or> low + span - 1 < low then 0 else (low + span - 1) div span)"
    by (rule if_distrib [of Inr, symmetric])
  also have "\<dots> = Inr (of_nat (div_up (unat w * unat (dc_target conf)) (unat span)))"
    by (simp only: div_up_words [OF m span(1)] unat_ucast_widen)
  finally show ?thesis by (simp only: w(1) span(2) sorted_def)
qed

lemma sort_example: "sort [1200, 1000, 1240 :: u64] = [1000, 1200, 1240]"
  by (simp add: word_le_nat_alt)

theorem next_difficulty_correct_witness:
  "next_difficulty [1200, 1000, 1240] 3 [10, 20, 40]
     \<lparr>dc_target = 120, dc_cut = 60, dc_lag = 15, dc_window = 720\<rparr> = Inr 15"
  by (subst next_difficulty_correct [where len = 3 and b = 0 and e = 3])
    (simp_all add: cut_range_def div_up_def sort_example)

end
