(* ===== verification/Keccak.thy ===== *)
theory Keccak
  imports Prelude
begin

text \<open>
  \<open>src/crypto/keccak.c\<close> and \<open>src/crypto/hash.c\<close>: the Keccak permutation, the one-shot and the
  incremental hash, and \<open>cn_fast_hash\<close>. The state is the list of its 25 words.
\<close>

section \<open>The permutation\<close>

definition keccakf_rndc :: "u64 list" where
  "keccakf_rndc =
    [0x0000000000000001, 0x0000000000008082, 0x800000000000808a,
     0x8000000080008000, 0x000000000000808b, 0x0000000080000001,
     0x8000000080008081, 0x8000000000008009, 0x000000000000008a,
     0x0000000000000088, 0x0000000080008009, 0x000000008000000a,
     0x000000008000808b, 0x800000000000008b, 0x8000000000008089,
     0x8000000000008003, 0x8000000000008002, 0x8000000000000080,
     0x000000000000800a, 0x800000008000000a, 0x8000000080008081,
     0x8000000000008080, 0x0000000080000001, 0x8000000080008008]"

definition keccakf_rotc :: "nat list" where
  "keccakf_rotc =
    [1, 3, 6, 10, 15, 21, 28, 36, 45, 55, 2, 14,
     27, 41, 56, 8, 25, 43, 62, 18, 39, 61, 20, 44]"

definition keccakf_piln :: "nat list" where
  "keccakf_piln =
    [10, 7, 11, 17, 18, 3, 5, 16, 8, 21, 24, 4,
     15, 23, 19, 13, 12, 2, 20, 14, 22, 9, 6, 1]"

definition ROTL64 :: "u64 \<Rightarrow> nat \<Rightarrow> u64" where
  "ROTL64 x y = push_bit y x OR drop_bit (64 - y) x"

text \<open>The four passes of one round, in the order of the loop body of \<open>keccakf\<close>.\<close>

definition keccakf_theta :: "u64 list \<Rightarrow> u64 list" where
  "keccakf_theta st =
     (let bc = map (\<lambda>i. st ! i XOR st ! (i + 5) XOR st ! (i + 10) XOR st ! (i + 15) XOR st ! (i + 20)) [0..<5]
      in fold (\<lambda>i st.
           let t = bc ! ((i + 4) mod 5) XOR ROTL64 (bc ! ((i + 1) mod 5)) 1
           in fold (\<lambda>j st. st[j + i := st ! (j + i) XOR t]) [0, 5, 10, 15, 20] st) [0..<5] st)"

definition keccakf_rho_pi :: "u64 list \<Rightarrow> u64 list" where
  "keccakf_rho_pi st =
     fst (fold (\<lambda>i (st, t).
        let j = keccakf_piln ! i
        in (st[j := ROTL64 t (keccakf_rotc ! i)], st ! j)) [0..<24] (st, st ! 1))"

definition keccakf_chi :: "u64 list \<Rightarrow> u64 list" where
  "keccakf_chi st =
     fold (\<lambda>j st.
        let bc = map (\<lambda>i. st ! (j + i)) [0..<5]
        in fold (\<lambda>i st. st[j + i := st ! (j + i) XOR (NOT (bc ! ((i + 1) mod 5)) AND bc ! ((i + 2) mod 5))])
             [0..<5] st) [0, 5, 10, 15, 20] st"

definition keccakf_iota :: "nat \<Rightarrow> u64 list \<Rightarrow> u64 list" where
  "keccakf_iota round st = st[0 := st ! 0 XOR keccakf_rndc ! round]"

definition keccakf :: "u64 list \<Rightarrow> nat \<Rightarrow> u64 list" where
  "keccakf st rounds =
     fold (\<lambda>round st. keccakf_iota round (keccakf_chi (keccakf_rho_pi (keccakf_theta st)))) [0..<rounds] st"

section \<open>One-shot hashing\<close>

text \<open>\<open>swap64le(((uint64_t *) p)[i])\<close>.\<close>

definition word_le :: "bytes \<Rightarrow> nat \<Rightarrow> u64" where
  "word_le p i = of_nat (le_nat (take 8 (drop (8 * i) p)))"

definition xor_block :: "u64 list \<Rightarrow> bytes \<Rightarrow> nat \<Rightarrow> u64 list" where
  "xor_block st p rsizw = fold (\<lambda>i st. st[i := st ! i XOR word_le p i]) [0..<rsizw] st"

text \<open>\<open>memcpy_swap64le\<close> of the first \<open>n\<close> words.\<close>

definition words_to_bytes :: "u64 list \<Rightarrow> nat \<Rightarrow> bytes" where
  "words_to_bytes st n = concat (map (\<lambda>w. nat_le 8 (unat w)) (take n st))"

text \<open>
  The absorbing loop over the full blocks; it returns the state and the bytes that are left. With a
  block size of 0 the loop of the code does not end; \<open>keccak\<close> treats that case before it gets here.
\<close>

function keccak_absorb :: "nat \<Rightarrow> u64 list \<Rightarrow> bytes \<Rightarrow> u64 list \<times> bytes" where
  "keccak_absorb rsiz st inp =
     (if rsiz = 0 \<or> length inp < rsiz then (st, inp)
      else keccak_absorb rsiz (keccakf (xor_block st inp (rsiz div 8)) 24) (drop rsiz inp))"
  by pat_completeness auto

termination keccak_absorb
  by (relation "measure (\<lambda>(rsiz, st, inp). length inp)") auto

definition keccak_pad :: "nat \<Rightarrow> bytes \<Rightarrow> bytes" where
  "keccak_pad rsiz inp =
     (let temp = inp @ [1] @ replicate (rsiz - (length inp + 1)) 0
      in temp[rsiz - 1 := temp ! (rsiz - 1) OR 0x80])"

text \<open>
  \<open>keccak\<close>; \<open>local_abort\<close> is \<open>AssertFailed\<close>. For \<open>mdlen = 100\<close> the block size is 0 and the first
  loop runs forever, which \<open>DoesNotReturn\<close> stands for.
\<close>

definition keccak :: "bytes \<Rightarrow> int \<Rightarrow> exn + bytes" where
  "keccak inp mdlen =
     (if mdlen \<le> 0 \<or> mdlen > 100 \<and> mdlen \<noteq> 200 then Inl AssertFailed
      else
        let rsiz = (if mdlen = 200 then 136 else nat (200 - 2 * mdlen));
            rsizw = rsiz div 8
        in if rsiz = 0 then Inl DoesNotReturn
        else
          let (st, rest) = keccak_absorb rsiz (replicate 25 0) inp;
              inlen = length rest
          in if inlen + 1 \<ge> 144 \<or> inlen > rsiz \<or> rsiz + 1 \<ge> 144 \<or> rsiz - 1 \<ge> 144 \<or> rsizw * 8 > 144
             then Inl AssertFailed
             else
               let st = keccakf (xor_block st (keccak_pad rsiz rest) rsizw) 24
               in if mdlen mod 8 \<noteq> 0 then Inl AssertFailed
                  else Inr (words_to_bytes st (nat (mdlen div 8))))"

definition keccak1600 :: "bytes \<Rightarrow> exn + bytes" where
  "keccak1600 inp = keccak inp 200"

text \<open>\<open>cn_fast_hash\<close>: the first 32 bytes of the final state.\<close>

definition cn_fast_hash :: "bytes \<Rightarrow> bytes" where
  "cn_fast_hash data = (case keccak1600 data of Inl _ \<Rightarrow> [] | Inr state \<Rightarrow> take 32 state)"

section \<open>Incremental hashing\<close>

text \<open>\<open>message\<close> is the byte buffer of one block, \<open>rest\<close> the number of its bytes in use, or the finalized mark.\<close>

record KECCAK_CTX =
  ctx_hash :: "u64 list"
  ctx_message :: bytes
  ctx_rest :: nat

definition KECCAK_FINALIZED :: nat where
  "KECCAK_FINALIZED = 0x80000000"

definition KECCAK_BLOCKLEN :: nat where
  "KECCAK_BLOCKLEN = 136"

definition process_block :: "u64 list \<Rightarrow> bytes \<Rightarrow> u64 list" where
  "process_block st block = keccakf (xor_block st block 17) 24"

definition keccak_init :: KECCAK_CTX where
  "keccak_init = \<lparr>ctx_hash = replicate 25 0, ctx_message = replicate 136 0, ctx_rest = 0\<rparr>"

text \<open>\<open>memcpy((char *) message + idx, in, n)\<close>.\<close>

definition copy_at :: "bytes \<Rightarrow> nat \<Rightarrow> bytes \<Rightarrow> bytes" where
  "copy_at message idx bs = take idx message @ bs @ drop (idx + length bs) message"

text \<open>
  The loop over full blocks. Where the input pointer is not aligned the block goes through the
  message buffer.
\<close>

function keccak_update_loop :: "bool \<Rightarrow> KECCAK_CTX \<Rightarrow> bytes \<Rightarrow> KECCAK_CTX \<times> bytes" where
  "keccak_update_loop is_aligned ctx inp =
     (if length inp < KECCAK_BLOCKLEN then (ctx, inp)
      else
        let ctx = (if is_aligned then ctx
                   else ctx\<lparr>ctx_message := copy_at (ctx_message ctx) 0 (take KECCAK_BLOCKLEN inp)\<rparr>);
            block = (if is_aligned then take KECCAK_BLOCKLEN inp else ctx_message ctx)
        in keccak_update_loop is_aligned (ctx\<lparr>ctx_hash := process_block (ctx_hash ctx) block\<rparr>)
             (drop KECCAK_BLOCKLEN inp))"
  by pat_completeness auto

termination keccak_update_loop
  by (relation "measure (\<lambda>(a, ctx, inp). length inp)") (auto simp: KECCAK_BLOCKLEN_def)

definition keccak_update :: "bool \<Rightarrow> KECCAK_CTX \<Rightarrow> bytes \<Rightarrow> exn + KECCAK_CTX" where
  "keccak_update is_aligned ctx inp =
     (if bit (ctx_rest ctx) 31 then Inl AssertFailed
      else
        let idx = ctx_rest ctx;
            ctx = ctx\<lparr>ctx_rest := (idx + length inp) mod KECCAK_BLOCKLEN\<rparr>;
            left = KECCAK_BLOCKLEN - idx;
            ctx = (if idx \<noteq> 0 then ctx\<lparr>ctx_message := copy_at (ctx_message ctx) idx (take left inp)\<rparr> else ctx)
        in if idx \<noteq> 0 \<and> length inp < left then Inr ctx
        else
          let ctx = (if idx \<noteq> 0 then ctx\<lparr>ctx_hash := process_block (ctx_hash ctx) (ctx_message ctx)\<rparr> else ctx);
              inp = (if idx \<noteq> 0 then drop left inp else inp);
              (ctx, inp) = keccak_update_loop is_aligned ctx inp
          in Inr (if inp \<noteq> [] then ctx\<lparr>ctx_message := copy_at (ctx_message ctx) 0 inp\<rparr> else ctx))"

text \<open>\<open>keccak_finish\<close> returns the context and the 32 bytes of the digest.\<close>

definition keccak_finish :: "KECCAK_CTX \<Rightarrow> KECCAK_CTX \<times> bytes" where
  "keccak_finish ctx =
     (let ctx =
        (if bit (ctx_rest ctx) 31 then ctx
         else
           let message = copy_at (ctx_message ctx) (ctx_rest ctx) (replicate (KECCAK_BLOCKLEN - ctx_rest ctx) 0);
               message = message[ctx_rest ctx := message ! ctx_rest ctx OR 0x01];
               message = message[KECCAK_BLOCKLEN - 1 := message ! (KECCAK_BLOCKLEN - 1) OR 0x80]
           in ctx\<lparr>ctx_message := message, ctx_hash := process_block (ctx_hash ctx) message,
                  ctx_rest := KECCAK_FINALIZED\<rparr>)
      in (ctx, words_to_bytes (ctx_hash ctx) 4))"

section \<open>Incremental hashing agrees with one-shot hashing\<close>

declare keccak_absorb.simps [simp del] keccak_update_loop.simps [simp del]

lemma word_le_take: "8 * i + 8 \<le> n \<Longrightarrow> word_le (take n p) i = word_le p i"
  by (simp add: word_le_def take_drop min_def)

lemma xor_block_take: "8 * w \<le> n \<Longrightarrow> xor_block st (take n p) w = xor_block st p w"
  unfolding xor_block_def by (rule fold_cong) (auto simp: word_le_take)

lemma keccak_absorb_short: "length inp < rsiz \<Longrightarrow> keccak_absorb rsiz st inp = (st, inp)"
  by (simp add: keccak_absorb.simps)

lemma keccak_absorb_block:
  "\<not> length inp < 136 \<Longrightarrow>
   keccak_absorb 136 st inp = keccak_absorb 136 (process_block st (take 136 inp)) (drop 136 inp)"
  by (subst keccak_absorb.simps) (simp add: process_block_def xor_block_take)

lemma keccak_absorb_rest:
  assumes "0 < rsiz" "keccak_absorb rsiz st inp = (st', r)"
  shows "length r < rsiz"
  using assms
proof (induction rsiz st inp rule: keccak_absorb.induct)
  case (1 rsiz st inp)
  then show ?case using keccak_absorb.simps [of rsiz st inp] by (auto split: if_splits)
qed

lemma keccak_absorb_append:
  "keccak_absorb 136 st (x @ y) =
     (case keccak_absorb 136 st x of (st', r) \<Rightarrow> keccak_absorb 136 st' (r @ y))"
proof (induction "length x" arbitrary: st x rule: less_induct)
  case less
  show ?case
  proof (cases "length x < 136")
    case True
    then show ?thesis by (simp add: keccak_absorb_short)
  next
    case False
    then show ?thesis
      using less [of "drop 136 x" "process_block st (take 136 x)"]
      by (simp add: keccak_absorb_block)
  qed
qed

lemma keccak_absorb_full:
  assumes "length b = 136"
  shows "keccak_absorb 136 st (b @ y) = keccak_absorb 136 (process_block st b) y"
  using assms by (simp add: keccak_absorb_block)

lemma length_copy_at:
  "idx + length bs \<le> length message \<Longrightarrow> length (copy_at message idx bs) = length message"
  by (simp add: copy_at_def)

lemma update_loop_absorb:
  assumes "keccak_update_loop al ctx inp = (ctx', r)" "length (ctx_message ctx) = 136"
  shows "keccak_absorb 136 (ctx_hash ctx) inp = (ctx_hash ctx', r)
    \<and> length (ctx_message ctx') = 136 \<and> ctx_rest ctx' = ctx_rest ctx"
  using assms
proof (induction "length inp" arbitrary: ctx inp rule: less_induct)
  case less
  show ?case
  proof (cases "length inp < 136")
    case True
    then show ?thesis
      using less.prems by (simp add: keccak_update_loop.simps KECCAK_BLOCKLEN_def keccak_absorb_short)
  next
    case False
    define c where "c = (if al then ctx else ctx\<lparr>ctx_message := take 136 inp\<rparr>)"
    define c' where "c' = c\<lparr>ctx_hash := process_block (ctx_hash c) (take 136 inp)\<rparr>"
    have c: "length (ctx_message c') = 136" "ctx_hash c' = process_block (ctx_hash ctx) (take 136 inp)"
      "ctx_rest c' = ctx_rest ctx"
      using False less.prems(2) by (simp_all add: c_def c'_def)
    have "keccak_update_loop al c' (drop 136 inp) = (ctx', r)"
      using False less.prems keccak_update_loop.simps [of al ctx inp]
      by (simp add: KECCAK_BLOCKLEN_def Let_def copy_at_def c_def c'_def split: if_splits)
    from less.hyps [OF _ this c(1)] False show ?thesis
      by (simp add: keccak_absorb_block c)
  qed
qed

text \<open>A context stands for the bytes it was fed.\<close>

definition ctx_repr :: "KECCAK_CTX \<Rightarrow> bytes \<Rightarrow> bool" where
  "ctx_repr ctx x \<longleftrightarrow>
     (case keccak_absorb 136 (replicate 25 0) x of
        (st, r) \<Rightarrow> ctx_hash ctx = st \<and> ctx_rest ctx = length r
          \<and> length (ctx_message ctx) = 136 \<and> take (length r) (ctx_message ctx) = r)"

lemma not_finalized: "n < 136 \<Longrightarrow> \<not> bit (n::nat) 31"
  by (simp add: bit_iff_odd)

lemma ctx_repr_init: "ctx_repr keccak_init []"
  by (simp add: ctx_repr_def keccak_init_def keccak_absorb_short)

lemma ctx_repr_after_loop:
  assumes "keccak_update_loop al ctx inp = (ctx', r)" "length (ctx_message ctx) = 136"
    and "keccak_absorb 136 (replicate 25 0) x = keccak_absorb 136 (ctx_hash ctx) inp"
    and "ctx_rest ctx = length inp mod 136"
  shows "ctx_repr (if r \<noteq> [] then ctx'\<lparr>ctx_message := copy_at (ctx_message ctx') 0 r\<rparr> else ctx') x"
proof -
  note loop = update_loop_absorb [OF assms(1,2)]
  then have ab: "keccak_absorb 136 (ctx_hash ctx) inp = (ctx_hash ctx', r)" by blast
  have "length r < 136" by (rule keccak_absorb_rest [OF _ ab]) simp
  moreover have "length inp mod 136 = length r mod 136"
    using ab
  proof (induction "length inp" arbitrary: inp "ctx" rule: less_induct)
    case less
    show ?case
    proof (cases "length inp < 136")
      case True
      then show ?thesis using less.prems by (simp add: keccak_absorb_short)
    next
      case False
      then have "length (drop 136 inp) mod 136 = length r mod 136"
        using less.hyps [of "drop 136 inp" "ctx\<lparr>ctx_hash := process_block (ctx_hash ctx) (take 136 inp)\<rparr>"]
          less.prems by (simp add: keccak_absorb_block)
      then show ?thesis using False by (simp add: le_mod_geq)
    qed
  qed
  ultimately show ?thesis
    using loop assms(3,4) by (simp add: ctx_repr_def copy_at_def)
qed

lemma ctx_repr_update:
  assumes "ctx_repr ctx x"
  shows "\<exists>ctx'. keccak_update al ctx y = Inr ctx' \<and> ctx_repr ctx' (x @ y)"
proof -
  obtain st r where ab: "keccak_absorb 136 (replicate 25 0) x = (st, r)" by fastforce
  have r: "length r < 136" by (rule keccak_absorb_rest [OF _ ab]) simp
  have ctx: "ctx_hash ctx = st" "ctx_rest ctx = length r" "length (ctx_message ctx) = 136"
    "take (length r) (ctx_message ctx) = r"
    using assms ab by (simp_all add: ctx_repr_def)
  have nf: "\<not> bit (ctx_rest ctx) 31" using r by (simp add: ctx(2) not_finalized)
  have xy: "keccak_absorb 136 (replicate 25 0) (x @ y) = keccak_absorb 136 st (r @ y)"
    unfolding keccak_absorb_append [of "replicate 25 0"] ab by simp
  consider (empty) "r = []" | (short) "r \<noteq> []" "length y < 136 - length r"
    | (fill) "r \<noteq> []" "136 - length r \<le> length y" by linarith
  then show ?thesis
  proof cases
    case empty
    define c where "c = ctx\<lparr>ctx_rest := length y mod 136\<rparr>"
    obtain c' s where loop: "keccak_update_loop al c y = (c', s)" by fastforce
    have "keccak_update al ctx y = Inr (if s \<noteq> [] then c'\<lparr>ctx_message := copy_at (ctx_message c') 0 s\<rparr> else c')"
      using nf empty ctx(2) loop by (simp add: keccak_update_def Let_def c_def KECCAK_BLOCKLEN_def)
    moreover have "ctx_repr (if s \<noteq> [] then c'\<lparr>ctx_message := copy_at (ctx_message c') 0 s\<rparr> else c') (x @ y)"
      by (rule ctx_repr_after_loop [OF loop]) (simp_all add: c_def ctx xy empty)
    ultimately show ?thesis by blast
  next
    case short
    have "keccak_absorb 136 st (r @ y) = (st, r @ y)"
      using short r by (simp add: keccak_absorb_short)
    moreover have "keccak_update al ctx y = Inr (ctx\<lparr>ctx_rest := (length r + length y) mod 136,
        ctx_message := copy_at (ctx_message ctx) (length r) y\<rparr>)"
      using nf short ctx(2) by (simp add: keccak_update_def Let_def KECCAK_BLOCKLEN_def)
    ultimately show ?thesis using short r ctx xy by (auto simp: ctx_repr_def copy_at_def)
  next
    case fill
    define left where "left = 136 - length r"
    define b where "b = r @ take left y"
    have b: "length b = 136" using fill r by (simp add: b_def left_def)
    have msg: "copy_at (ctx_message ctx) (length r) (take left y) = b"
      using fill r ctx by (simp add: copy_at_def b_def left_def)
    define c where "c = ctx\<lparr>ctx_rest := (length r + length y) mod 136, ctx_message := b,
      ctx_hash := process_block st b\<rparr>"
    obtain c' s where loop: "keccak_update_loop al c (drop left y) = (c', s)" by fastforce
    have "length r + length y = 136 + length (drop left y)" using fill r by (simp add: left_def)
    then have rest: "(length r + length y) mod 136 = length (drop left y) mod 136"
      by (metis mod_add_self1)
    have "r @ y = b @ drop left y" by (simp add: b_def)
    then have absorb: "keccak_absorb 136 st (r @ y) = keccak_absorb 136 (process_block st b) (drop left y)"
      using keccak_absorb_full [OF b] by simp
    have "keccak_update al ctx y = Inr (if s \<noteq> [] then c'\<lparr>ctx_message := copy_at (ctx_message c') 0 s\<rparr> else c')"
      using nf fill ctx(1,2) loop msg
      by (simp add: keccak_update_def Let_def c_def KECCAK_BLOCKLEN_def left_def)
    moreover have "ctx_repr (if s \<noteq> [] then c'\<lparr>ctx_message := copy_at (ctx_message c') 0 s\<rparr> else c') (x @ y)"
      by (rule ctx_repr_after_loop [OF loop]) (use b rest xy absorb in \<open>simp_all add: c_def\<close>)
    ultimately show ?thesis by blast
  qed
qed

lemma keccak_32:
  assumes "keccak_absorb 136 (replicate 25 0) x = (st, r)"
  shows "keccak x 32 = Inr (words_to_bytes (process_block st (keccak_pad 136 r)) 4)"
    and "keccak x 200 = Inr (words_to_bytes (process_block st (keccak_pad 136 r)) 25)"
proof -
  have "length r < 136" by (rule keccak_absorb_rest [OF _ assms]) simp
  then show "keccak x 32 = Inr (words_to_bytes (process_block st (keccak_pad 136 r)) 4)"
    "keccak x 200 = Inr (words_to_bytes (process_block st (keccak_pad 136 r)) 25)"
    by (simp_all add: keccak_def assms process_block_def)
qed

lemma finish_pad:
  assumes "length message = 136" "length r < 136" "take (length r) message = r"
  shows "(let m = copy_at message (length r) (replicate (136 - length r) 0);
              m = m[length r := m ! length r OR 0x01]
          in m[136 - 1 := m ! (136 - 1) OR 0x80]) = keccak_pad 136 r"
proof -
  have "copy_at message (length r) (replicate (136 - length r) 0) = r @ 0 # replicate (136 - length r - 1) (0 :: u8)"
  proof -
    have "136 - length r = Suc (136 - length r - 1)" using assms(2) by simp
    then have "replicate (136 - length r) 0 = 0 # replicate (136 - length r - 1) (0 :: u8)"
      by (metis replicate_Suc)
    then show ?thesis using assms by (simp add: copy_at_def)
  qed
  then show ?thesis by (simp add: Let_def keccak_pad_def)
qed

lemma ctx_repr_finish:
  assumes "ctx_repr ctx x"
  shows "Inr (snd (keccak_finish ctx)) = keccak x 32"
proof -
  obtain st r where ab: "keccak_absorb 136 (replicate 25 0) x = (st, r)" by fastforce
  have r: "length r < 136" by (rule keccak_absorb_rest [OF _ ab]) simp
  have ctx: "ctx_hash ctx = st" "ctx_rest ctx = length r" "length (ctx_message ctx) = 136"
    "take (length r) (ctx_message ctx) = r"
    using assms ab by (simp_all add: ctx_repr_def)
  have nf: "\<not> bit (ctx_rest ctx) 31" using r by (simp add: ctx(2) not_finalized)
  show ?thesis
    using nf finish_pad [OF ctx(3) r ctx(4)] keccak_32(1) [OF ab]
    by (simp add: keccak_finish_def ctx(1,2) KECCAK_BLOCKLEN_def Let_def)
qed

section \<open>The size of a hash\<close>

lemma length_fold:
  assumes "\<And>x st. length (f x st) = length st"
  shows "length (fold f xs st) = length st"
  using assms by (induction xs arbitrary: st) simp_all

lemma length_fold_fst:
  assumes "\<And>x p. length (fst (f x p)) = length (fst p)"
  shows "length (fst (fold f xs p)) = length (fst p)"
  using assms by (induction xs arbitrary: p) simp_all

lemma length_keccakf [simp]: "length (keccakf st n) = length st"
proof -
  have "length (keccakf_theta st) = length st" for st
    by (simp add: keccakf_theta_def Let_def length_fold)
  moreover have "length (keccakf_rho_pi st) = length st" for st
    unfolding keccakf_rho_pi_def by (subst length_fold_fst) (auto simp: Let_def split: prod.splits)
  moreover have "length (keccakf_chi st) = length st" for st
    by (simp add: keccakf_chi_def Let_def length_fold)
  moreover have "length (keccakf_iota i st) = length st" for i st
    by (simp add: keccakf_iota_def)
  ultimately show ?thesis unfolding keccakf_def by (intro length_fold) simp
qed

lemma length_process_block [simp]: "length (process_block st b) = length st"
  by (simp add: process_block_def xor_block_def length_fold)

lemma length_absorb:
  "keccak_absorb 136 st x = (st', r) \<Longrightarrow> length st' = length st"
proof (induction "length x" arbitrary: st x rule: less_induct)
  case less
  show ?case
  proof (cases "length x < 136")
    case True
    then show ?thesis using less.prems by (simp add: keccak_absorb_short)
  next
    case False
    then show ?thesis
      using less.hyps [of "drop 136 x" "process_block st (take 136 x)"] less.prems
      by (simp add: keccak_absorb_block)
  qed
qed

lemma length_words_to_bytes: "n \<le> length st \<Longrightarrow> length (words_to_bytes st n) = 8 * n"
  by (simp add: words_to_bytes_def length_concat comp_def sum_list_triv)

lemma words_to_bytes_take: "take (8 * k) (words_to_bytes st n) = words_to_bytes st (min k n)"
proof (induction st arbitrary: n k)
  case (Cons w st)
  show ?case
  proof (cases n)
    case (Suc n')
    show ?thesis
    proof (cases k)
      case (Suc k')
      then show ?thesis
        using Cons [of k' n'] \<open>n = Suc n'\<close> by (simp add: words_to_bytes_def)
    qed (simp add: words_to_bytes_def)
  qed (simp add: words_to_bytes_def)
qed (simp add: words_to_bytes_def)

lemma cn_fast_hash_keccak: "keccak data 32 = Inr (cn_fast_hash data)"
proof -
  obtain st r where ab: "keccak_absorb 136 (replicate 25 0) data = (st, r)" by fastforce
  show ?thesis
    using keccak_32 [OF ab] words_to_bytes_take [of 4]
    by (simp add: cn_fast_hash_def keccak1600_def)
qed

lemma length_cn_fast_hash [simp]: "length (cn_fast_hash data) = 32"
proof -
  obtain st r where ab: "keccak_absorb 136 (replicate 25 0) data = (st, r)" by fastforce
  have "length st = 25" using length_absorb [OF ab] by simp
  then show ?thesis using keccak_32(1) [OF ab] cn_fast_hash_keccak [of data]
    by (simp add: length_words_to_bytes)
qed

section \<open>The interface of a streaming hash\<close>

text \<open>
  A context that represents the bytes it was fed: the initial one represents none, feeding more
  bytes never fails and extends them, and finishing gives the hash of all of them.
\<close>

locale streaming_hash =
  fixes repr :: "'c \<Rightarrow> bytes \<Rightarrow> bool"
    and init :: 'c
    and update :: "'a \<Rightarrow> 'c \<Rightarrow> bytes \<Rightarrow> exn + 'c"
    and finish :: "'c \<Rightarrow> bytes"
    and hash :: "bytes \<Rightarrow> bytes"
  assumes repr_init: "repr init []"
    and repr_update: "repr c x \<Longrightarrow> \<exists>c'. update a c y = Inr c' \<and> repr c' (x @ y)"
    and repr_finish: "repr c x \<Longrightarrow> finish c = hash x"
begin

primrec feed :: "'c \<Rightarrow> ('a \<times> bytes) list \<Rightarrow> exn + 'c" where
  "feed c [] = Inr c"
| "feed c (y # ys) = (case update (fst y) c (snd y) of Inl e \<Rightarrow> Inl e | Inr c' \<Rightarrow> feed c' ys)"

lemma feed_repr:
  "repr c x \<Longrightarrow> \<exists>c'. feed c ys = Inr c' \<and> repr c' (x @ concat (map snd ys))"
proof (induction ys arbitrary: c x)
  case (Cons y ys)
  obtain c1 where "update (fst y) c (snd y) = Inr c1" "repr c1 (x @ snd y)"
    using repr_update [OF Cons.prems] by blast
  then show ?case using Cons.IH [of c1 "x @ snd y"] by simp
qed simp

lemma feed_finish: "\<exists>c. feed init ys = Inr c \<and> finish c = hash (concat (map snd ys))"
  using feed_repr [OF repr_init, of ys] repr_finish by auto

end

interpretation keccak_stream:
  streaming_hash ctx_repr keccak_init keccak_update "\<lambda>ctx. snd (keccak_finish ctx)" cn_fast_hash
proof
  show "snd (keccak_finish c) = cn_fast_hash x" if "ctx_repr c x" for c x
    using ctx_repr_finish [OF that] by (simp add: cn_fast_hash_keccak)
qed (simp_all add: ctx_repr_init ctx_repr_update)

text \<open>Feeding the pieces of a message one after the other, each with the alignment of its pointer.\<close>

primrec keccak_feed :: "KECCAK_CTX \<Rightarrow> (bool \<times> bytes) list \<Rightarrow> exn + KECCAK_CTX" where
  "keccak_feed ctx [] = Inr ctx"
| "keccak_feed ctx (y # ys) =
     (case keccak_update (fst y) ctx (snd y) of Inl e \<Rightarrow> Inl e | Inr ctx' \<Rightarrow> keccak_feed ctx' ys)"

lemma keccak_feed_eq: "keccak_feed ctx ys = keccak_stream.feed ctx ys"
  by (induction ys arbitrary: ctx) (simp_all split: sum.splits)

text \<open>
  C25: hashing a message piece by piece with \<open>keccak_init\<close>, \<open>keccak_update\<close> and \<open>keccak_finish\<close> never
  aborts and gives \<open>cn_fast_hash\<close> of the whole message, however it is cut and whatever the alignment
  of the pieces.
\<close>

theorem keccak_incremental:
  "\<exists>ctx. keccak_feed keccak_init ys = Inr ctx \<and> snd (keccak_finish ctx) = cn_fast_hash (concat (map snd ys))"
  unfolding keccak_feed_eq by (rule keccak_stream.feed_finish)

end
