(* ===== verification/Stream.thy ===== *)
theory Stream
  imports Prelude
begin

text \<open>
  \<open>src/stream\<close>: the \<open>Reader\<close> and \<open>Writer\<close> classes, their variable-length integers, and the
  stream operators of strings, vectors, pairs and maps. A \<open>Writer\<close> operation is a function to the
  bytes it appends; a \<open>Reader\<close> operation takes the bytes that remain and returns a value with the
  bytes after it, or the exception it throws.
\<close>

section \<open>Definitions\<close>

text \<open>\<open>Reader::read(void *, size_t)\<close>; it throws when the stream ends early.\<close>

definition read_bytes :: "nat \<Rightarrow> bytes reader" where
  "read_bytes n s = (if length s < n then Inl EndOfStream else Inr (take n s, drop n s))"

fun read_byte :: "u8 reader" where
  "read_byte [] = Inl EndOfStream"
| "read_byte (b # s) = Inr (b, s)"

text \<open>
  \<open>Reader::readVarint\<close> for an unsigned type of \<open>bits\<close> bits; the loop carries \<open>shift\<close> and \<open>temp\<close>.
\<close>

fun readVarint_loop :: "nat \<Rightarrow> nat \<Rightarrow> u64 \<Rightarrow> u64 reader" where
  "readVarint_loop bits shift temp [] = Inl EndOfStream"
| "readVarint_loop bits shift temp (piece # s) =
     (if bits - 7 \<le> shift \<and> 2 ^ (bits - shift) \<le> unat piece then Inl VarintOverflow
      else
        let temp = temp OR push_bit shift (ucast (piece AND 0x7F))
        in if piece AND 0x80 = 0
           then if piece = 0 \<and> shift \<noteq> 0 then Inl VarintNotCanonical else Inr (temp, s)
           else readVarint_loop bits (shift + 7) temp s)"

definition readVarint :: "nat \<Rightarrow> u64 reader" where
  "readVarint bits = readVarint_loop bits 0 0"

function writeVarint :: "u64 \<Rightarrow> bytes" where
  "writeVarint v =
     (if 0x80 \<le> v then ucast (v OR 0x80) # writeVarint (drop_bit 7 v) else [ucast v])"
  by pat_completeness auto

text \<open>\<open>Reader::readHeight\<close> and \<open>Writer::writeHeight\<close>.\<close>

definition readHeight :: "u64 reader" where
  "readHeight s =
     (case readVarint 64 s of
        Inl e \<Rightarrow> Inl e
      | Inr (height, s) \<Rightarrow>
          if height = - 1 then Inr (0xFFFFFFFF, s)
          else if 0xFFFFFFFF < height then Inl BadHeight
          else Inr (height, s))"

definition writeHeight :: "u64 \<Rightarrow> bytes" where
  "writeHeight blockHeight = writeVarint blockHeight"

text \<open>Reading one value after another; an exception ends the reading.\<close>

definition rret :: "'a \<Rightarrow> 'a reader" where
  "rret x s = Inr (x, s)"

definition rthrow :: "exn \<Rightarrow> 'a reader" where
  "rthrow e s = Inl e"

definition rbind :: "'a reader \<Rightarrow> ('a \<Rightarrow> 'b reader) \<Rightarrow> 'b reader" where
  "rbind r f s = (case r s of Inl e \<Rightarrow> Inl e | Inr (x, s) \<Rightarrow> f x s)"

lemma rret_iff [reader_simps]: "rret x s = Inr (y, r) \<longleftrightarrow> y = x \<and> r = s"
  by (auto simp: rret_def)

lemma rthrow_iff [reader_simps]: "rthrow e s = Inr (y, r) \<longleftrightarrow> False"
  by (simp add: rthrow_def)

lemma rbind_iff [reader_simps]: "rbind m f s = Inr (y, r) \<longleftrightarrow> (\<exists>x t. m s = Inr (x, t) \<and> f x t = Inr (y, r))"
  by (auto simp: rbind_def split: sum.splits prod.splits)

lemma read_byte_iff [reader_simps]: "read_byte s = Inr (b, r) \<longleftrightarrow> s = b # r"
  by (cases s) auto

section \<open>Variable-length integers\<close>

termination writeVarint
proof (relation "measure unat", simp_all del: drop_bit_eq_div)
  fix v :: u64
  assume "0x80 \<le> v"
  then have "128 \<le> unat v" by (simp add: word_le_nat_alt)
  then show "unat (drop_bit 7 v) < unat v" by (simp add: unat_drop_bit del: drop_bit_eq_div)
qed

declare writeVarint.simps [simp del]

text \<open>The groups of seven bits of a number, least significant first.\<close>

fun varint_nat :: "nat \<Rightarrow> bytes" where
  "varint_nat n = (if n < 128 then [of_nat n] else of_nat (n mod 128 + 128) # varint_nat (n div 128))"

declare varint_nat.simps [simp del]

lemma or_0x80: "unat (ucast (v OR 0x80 :: u64) :: u8) = unat v mod 128 + 128"
proof -
  have "(ucast (v OR 0x80 :: u64) :: u8) = take_bit 7 (ucast v) OR push_bit 7 1"
  proof (rule bit_word_eqI)
    fix n assume "n < LENGTH(8)"
    then have "n \<in> {0,1,2,3,4,5,6,7}" by auto
    then show "bit (ucast (v OR 0x80 :: u64) :: u8) n = bit (take_bit 7 (ucast v) OR push_bit 7 1 :: u8) n"
      by (auto simp: bit_simps)
  qed
  also have "\<dots> = take_bit 7 (ucast v) + push_bit 7 1"
    by (rule or_eq_add_shift) (simp add: unat_take_bit del: take_bit_eq_mod)
  finally show ?thesis
    by (simp add: unat_word_ariths unat_take_bit unat_ucast_mod mod_mod_cancel)
qed

lemma writeVarint_nat: "writeVarint v = varint_nat (unat v)"
proof (induction v rule: writeVarint.induct)
  case (1 v)
  show ?case
  proof (cases "0x80 \<le> v")
    case True
    then have big: "128 \<le> unat v" by (simp add: word_le_nat_alt)
    have "(ucast (v OR 0x80) :: u8) = of_nat (unat v mod 128 + 128)"
      by (simp only: word_unat_eq_iff or_0x80 unat_of_nat_u8) simp
    then show ?thesis
      using True big 1 by (subst writeVarint.simps, subst varint_nat.simps) (simp add: unat_drop_bit del: drop_bit_eq_div)
  next
    case False
    then have "unat v < 128" by (simp add: word_le_nat_alt)
    then show ?thesis using False
      by (subst writeVarint.simps, subst varint_nat.simps) (simp add: word_unat_eq_iff unat_ucast_mod unat_of_nat_u8)
  qed
qed

lemma unat_and_7f: "unat (piece AND 0x7F :: u8) = unat piece mod 128"
proof -
  have "(0x7F :: u8) = mask 7" by (simp add: mask_eq_exp_minus_1)
  then show ?thesis by (simp only: unat_and_mask) simp
qed

lemma and_80_zero: "(piece :: u8) AND 0x80 = 0 \<longleftrightarrow> unat piece < 128"
proof -
  have m: "(0x80 :: u8) = push_bit 7 1" by simp
  have "piece AND 0x80 = 0 \<longleftrightarrow> \<not> bit piece 7"
    unfolding m
  proof
    assume "piece AND push_bit 7 1 = 0"
    then have "\<not> bit (piece AND push_bit 7 1) 7" by simp
    then show "\<not> bit piece 7" by (simp add: bit_simps)
  next
    assume "\<not> bit piece 7"
    show "piece AND push_bit 7 1 = 0"
    proof (rule bit_word_eqI)
      fix n assume "n < LENGTH(8)"
      then have "n \<in> {0,1,2,3,4,5,6,7}" by auto
      with \<open>\<not> bit piece 7\<close> show "bit (piece AND push_bit 7 1) n = bit 0 n"
        by (auto simp: bit_simps)
    qed
  qed
  also have "\<dots> \<longleftrightarrow> take_bit 7 piece = piece"
  proof
    assume n: "\<not> bit piece 7"
    show "take_bit 7 piece = piece"
    proof (rule bit_word_eqI)
      fix n assume "n < LENGTH(8)"
      then show "bit (take_bit 7 piece) n = bit piece n"
        using n by (cases "n = 7") (auto simp: bit_take_bit_iff)
    qed
  next
    assume "take_bit 7 piece = piece"
    then show "\<not> bit piece 7" by (metis bit_take_bit_iff less_irrefl)
  qed
  also have "\<dots> \<longleftrightarrow> unat piece < 128"
    using mod_eq_self_iff_div_eq_0 [of "unat piece" 128]
    by (simp add: word_unat_eq_iff unat_take_bit div_eq_0_iff del: take_bit_eq_mod)
  finally show ?thesis .
qed

lemma or_piece:
  assumes "unat temp < 2 ^ shift" "unat temp + unat p * 2 ^ shift < 18446744073709551616"
  shows "unat (temp OR push_bit shift (ucast (p :: u8)) :: u64) = unat temp + unat p * 2 ^ shift"
proof -
  have "unat p * 2 ^ shift < 18446744073709551616" using assms(2) by linarith
  then have "unat (push_bit shift (ucast p) :: u64) = unat p * 2 ^ shift"
    by (simp add: unat_push_bit)
  then show ?thesis
    using assms(2) by (simp add: or_eq_add_shift [OF assms(1)] unat_word_ariths)
qed

lemma shift_step:
  fixes n shift :: nat
  shows "n mod 128 * 2 ^ shift + n div 128 * 2 ^ (shift + 7) = n * 2 ^ shift"
proof -
  have "(n mod 128 + n div 128 * 128) * 2 ^ shift = n mod 128 * 2 ^ shift + n div 128 * 2 ^ (shift + 7)"
    by (simp only: add_mult_distrib power_add) simp
  then show ?thesis by simp
qed

lemma piece_overflow:
  assumes "temp + n * 2 ^ shift < (2::nat) ^ bits" "shift < bits"
  shows "n < 2 ^ (bits - shift)"
proof -
  have "n * 2 ^ shift < 2 ^ (bits - shift) * 2 ^ shift"
    using assms by (simp flip: power_add)
  then show ?thesis by simp
qed

lemma readVarint_loop_write:
  assumes "unat temp < 2 ^ shift" "shift < bits" "bits \<le> 64"
    and "unat temp + n * 2 ^ shift < 2 ^ bits" "n \<noteq> 0 \<or> shift = 0"
  shows "\<exists>v. readVarint_loop bits shift temp (varint_nat n @ s) = Inr (v, s)
    \<and> unat v = unat temp + n * 2 ^ shift"
  using assms
proof (induction n arbitrary: temp shift rule: varint_nat.induct)
  case (1 n)
  have pow: "(2::nat) ^ bits \<le> 18446744073709551616"
    using power_increasing [OF 1(4), of "2::nat"] by simp
  show ?case
  proof (cases "n < 128")
    case True
    then have u: "unat (of_nat n :: u8) = n" by (simp add: unat_of_nat_u8)
    have p: "(of_nat n :: u8) AND 0x7F = of_nat n"
      using True u by (simp only: word_unat_eq_iff unat_and_7f) simp
    have "\<not> 2 ^ (bits - shift) \<le> unat (of_nat n :: u8)"
      using piece_overflow [OF 1(5) 1(3)] u by simp
    moreover have "(of_nat n :: u8) AND 0x80 = 0" using True u by (simp add: and_80_zero)
    moreover have "\<not> ((of_nat n :: u8) = 0 \<and> shift \<noteq> 0)"
      using u 1(6) by (metis unat_0)
    moreover have "unat (temp OR push_bit shift (ucast (of_nat n :: u8)) :: u64) = unat temp + n * 2 ^ shift"
      using or_piece [OF 1(2), of "of_nat n"] 1(5) pow u by simp
    ultimately show ?thesis
      using True by (subst varint_nat.simps) (auto simp: Let_def p)
  next
    case False
    define b :: u8 where "b = of_nat (n mod 128 + 128)"
    have u: "unat b = n mod 128 + 128" unfolding b_def unat_of_nat_u8 by simp
    define p where "p = b AND 0x7F"
    have up: "unat p = n mod 128" by (simp add: p_def unat_and_7f u)
    have n: "n * 2 ^ shift = n mod 128 * 2 ^ shift + n div 128 * 2 ^ (shift + 7)"
      by (simp only: shift_step)
    define temp' where "temp' = temp OR push_bit shift (ucast p)"
    have "unat temp + unat p * 2 ^ shift < 18446744073709551616"
      unfolding up using 1(5) n pow by linarith
    from or_piece [OF 1(2) this] have ut: "unat temp' = unat temp + n mod 128 * 2 ^ shift"
      by (simp only: temp'_def up)
    have "128 * 2 ^ shift \<le> n * 2 ^ shift" using False by simp
    then have "128 * 2 ^ shift < (2::nat) ^ bits" using 1(5) by linarith
    then have "2 ^ (shift + 7) < (2::nat) ^ bits" by (simp add: power_add)
    then have sh: "shift + 7 < bits" by (rule power_less_imp_less_exp [rotated]) simp
    have "n mod 128 \<le> 127" using mod_less_divisor [of 128 n] by linarith
    then have "unat temp + n mod 128 * 2 ^ shift < 2 ^ shift + 127 * 2 ^ shift"
      by (intro add_less_le_mono [OF 1(2)] mult_le_mono1)
    then have t: "unat temp' < 2 ^ (shift + 7)" by (simp add: ut power_add)
    have div128: "0 < n div 128" using False by (simp add: div_greater_zero_iff)
    obtain v where v: "readVarint_loop bits (shift + 7) temp' (varint_nat (n div 128) @ s) = Inr (v, s)"
      "unat v = unat temp' + n div 128 * 2 ^ (shift + 7)"
      using 1(1) [OF False t sh 1(4)] 1(5) div128 n ut by auto
    have split: "varint_nat n = b # varint_nat (n div 128)"
      using False by (subst varint_nat.simps) (simp only: b_def if_False)
    have "readVarint_loop bits shift temp (varint_nat n @ s) = Inr (v, s)"
      unfolding split append_Cons readVarint_loop.simps Let_def p_def [symmetric] temp'_def [symmetric]
      using sh v(1) u by (simp add: and_80_zero)
    then show ?thesis using v(2) ut n by auto
  qed
qed

lemma readVarint_write:
  assumes "0 < bits" "bits \<le> 64" "unat v < 2 ^ bits"
  shows "readVarint bits (writeVarint v @ s) = Inr (v, s)"
proof -
  obtain w where "readVarint bits (writeVarint v @ s) = Inr (w, s)" "unat w = unat v"
    using readVarint_loop_write [of 0 0 bits "unat v" s] assms
    by (auto simp: readVarint_def writeVarint_nat)
  then show ?thesis by (simp add: word_unat_eq_iff)
qed

text \<open>What a successful read of a varint says about its input.\<close>

lemma readVarint_loop_canonical:
  assumes "readVarint_loop bits shift temp s = Inr (v, r)" "unat temp < 2 ^ shift" "shift < bits" "bits \<le> 64"
  shows "\<exists>n. s = varint_nat n @ r \<and> unat v = unat temp + n * 2 ^ shift
    \<and> unat v < 2 ^ bits \<and> (n \<noteq> 0 \<or> shift = 0)"
  using assms
proof (induction bits shift temp s rule: readVarint_loop.induct)
  case (2 bits shift temp piece s)
  have pow: "(2::nat) ^ bits \<le> 18446744073709551616"
    using power_increasing [OF 2(5), of "2::nat"] by simp
  define p where "p = piece AND 0x7F"
  have up: "unat p = unat piece mod 128" by (simp add: p_def unat_and_7f)
  define temp' where "temp' = temp OR push_bit shift (ucast p)"
  have no: "\<not> (bits - 7 \<le> shift \<and> 2 ^ (bits - shift) \<le> unat piece)"
    using 2(2) by (auto split: if_splits)
  have fit: "unat temp + unat p * 2 ^ shift < 2 ^ bits"
  proof -
    have "unat p < 2 ^ (bits - shift)"
    proof (cases "bits - 7 \<le> shift")
      case True
      then show ?thesis using no up by (auto intro: order_le_less_trans [OF mod_less_eq_dividend])
    next
      case False
      then have "(128::nat) \<le> 2 ^ (bits - shift)"
        using power_increasing [of 7 "bits - shift" "2::nat"] by simp
      moreover have "unat p < 128" by (simp add: up)
      ultimately show ?thesis by linarith
    qed
    then have "(unat p + 1) * 2 ^ shift \<le> 2 ^ (bits - shift) * 2 ^ shift"
      by (intro mult_le_mono1) simp
    also have "\<dots> = 2 ^ bits" using 2(4) by (simp flip: power_add)
    finally show ?thesis using 2(3) by (simp add: add_mult_distrib)
  qed
  then have ut: "unat temp' = unat temp + unat p * 2 ^ shift"
    unfolding temp'_def using or_piece [OF 2(3)] pow by simp
  show ?case
  proof (cases "unat piece < 128")
    case True
    then have "v = temp'" "s = r" "\<not> (piece = 0 \<and> shift \<noteq> 0)"
      using 2(2) no by (auto simp: Let_def and_80_zero p_def temp'_def split: if_splits)
    moreover have "varint_nat (unat piece) = [piece]"
      using True by (subst varint_nat.simps) simp
    moreover have "unat p = unat piece" using True up by simp
    ultimately show ?thesis
      using ut fit by (intro exI [of _ "unat piece"]) (auto simp: unat_eq_zero)
  next
    case False
    have sh: "shift + 7 < bits"
    proof (rule ccontr)
      assume a: "\<not> shift + 7 < bits"
      then have "(2::nat) ^ (bits - shift) \<le> 2 ^ 7" by (intro power_increasing) simp_all
      then show False using no a False by simp
    qed
    have "unat p \<le> 127" using up mod_less_divisor [of 128 "unat piece"] by linarith
    then have "unat temp + unat p * 2 ^ shift < 2 ^ shift + 127 * 2 ^ shift"
      by (intro add_less_le_mono [OF 2(3)] mult_le_mono1)
    then have t: "unat temp' < 2 ^ (shift + 7)" by (simp add: ut power_add)
    have "readVarint_loop bits (shift + 7) temp' s = Inr (v, r)"
      using 2(2) no False by (simp add: Let_def and_80_zero p_def temp'_def split: if_splits)
    then obtain n where n: "s = varint_nat n @ r" "unat v = unat temp' + n * 2 ^ (shift + 7)"
      "unat v < 2 ^ bits" "n \<noteq> 0"
      using 2(1) [OF no refl] False t sh 2(5)
      by (auto simp: Let_def and_80_zero p_def temp'_def)
    have u: "unat piece = unat p + 128"
      using False up unat_lt8 [of piece] by (simp add: le_mod_geq)
    have "varint_nat (unat p + n * 128) = piece # varint_nat n"
    proof -
      have "(of_nat (unat p + 128) :: u8) = piece" by (simp flip: u)
      then show ?thesis using n(4) \<open>unat p \<le> 127\<close> by (subst varint_nat.simps) simp
    qed
    then show ?thesis
      using n ut by (intro exI [of _ "unat p + n * 128"]) (simp add: algebra_simps power_add)
  qed
qed simp

lemma readVarint_canonical:
  assumes "readVarint bits s = Inr (v, r)" "0 < bits" "bits \<le> 64"
  shows "s = writeVarint v @ r" "unat v < 2 ^ bits"
proof -
  obtain n where "s = varint_nat n @ r" "unat v = n" "unat v < 2 ^ bits"
    using readVarint_loop_canonical [of bits 0 0 s v r] assms by (auto simp: readVarint_def)
  then show "s = writeVarint v @ r" "unat v < 2 ^ bits" by (simp_all only: writeVarint_nat)
qed

section \<open>The interface of a serializable type\<close>

text \<open>
  The stream operators of one type: what \<open>wr\<close> appends, \<open>rd\<close> reads back, for every value \<open>ok\<close> admits.
\<close>

locale codec =
  fixes wr :: "'a \<Rightarrow> bytes" and rd :: "'a reader" and ok :: "'a \<Rightarrow> bool"
  assumes read_write: "ok x \<Longrightarrow> rd (wr x @ s) = Inr (x, s)"
begin

lemma prefix_free:
  assumes "ok x" "ok y" "wr x @ s = wr y @ t"
  shows "x = y \<and> s = t"
proof -
  have "Inr (x, s) = (Inr (y, t) :: exn + 'a \<times> bytes)"
    unfolding read_write [OF assms(1), symmetric] read_write [OF assms(2), symmetric] assms(3) ..
  then show ?thesis by simp
qed

lemma wr_inject: "ok x \<Longrightarrow> ok y \<Longrightarrow> wr x = wr y \<Longrightarrow> x = y"
  using prefix_free [of x y "[]" "[]"] by simp

lemma read_write_end: "ok x \<Longrightarrow> rd (wr x) = Inr (x, [])"
  using read_write [of x "[]"] by simp

end

text \<open>Where only the written form is accepted, every accepted input is the encoding of its value.\<close>

locale canonical_codec = codec +
  assumes write_read: "rd s = Inr (x, r) \<Longrightarrow> ok x \<and> s = wr x @ r"
begin

lemma accepts_iff: "rd s = Inr (x, r) \<longleftrightarrow> ok x \<and> s = wr x @ r"
proof
  assume "rd s = Inr (x, r)"
  then show "ok x \<and> s = wr x @ r" by (rule write_read)
next
  assume "ok x \<and> s = wr x @ r"
  then show "rd s = Inr (x, r)" using read_write [of x r] by simp
qed

end

section \<open>The stream operators\<close>

definition read_u64 :: "u64 reader" where
  "read_u64 = readVarint 64"

definition write_u64 :: "u64 \<Rightarrow> bytes" where
  "write_u64 v = writeVarint v"

definition read_u32 :: "u32 reader" where
  "read_u32 s = (case readVarint 32 s of Inl e \<Rightarrow> Inl e | Inr (v, s) \<Rightarrow> Inr (ucast v, s))"

definition write_u32 :: "u32 \<Rightarrow> bytes" where
  "write_u32 v = writeVarint (ucast v)"

definition read_u16 :: "u16 reader" where
  "read_u16 s = (case readVarint 16 s of Inl e \<Rightarrow> Inl e | Inr (v, s) \<Rightarrow> Inr (ucast v, s))"

definition write_u16 :: "u16 \<Rightarrow> bytes" where
  "write_u16 v = writeVarint (ucast v)"

definition read_u8 :: "u8 reader" where
  "read_u8 s = (case readVarint 8 s of Inl e \<Rightarrow> Inl e | Inr (v, s) \<Rightarrow> Inr (ucast v, s))"

definition write_u8 :: "u8 \<Rightarrow> bytes" where
  "write_u8 v = writeVarint (ucast v)"

text \<open>\<open>operator>>(Reader &, std::string &)\<close> and \<open>operator<<(Writer &, const std::string &)\<close>.\<close>

definition read_string :: "bytes reader" where
  "read_string s =
     (case read_u64 s of
        Inl e \<Rightarrow> Inl e
      | Inr (sz, s) \<Rightarrow> if 0 < sz then read_bytes (unat sz) s else Inr ([], s))"

definition write_string :: "bytes \<Rightarrow> bytes" where
  "write_string v = write_u64 (of_nat (length v)) @ v"

text \<open>The vector operators of \<open>stream/cryptonote.h\<close>: a size and then the elements.\<close>

fun read_n :: "'a reader \<Rightarrow> nat \<Rightarrow> 'a list reader" where
  "read_n rd 0 s = Inr ([], s)"
| "read_n rd (Suc n) s =
     (case rd s of
        Inl e \<Rightarrow> Inl e
      | Inr (x, s) \<Rightarrow> (case read_n rd n s of Inl e \<Rightarrow> Inl e | Inr (xs, s) \<Rightarrow> Inr (x # xs, s)))"

definition read_vector :: "'a reader \<Rightarrow> 'a list reader" where
  "read_vector rd s =
     (case read_u64 s of Inl e \<Rightarrow> Inl e | Inr (sz, s) \<Rightarrow> read_n rd (unat sz) s)"

definition write_vector :: "('a \<Rightarrow> bytes) \<Rightarrow> 'a list \<Rightarrow> bytes" where
  "write_vector wr v = write_u64 (of_nat (length v)) @ concat (map wr v)"

text \<open>\<open>std::pair\<close>.\<close>

definition read_pair :: "'a reader \<Rightarrow> 'b reader \<Rightarrow> ('a \<times> 'b) reader" where
  "read_pair rd1 rd2 s =
     (case rd1 s of
        Inl e \<Rightarrow> Inl e
      | Inr (a, s) \<Rightarrow> (case rd2 s of Inl e \<Rightarrow> Inl e | Inr (b, s) \<Rightarrow> Inr ((a, b), s)))"

definition write_pair :: "('a \<Rightarrow> bytes) \<Rightarrow> ('b \<Rightarrow> bytes) \<Rightarrow> 'a \<times> 'b \<Rightarrow> bytes" where
  "write_pair wr1 wr2 v = wr1 (fst v) @ wr2 (snd v)"

text \<open>
  \<open>readSet\<close> and \<open>readMap\<close> insert into the container they are given, and an insertion of a key that
  is present leaves the container as it is. The writers walk the container in its iteration order,
  which the model takes as a list.
\<close>

fun readSet_loop :: "'a reader \<Rightarrow> nat \<Rightarrow> 'a set \<Rightarrow> 'a set reader" where
  "readSet_loop rd 0 v s = Inr (v, s)"
| "readSet_loop rd (Suc n) v s =
     (case rd s of Inl e \<Rightarrow> Inl e | Inr (k, s) \<Rightarrow> readSet_loop rd n (insert k v) s)"

definition readSet :: "'a reader \<Rightarrow> 'a set \<Rightarrow> 'a set reader" where
  "readSet rd v s =
     (case read_u64 s of Inl e \<Rightarrow> Inl e | Inr (sz, s) \<Rightarrow> readSet_loop rd (unat sz) v s)"

definition writeSet :: "('a \<Rightarrow> bytes) \<Rightarrow> 'a list \<Rightarrow> bytes" where
  "writeSet wr v = write_u64 (of_nat (length v)) @ concat (map wr v)"

definition map_insert :: "'k \<Rightarrow> 'v \<Rightarrow> ('k \<rightharpoonup> 'v) \<Rightarrow> ('k \<rightharpoonup> 'v)" where
  "map_insert k x m = (if m k = None then m(k \<mapsto> x) else m)"

fun readMap_loop :: "'k reader \<Rightarrow> 'v reader \<Rightarrow> nat \<Rightarrow> ('k \<rightharpoonup> 'v) \<Rightarrow> ('k \<rightharpoonup> 'v) reader" where
  "readMap_loop rdk rdv 0 v s = Inr (v, s)"
| "readMap_loop rdk rdv (Suc n) v s =
     (case read_pair rdk rdv s of
        Inl e \<Rightarrow> Inl e
      | Inr ((k, idx), s) \<Rightarrow> readMap_loop rdk rdv n (map_insert k idx v) s)"

definition readMap :: "'k reader \<Rightarrow> 'v reader \<Rightarrow> ('k \<rightharpoonup> 'v) \<Rightarrow> ('k \<rightharpoonup> 'v) reader" where
  "readMap rdk rdv v s =
     (case read_u64 s of Inl e \<Rightarrow> Inl e | Inr (sz, s) \<Rightarrow> readMap_loop rdk rdv (unat sz) v s)"

definition writeMap :: "('k \<Rightarrow> bytes) \<Rightarrow> ('v \<Rightarrow> bytes) \<Rightarrow> ('k \<times> 'v) list \<Rightarrow> bytes" where
  "writeMap wrk wrv v = write_u64 (of_nat (length v)) @ concat (map (write_pair wrk wrv) v)"

section \<open>The operators are codecs\<close>

interpretation u64: canonical_codec write_u64 read_u64 "\<lambda>_. True"
proof
  show "read_u64 (write_u64 x @ s) = Inr (x, s)" for x s
    unfolding read_u64_def write_u64_def by (rule readVarint_write) (simp_all add: unat_bounds)
  show "True \<and> s = write_u64 x @ r" if "read_u64 s = Inr (x, r)" for s x r
    using readVarint_canonical [of 64 s x r] that by (simp add: read_u64_def write_u64_def)
qed

lemma narrow_read_write:
  fixes x :: "'a::len word"
  assumes "LENGTH('a) \<le> 64"
  shows "readVarint LENGTH('a) (writeVarint (ucast x) @ s) = Inr (ucast x, s)"
proof (rule readVarint_write)
  show "unat (ucast x :: u64) < 2 ^ LENGTH('a)"
    using assms unat_lt_pow [of x] unat_ucast_up [where 'b = 64, of x] by simp
qed (simp_all add: assms)

lemma narrow_widen:
  fixes x :: "'a::len word"
  assumes "LENGTH('a) \<le> 64"
  shows "ucast (ucast x :: u64) = x"
proof -
  have u: "unat (ucast x :: u64) = unat x"
    using assms by (simp add: unat_ucast_up)
  show ?thesis
    using unat_lt_pow [of x] by (simp only: word_unat_eq_iff unat_ucast_mod [of "ucast x :: u64"] u mod_less)
qed

lemma narrow_write_read:
  assumes "readVarint LENGTH('a::len) s = Inr (v, r)" "LENGTH('a) \<le> 64"
  shows "s = writeVarint (ucast (ucast v :: 'a word)) @ r"
proof -
  have "unat v < 2 ^ LENGTH('a)" and s: "s = writeVarint v @ r"
    using readVarint_canonical [OF assms(1)] assms(2) by simp_all
  then have "(ucast (ucast v :: 'a word) :: u64) = v"
    using assms(2) by (simp add: word_unat_eq_iff unat_ucast_up unat_ucast_mod [of v])
  then show ?thesis using s by simp
qed

interpretation u32: canonical_codec write_u32 read_u32 "\<lambda>_. True"
proof
  show "read_u32 (write_u32 x @ s) = Inr (x, s)" for x s
    using narrow_read_write [of x s] narrow_widen [of x] by (simp add: read_u32_def write_u32_def)
  show "True \<and> s = write_u32 x @ r" if a: "read_u32 s = Inr (x, r)" for s x r
  proof -
    obtain v where v: "readVarint LENGTH(32) s = Inr (v, r)" "x = ucast v"
      using a by (auto simp: read_u32_def split: sum.splits prod.splits)
    from narrow_write_read [OF v(1)] show ?thesis by (simp add: write_u32_def v(2))
  qed
qed

interpretation u16: canonical_codec write_u16 read_u16 "\<lambda>_. True"
proof
  show "read_u16 (write_u16 x @ s) = Inr (x, s)" for x s
    using narrow_read_write [of x s] narrow_widen [of x] by (simp add: read_u16_def write_u16_def)
  show "True \<and> s = write_u16 x @ r" if a: "read_u16 s = Inr (x, r)" for s x r
  proof -
    obtain v where v: "readVarint LENGTH(16) s = Inr (v, r)" "x = ucast v"
      using a by (auto simp: read_u16_def split: sum.splits prod.splits)
    from narrow_write_read [OF v(1)] show ?thesis by (simp add: write_u16_def v(2))
  qed
qed

interpretation u8: canonical_codec write_u8 read_u8 "\<lambda>_. True"
proof
  show "read_u8 (write_u8 x @ s) = Inr (x, s)" for x s
    using narrow_read_write [of x s] narrow_widen [of x] by (simp add: read_u8_def write_u8_def)
  show "True \<and> s = write_u8 x @ r" if a: "read_u8 s = Inr (x, r)" for s x r
  proof -
    obtain v where v: "readVarint LENGTH(8) s = Inr (v, r)" "x = ucast v"
      using a by (auto simp: read_u8_def split: sum.splits prod.splits)
    from narrow_write_read [OF v(1)] show ?thesis by (simp add: write_u8_def v(2))
  qed
qed

lemmas u64_read_write [reader_simps] = u64.read_write [OF TrueI]
lemmas u32_read_write [reader_simps] = u32.read_write [OF TrueI]
lemmas u16_read_write [reader_simps] = u16.read_write [OF TrueI]
lemmas u8_read_write [reader_simps] = u8.read_write [OF TrueI]

lemma read_bytes_append [reader_simps]: "length b = n \<Longrightarrow> read_bytes n (b @ s) = Inr (b, s)"
  by (simp add: read_bytes_def)

lemma read_bytes_iff: "read_bytes n s = Inr (b, r) \<longleftrightarrow> length b = n \<and> s = b @ r"
proof
  assume "read_bytes n s = Inr (b, r)"
  then show "length b = n \<and> s = b @ r" by (auto simp: read_bytes_def split: if_splits)
qed (auto simp: read_bytes_append)

lemma unat_length [simp]: "n < 18446744073709551616 \<Longrightarrow> unat (of_nat n :: u64) = n"
  by (simp add: unat_of_nat_u64)

text \<open>The raw structures of \<open>stream/crypto.h\<close>: a key, a hash or a key image is its bytes.\<close>

definition write_pod :: "bytes \<Rightarrow> bytes" where
  "write_pod v = v"

definition read_pod :: "nat \<Rightarrow> bytes reader" where
  "read_pod n = read_bytes n"

interpretation pod32: canonical_codec write_pod "read_pod 32" "\<lambda>v. length v = 32"
  by unfold_locales (auto simp: write_pod_def read_pod_def read_bytes_iff)

interpretation pod64: canonical_codec write_pod "read_pod 64" "\<lambda>v. length v = 64"
  by unfold_locales (auto simp: write_pod_def read_pod_def read_bytes_iff)

interpretation str: canonical_codec write_string read_string "\<lambda>v. length v < 18446744073709551616"
proof
  show "read_string (write_string x @ s) = Inr (x, s)" if "length x < 18446744073709551616" for x s
  proof -
    have "0 < (of_nat (length x) :: u64) \<longleftrightarrow> x \<noteq> []"
      using that by (simp add: word_less_nat_alt)
    then show ?thesis using that
      by (auto simp: read_string_def write_string_def reader_simps)
  qed
  show "length x < 18446744073709551616 \<and> s = write_string x @ r" if a: "read_string s = Inr (x, r)" for s x r
  proof -
    obtain sz t where sz: "read_u64 s = Inr (sz, t)"
      and t: "(if 0 < sz then read_bytes (unat sz) t else Inr ([], t)) = Inr (x, r)"
      using a by (auto simp: read_string_def split: sum.splits prod.splits)
    have len: "length x = unat sz" and t: "t = x @ r"
      using t by (auto simp: read_bytes_iff word_gt_0 split: if_splits)
    have "s = write_u64 sz @ t" using u64.write_read [OF sz] by simp
    then show ?thesis using len t unat_lt64 [of sz] by (simp add: write_string_def)
  qed
qed

context codec
begin

lemma read_n_write:
  assumes "list_all ok xs"
  shows "read_n rd (length xs) (concat (map wr xs) @ s) = Inr (xs, s)"
  using assms by (induction xs) (simp_all add: read_write)

lemma read_vector_write:
  assumes "list_all ok xs" "length xs < 18446744073709551616"
  shows "read_vector rd (write_vector wr xs @ s) = Inr (xs, s)"
  using assms read_n_write by (simp add: read_vector_def write_vector_def reader_simps)

lemma vector_codec:
  "codec (write_vector wr) (read_vector rd) (\<lambda>xs. list_all ok xs \<and> length xs < 18446744073709551616)"
  by unfold_locales (simp add: read_vector_write)

lemma readSet_loop_write:
  assumes "list_all ok xs"
  shows "readSet_loop rd (length xs) v (concat (map wr xs) @ s) = Inr (v \<union> set xs, s)"
  using assms by (induction xs arbitrary: v) (simp_all add: read_write)

lemma readSet_write:
  assumes "list_all ok xs" "length xs < 18446744073709551616"
  shows "readSet rd {} (writeSet wr xs @ s) = Inr (set xs, s)"
  using assms readSet_loop_write by (simp add: readSet_def writeSet_def reader_simps)

end

context canonical_codec
begin

lemma read_n_canonical:
  "read_n rd n s = Inr (xs, r) \<Longrightarrow> length xs = n \<and> list_all ok xs \<and> s = concat (map wr xs) @ r"
proof (induction n arbitrary: s xs)
  case (Suc n)
  obtain x t ys where "rd s = Inr (x, t)" "read_n rd n t = Inr (ys, r)" "xs = x # ys"
    using Suc.prems by (auto split: sum.splits prod.splits)
  then show ?case using Suc.IH [of t ys] write_read [of s x t] by simp
qed simp

lemma vector_canonical_codec:
  "canonical_codec (write_vector wr) (read_vector rd)
     (\<lambda>xs. list_all ok xs \<and> length xs < 18446744073709551616)"
proof (intro canonical_codec.intro vector_codec canonical_codec_axioms.intro)
  fix s xs r
  assume "read_vector rd s = Inr (xs, r)"
  then obtain sz t where sz: "read_u64 s = Inr (sz, t)" and t: "read_n rd (unat sz) t = Inr (xs, r)"
    by (auto simp: read_vector_def split: sum.splits prod.splits)
  have "s = write_u64 sz @ t" using u64.write_read [OF sz] by simp
  then show "(list_all ok xs \<and> length xs < 18446744073709551616) \<and> s = write_vector wr xs @ r"
    using read_n_canonical [OF t] unat_lt64 [of sz] by (auto simp: write_vector_def)
qed

end

lemma pair_codec:
  assumes "codec wr1 rd1 ok1" "codec wr2 rd2 ok2"
  shows "codec (write_pair wr1 wr2) (read_pair rd1 rd2) (\<lambda>v. ok1 (fst v) \<and> ok2 (snd v))"
  using codec.read_write [OF assms(1)] codec.read_write [OF assms(2)]
  by unfold_locales (auto simp: write_pair_def read_pair_def)

lemma readMap_loop_write:
  assumes "codec wrk rdk okk" "codec wrv rdv okv"
    and "list_all (\<lambda>p. okk (fst p) \<and> okv (snd p)) kvs" "distinct (map fst kvs)"
    and "\<forall>k \<in> set (map fst kvs). m k = None"
  shows "readMap_loop rdk rdv (length kvs) m (concat (map (write_pair wrk wrv) kvs) @ s)
    = Inr (m ++ map_of kvs, s)"
  using assms(3-)
proof (induction kvs arbitrary: m)
  case (Cons p kvs)
  obtain k x where p: "p = (k, x)" by fastforce
  have rd: "read_pair rdk rdv (write_pair wrk wrv p @ t) = Inr (p, t)" for t
    using codec.read_write [OF pair_codec [OF assms(1,2)]] Cons.prems(1) by simp
  have none: "map_of kvs k = None" using Cons.prems(2) p by (simp add: map_of_eq_None_iff)
  have e: "m ++ map_of (p # kvs) = m(k \<mapsto> x) ++ map_of kvs"
    using none p by (auto simp: map_add_def fun_eq_iff split: option.splits)
  have none': "\<forall>l \<in> set (map fst kvs). (m(k \<mapsto> x)) l = None" "m k = None"
    using Cons.prems p by auto
  have "readMap_loop rdk rdv (length kvs) (map_insert k x m) (concat (map (write_pair wrk wrv) kvs) @ s)
      = Inr (m(k \<mapsto> x) ++ map_of kvs, s)"
    unfolding map_insert_def none'(2) if_P [OF refl]
    by (rule Cons.IH) (use Cons.prems none'(1) in simp_all)
  then show ?case unfolding e using rd p by simp
qed simp

lemma readMap_write:
  assumes "codec wrk rdk okk" "codec wrv rdv okv"
    and "list_all (\<lambda>p. okk (fst p) \<and> okv (snd p)) kvs" "distinct (map fst kvs)"
    and "length kvs < 18446744073709551616"
  shows "readMap rdk rdv Map.empty (writeMap wrk wrv kvs @ s) = Inr (map_of kvs, s)"
  using readMap_loop_write [OF assms(1-4), of Map.empty s] assms(5)
  by (simp add: readMap_def writeMap_def reader_simps)

lemma readHeight_write:
  assumes "unat h \<le> 4294967295"
  shows "readHeight (writeHeight h @ s) = Inr (h, s)"
proof -
  have "readVarint 64 (writeVarint h @ s) = Inr (h, s)"
    using u64_read_write by (simp add: read_u64_def write_u64_def)
  moreover have "h \<noteq> - 1" using assms by (auto simp: minus_one_u64)
  ultimately show ?thesis
    using assms by (simp add: readHeight_def writeHeight_def word_less_nat_alt)
qed

section \<open>Properties\<close>

text \<open>
  C24: \<open>readVarint\<close> of an unsigned type of at most 64 bits accepts exactly the bytes \<open>writeVarint\<close>
  writes for a value of that width, and leaves the rest of the stream: the encoding is canonical.
\<close>

theorem readVarint_exact:
  assumes "0 < bits" "bits \<le> 64"
  shows "readVarint bits s = Inr (v, r) \<longleftrightarrow> unat v < 2 ^ bits \<and> s = writeVarint v @ r"
proof
  assume "readVarint bits s = Inr (v, r)"
  from readVarint_canonical [OF this assms] show "unat v < 2 ^ bits \<and> s = writeVarint v @ r" by simp
next
  assume "unat v < 2 ^ bits \<and> s = writeVarint v @ r"
  then show "readVarint bits s = Inr (v, r)" using readVarint_write [OF assms] by simp
qed

theorem readVarint_exact_witness:
  "readVarint 32 (0xAC # 2 # [7]) = Inr (300, [7])"
proof -
  have "writeVarint 300 = [0xAC, 2]"
    by (simp add: writeVarint_nat varint_nat.simps)
  then show ?thesis using readVarint_exact [of 32 "0xAC # 2 # [7]" 300 "[7]"] by simp
qed

text \<open>The operators write a negative \<open>int32_t\<close> as a 64-bit value that their own reader refuses.\<close>

lemma negative_int32_not_read: "readVarint 32 (writeVarint (- 1)) = Inl VarintOverflow"
  by (simp add: writeVarint_nat varint_nat.simps readVarint_def Let_def minus_one_u64 [THEN iffD1, OF refl])

end
