(* ===== verification/Base58.thy ===== *)
theory Base58
  imports IntUtil Stream Keccak
begin

text \<open>
  \<open>src/common/base58.cpp\<close> and the varint helpers of \<open>src/common/binary.h\<close> it uses: block-wise
  base-58 text and addresses with a tag and a checksum. A \<open>std::string\<close> that holds raw data is a
  list of bytes; a string that holds base-58 text is a list of characters.
\<close>

section \<open>Varints of binary.h\<close>

function fromVarint :: "u64 \<Rightarrow> bytes" where
  "fromVarint v =
     (if 0x80 \<le> v then ((ucast v AND 0x7F) OR 0x80) # fromVarint (drop_bit 7 v) else [ucast v])"
  by pat_completeness auto

termination fromVarint
proof (relation "measure unat", simp_all del: drop_bit_eq_div)
  fix v :: u64
  assume "0x80 \<le> v"
  then have "128 \<le> unat v" by (simp add: word_le_nat_alt)
  then show "unat (drop_bit 7 v) < unat v" by (simp add: unat_drop_bit del: drop_bit_eq_div)
qed

text \<open>
  \<open>toVarint\<close> returns the number of bytes read, -1 for an overflow and -2 for a non-canonical form,
  with the value in \<open>i\<close>. The end of the input ends the loop without an error.
\<close>

fun toVarint_loop :: "nat \<Rightarrow> nat \<Rightarrow> int \<Rightarrow> u64 \<Rightarrow> bytes \<Rightarrow> int \<times> u64" where
  "toVarint_loop bits shift read i [] = (read, i)"
| "toVarint_loop bits shift read i (byte # s) =
     (let read = read + 1
      in if bits \<le> shift + 7 \<and> 2 ^ (bits - shift) \<le> unat byte then (- 1, i)
      else if byte = 0 \<and> shift \<noteq> 0 then (- 2, i)
      else
        let i = i OR push_bit shift (ucast (byte AND 0x7F))
        in if byte AND 0x80 = 0 then (read, i) else toVarint_loop bits (shift + 7) read i s)"

definition toVarint :: "nat \<Rightarrow> bytes \<Rightarrow> int \<times> u64" where
  "toVarint bits str = toVarint_loop bits 0 0 0 str"

section \<open>Definitions of base58.cpp\<close>

definition alphabet :: string where
  "alphabet = ''123456789ABCDEFGHJKLMNPQRSTUVWXYZabcdefghijkmnopqrstuvwxyz''"

definition alphabet_size :: nat where
  "alphabet_size = 58"

definition encoded_block_sizes :: "nat list" where
  "encoded_block_sizes = [0, 2, 3, 5, 6, 7, 9, 10, 11]"

definition full_block_size :: nat where
  "full_block_size = 8"

definition full_encoded_block_size :: nat where
  "full_encoded_block_size = 11"

definition addr_checksum_size :: nat where
  "addr_checksum_size = 4"

text \<open>The table the constructor of \<open>reverse_alphabet\<close> fills.\<close>

definition reverse_alphabet_data :: "int list" where
  "reverse_alphabet_data =
     fold (\<lambda>i m. m[of_char (alphabet ! i) - of_char (alphabet ! 0) := int i]) [0..<alphabet_size]
       (replicate (of_char (alphabet ! (alphabet_size - 1)) - of_char (alphabet ! 0) + 1) (- 1))"

definition reverse_alphabet :: "char \<Rightarrow> int" where
  "reverse_alphabet letter =
     (let idx = of_char letter - of_char (alphabet ! 0) :: int
      in if 0 \<le> idx \<and> nat idx < length reverse_alphabet_data then reverse_alphabet_data ! nat idx else - 1)"

text \<open>The table of \<open>decoded_block_sizes\<close>.\<close>

definition decoded_block_sizes_data :: "int list" where
  "decoded_block_sizes_data =
     fold (\<lambda>i m. m[encoded_block_sizes ! i := int i]) [0..<full_block_size + 1]
       (replicate (encoded_block_sizes ! full_block_size + 1) (- 1))"

definition decoded_block_sizes :: "nat \<Rightarrow> int" where
  "decoded_block_sizes encoded_block_size = decoded_block_sizes_data ! encoded_block_size"

definition uint_8be_to_64 :: "bytes \<Rightarrow> u64" where
  "uint_8be_to_64 data = foldl (\<lambda>res b. push_bit 8 res OR ucast b) 0 data"

definition uint_64_to_8be :: "u64 \<Rightarrow> nat \<Rightarrow> bytes" where
  "uint_64_to_8be num sz = drop (8 - sz) (rev (nat_le 8 (unat num)))"

text \<open>
  The loop of \<open>encode_block\<close>; \<open>res\<close> is the slice of the result it writes to. A write before the
  slice would be \<open>OutOfRange\<close>.
\<close>

function encode_block_loop :: "u64 \<Rightarrow> int \<Rightarrow> string \<Rightarrow> exn + string" where
  "encode_block_loop num i res =
     (if 0 < num
      then if i < 0 then Inl OutOfRange
           else encode_block_loop (num div of_nat alphabet_size) (i - 1)
                  (res[nat i := alphabet ! unat (num mod of_nat alphabet_size)])
      else Inr res)"
  by pat_completeness auto

termination encode_block_loop
proof (relation "measure (\<lambda>(num, i, res). unat num)")
  fix num :: u64
  assume "0 < num"
  then have "unat num div 58 < unat num" by (simp add: word_less_nat_alt)
  then show "((num div of_nat alphabet_size, i - 1, res[nat i := alphabet ! unat (num mod of_nat alphabet_size)]),
    num, i, res) \<in> measure (\<lambda>(num, i, res). unat num)" for i res
    by (simp add: alphabet_size_def unat_div)
qed simp

definition encode_block :: "bytes \<Rightarrow> string \<Rightarrow> exn + string" where
  "encode_block block res =
     (if \<not> (1 \<le> length block \<and> length block \<le> full_block_size) then Inl AssertFailed
      else encode_block_loop (uint_8be_to_64 block) (int (encoded_block_sizes ! length block) - 1) res)"

text \<open>The loop of \<open>decode_block\<close> goes from the last letter to the first; its input is the reversed block.\<close>

fun decode_block_loop :: "string \<Rightarrow> u64 \<Rightarrow> u64 \<Rightarrow> u64 option" where
  "decode_block_loop [] res_num order = Some res_num"
| "decode_block_loop (letter # block) res_num order =
     (let digit = reverse_alphabet letter
      in if digit < 0 then None
      else
        let (lo, product_hi) = mul128 order (of_int digit);
            tmp = res_num + lo
        in if tmp < res_num \<or> 0 \<noteq> product_hi then None
           else decode_block_loop block tmp (order * of_nat alphabet_size))"

definition decode_block :: "string \<Rightarrow> bytes option" where
  "decode_block block =
     (let res_size = decoded_block_sizes (length block)
      in if res_size \<le> 0 then None
      else
        case decode_block_loop (rev block) 0 1 of
          None \<Rightarrow> None
        | Some res_num \<Rightarrow>
            if nat res_size < full_block_size \<and> push_bit (8 * nat res_size) 1 \<le> res_num then None
            else Some (uint_64_to_8be res_num (nat res_size)))"

text \<open>
  \<open>encode\<close> fills the slices of a string of \<open>alphabet[0]\<close> one block after the other, \<open>decode\<close> the
  slices of the data.
\<close>

definition blank :: "nat \<Rightarrow> string" where
  "blank n = replicate n (alphabet ! 0)"

fun encode_blocks :: "bytes list \<Rightarrow> exn + string" where
  "encode_blocks [] = Inr []"
| "encode_blocks (b # bs) =
     (case encode_block b (blank (encoded_block_sizes ! length b)) of
        Inl e \<Rightarrow> Inl e
      | Inr r \<Rightarrow> (case encode_blocks bs of Inl e \<Rightarrow> Inl e | Inr rs \<Rightarrow> Inr (r @ rs)))"

text \<open>The full blocks and, if it is not empty, the last one.\<close>

definition blocks :: "nat \<Rightarrow> 'a list \<Rightarrow> 'a list list" where
  "blocks n xs =
     map (\<lambda>i. take n (drop (i * n) xs)) [0..<length xs div n]
     @ (if 0 < length xs mod n then [drop (length xs div n * n) xs] else [])"

definition encode :: "bytes \<Rightarrow> exn + string" where
  "encode data = (if data = [] then Inr [] else encode_blocks (blocks full_block_size data))"

fun decode_blocks :: "string list \<Rightarrow> bytes option" where
  "decode_blocks [] = Some []"
| "decode_blocks (b # bs) =
     (case decode_block b of
        None \<Rightarrow> None
      | Some d \<Rightarrow> (case decode_blocks bs of None \<Rightarrow> None | Some ds \<Rightarrow> Some (d @ ds)))"

definition decode :: "string \<Rightarrow> bytes option" where
  "decode enc =
     (if enc = [] then Some []
      else if decoded_block_sizes (length enc mod full_encoded_block_size) < 0 then None
      else decode_blocks (blocks full_encoded_block_size enc))"

definition encode_addr :: "u64 \<Rightarrow> bytes \<Rightarrow> exn + string" where
  "encode_addr tag data =
     (let buf = fromVarint tag @ data;
          buf = buf @ take addr_checksum_size (cn_fast_hash buf)
      in encode buf)"

definition decode_addr :: "string \<Rightarrow> (u64 \<times> bytes) option" where
  "decode_addr addr =
     (case decode addr of
        None \<Rightarrow> None
      | Some addr_data \<Rightarrow>
          if length addr_data \<le> addr_checksum_size then None
          else
            let checksum = drop (length addr_data - addr_checksum_size) addr_data;
                addr_data = take (length addr_data - addr_checksum_size) addr_data
            in if take addr_checksum_size (cn_fast_hash addr_data) \<noteq> checksum then None
            else
              let (read, tag) = toVarint 64 addr_data
              in if read \<le> 0 then None else Some (tag, drop (nat read) addr_data))"

section \<open>The tables\<close>

declare fromVarint.simps [simp del] encode_block_loop.simps [simp del]

lemma reverse_alphabet_table:
  "reverse_alphabet_data =
    [0, 1, 2, 3, 4, 5, 6, 7, 8, - 1, - 1, - 1, - 1, - 1, - 1, - 1,
     9, 10, 11, 12, 13, 14, 15, 16, - 1, 17, 18, 19, 20, 21, - 1, 22, 23, 24, 25, 26, 27, 28, 29, 30, 31, 32,
     - 1, - 1, - 1, - 1, - 1, - 1,
     33, 34, 35, 36, 37, 38, 39, 40, 41, 42, 43, - 1, 44, 45, 46, 47, 48, 49, 50, 51, 52, 53, 54, 55, 56, 57]"
  by code_simp

lemma decoded_block_sizes_table:
  "decoded_block_sizes_data = [0, - 1, 1, 2, - 1, 3, 4, 5, - 1, 6, 7, 8]"
  by code_simp

lemma alphabet_codes:
  "map of_char alphabet =
    [49, 50, 51, 52, 53, 54, 55, 56, 57, 65, 66, 67, 68, 69, 70, 71, 72, 74, 75, 76, 77, 78, 80, 81, 82, 83, 84,
     85, 86, 87, 88, 89, 90, 97, 98, 99, 100, 101, 102, 103, 104, 105, 106, 107, 109, 110, 111, 112, 113, 114,
     115, 116, 117, 118, 119, 120, 121, 122 :: int]"
  by code_simp

lemma length_alphabet: "length alphabet = 58"
  by code_simp

lemma of_char_alphabet: "i < 58 \<Longrightarrow> of_char (alphabet ! i) = (map of_char alphabet :: int list) ! i"
  by (simp add: length_alphabet)

lemma table_inverse:
  "list_all (\<lambda>i. 0 \<le> (map of_char alphabet ! i - 49 :: int) \<and> nat (map of_char alphabet ! i - 49 :: int) < 74
      \<and> reverse_alphabet_data ! nat (map of_char alphabet ! i - 49 :: int) = int i) [0..<58]"
  unfolding alphabet_codes reverse_alphabet_table by code_simp

lemma reverse_alphabet_letter:
  assumes "i < 58"
  shows "reverse_alphabet (alphabet ! i) = int i"
proof -
  have z: "of_char (alphabet ! 0) = (49 :: int)" by code_simp
  have l: "length reverse_alphabet_data = 74" by (simp add: reverse_alphabet_table)
  show ?thesis
    using table_inverse assms
    by (simp add: list_all_iff reverse_alphabet_def z l of_char_alphabet)
qed

lemma table_letters:
  "list_all (\<lambda>k. reverse_alphabet_data ! k < 0 \<or> reverse_alphabet_data ! k < 58
      \<and> map of_char alphabet ! nat (reverse_alphabet_data ! k) = (int k + 49)) [0..<74]"
  unfolding alphabet_codes reverse_alphabet_table by code_simp

lemma reverse_alphabet_digit:
  assumes "0 \<le> reverse_alphabet c"
  shows "nat (reverse_alphabet c) < 58" "alphabet ! nat (reverse_alphabet c) = c"
proof -
  have z: "of_char (alphabet ! 0) = (49 :: int)" by code_simp
  have l: "length reverse_alphabet_data = 74" by (simp add: reverse_alphabet_table)
  define k where "k = nat (of_char c - 49 :: int)"
  have k: "k < 74" "reverse_alphabet c = reverse_alphabet_data ! k" "int k = of_char c - 49"
    using assms by (auto simp: reverse_alphabet_def Let_def z l k_def split: if_splits)
  have "reverse_alphabet_data ! k < 0 \<or> reverse_alphabet_data ! k < 58
      \<and> map of_char alphabet ! nat (reverse_alphabet_data ! k) = (int k + 49)"
    using table_letters k(1) by (simp only: list_all_iff) simp
  then have *: "reverse_alphabet_data ! k < 58"
    "map of_char alphabet ! nat (reverse_alphabet_data ! k) = (of_char c :: int)"
    using assms k by simp_all
  show "nat (reverse_alphabet c) < 58" using k *(1) assms by simp
  then show "alphabet ! nat (reverse_alphabet c) = c"
    using k *(2) of_char_alphabet [of "nat (reverse_alphabet c)"] by simp
qed

section \<open>Base 58 digits\<close>

fun digits58 :: "nat \<Rightarrow> nat \<Rightarrow> nat list" where
  "digits58 0 n = []"
| "digits58 (Suc k) n = digits58 k (n div 58) @ [n mod 58]"

fun value58 :: "nat list \<Rightarrow> nat" where
  "value58 [] = 0"
| "value58 (d # ds) = d + 58 * value58 ds"

lemma length_digits58 [simp]: "length (digits58 k n) = k"
  by (induction k arbitrary: n) simp_all

lemma digits58_zero: "digits58 k 0 = replicate k 0"
  by (induction k) (simp_all add: replicate_append_same)

lemma digits58_less: "d \<in> set (digits58 k n) \<Longrightarrow> d < 58"
  by (induction k arbitrary: n) auto

lemma value58_digits58: "n < 58 ^ k \<Longrightarrow> value58 (rev (digits58 k n)) = n"
  by (induction k arbitrary: n) (simp_all add: less_mult_imp_div_less mult.commute)

lemma digits58_value58:
  "list_all (\<lambda>d. d < 58) ds \<Longrightarrow> rev (digits58 (length ds) (value58 ds)) = ds"
  by (induction ds) simp_all

lemma value58_less: "list_all (\<lambda>d. d < 58) ds \<Longrightarrow> value58 ds < 58 ^ length ds"
  by (induction ds) simp_all

definition letters :: "nat list \<Rightarrow> string" where
  "letters ds = map (\<lambda>d. alphabet ! d) ds"

lemma encode_block_loop_digits:
  assumes "unat num < 58 ^ k" "k \<le> length res" "take k res = blank k"
  shows "encode_block_loop num (int k - 1) res = Inr (letters (digits58 k (unat num)) @ drop k res)"
  using assms
proof (induction k arbitrary: num res)
  case 0
  then have "num = 0" by (simp add: unat_eq_zero)
  then show ?case by (simp add: encode_block_loop.simps letters_def)
next
  case (Suc k)
  show ?case
  proof (cases "num = 0")
    case True
    have "letters (digits58 (Suc k) 0) = blank (Suc k)"
      unfolding digits58_zero by (simp add: letters_def blank_def)
    then show ?thesis using True Suc.prems by (simp add: encode_block_loop.simps) (metis append_take_drop_id)
  next
    case False
    define q where "q = num div 58"
    define res' where "res' = res[k := alphabet ! (unat num mod 58)]"
    have u: "unat q = unat num div 58" "unat (num mod 58) = unat num mod 58"
      by (simp_all add: q_def unat_div unat_mod)
    have "encode_block_loop q (int k - 1) res' = Inr (letters (digits58 k (unat q)) @ drop k res')"
    proof (rule Suc.IH)
      show "unat q < 58 ^ k" using Suc.prems(1) by (simp add: u less_mult_imp_div_less mult.commute)
      show "k \<le> length res'" using Suc.prems(2) by (simp add: res'_def)
      have "take k res = blank k"
        using arg_cong [OF Suc.prems(3), of "take k"] by (simp add: blank_def min_def take_replicate del: replicate_Suc)
      then show "take k res' = blank k" by (simp add: res'_def)
    qed
    moreover have "drop k res' = alphabet ! (unat num mod 58) # drop (Suc k) res"
      using Suc.prems(2) by (simp add: res'_def Cons_nth_drop_Suc [symmetric] drop_update_cancel)
    ultimately show ?thesis
      using False by (subst encode_block_loop.simps)
        (simp add: alphabet_size_def word_gt_0 q_def [symmetric] u res'_def [symmetric] letters_def)
  qed
qed

lemma pow58_less: "j \<le> 10 \<Longrightarrow> (58::nat) ^ j < 18446744073709551616"
  using power_increasing [of j 10 "58::nat"] by simp

lemma mult_less_fits:
  fixes a d v :: nat
  assumes "0 < a" "r + a * (d + 58 * v) < X"
  shows "r + a * d < X" "r + a * d + a * 58 * v < X"
  using assms by (simp_all add: algebra_simps)

text \<open>The overflow tests of \<open>decode_block\<close> are exact.\<close>

lemma decode_step:
  fixes res order :: u64 and d :: nat
  assumes "mul128 order (of_nat d) = (lo, hi)" "d < 58"
  shows "\<not> (res + lo < res \<or> 0 \<noteq> hi) \<longleftrightarrow> unat res + unat order * d < 18446744073709551616"
    and "unat res + unat order * d < 18446744073709551616 \<Longrightarrow> unat (res + lo) = unat res + unat order * d"
proof -
  have ud: "unat (of_nat d :: u64) = d" using assms(2) by (simp add: unat_of_nat_u64)
  have lo: "unat lo = unat order * d mod 18446744073709551616"
    and hi: "unat hi = unat order * d div 18446744073709551616"
    using mul128_lo [of order "of_nat d"] mul128_hi [of order "of_nat d"] assms(1) ud by simp_all
  have carry: "res + lo < res \<longleftrightarrow> 18446744073709551616 \<le> unat res + unat lo"
    using add_carry [of res lo] by (simp split: if_splits add: div_eq_0_iff not_le)
  show "\<not> (res + lo < res \<or> 0 \<noteq> hi) \<longleftrightarrow> unat res + unat order * d < 18446744073709551616"
  proof (cases "unat order * d < 18446744073709551616")
    case True
    then have "hi = 0" "unat lo = unat order * d" using hi lo by (simp_all add: unat_eq_zero)
    then show ?thesis using carry by auto
  next
    case False
    then have "unat hi \<noteq> 0" using hi by (simp add: div_eq_0_iff)
    then show ?thesis using False by (auto simp: unat_eq_zero)
  qed
  show "unat (res + lo) = unat res + unat order * d"
    if "unat res + unat order * d < 18446744073709551616"
    using that lo by (simp add: unat_word_ariths)
qed

lemma decode_block_loop_digits:
  assumes "list_all (\<lambda>d. d < 58) ds" "length ds + j \<le> 11" "ds \<noteq> [] \<Longrightarrow> unat order = 58 ^ j"
  shows "decode_block_loop (letters ds) res order =
    (if unat res + 58 ^ j * value58 ds < 18446744073709551616
     then Some (of_nat (unat res + 58 ^ j * value58 ds)) else None)"
  using assms
proof (induction ds arbitrary: j res order)
  case Nil
  then show ?case by (simp add: letters_def unat_lt64)
next
  case (Cons d ds)
  have d: "d < 58" and ds: "list_all (\<lambda>d. d < 58) ds" using Cons.prems(1) by simp_all
  have order: "unat order = 58 ^ j" using Cons.prems(3) by simp
  obtain lo hi where m: "mul128 order (of_nat d) = (lo, hi)" by fastforce
  note step = decode_step [OF m d, of res, unfolded order]
  have digit: "reverse_alphabet (alphabet ! d) = int d" using d by (rule reverse_alphabet_letter)
  have ord: "ds \<noteq> [] \<Longrightarrow> unat (order * 58) = 58 ^ Suc j"
  proof -
    assume "ds \<noteq> []"
    then have "Suc j \<le> 10" using Cons.prems(2) by (cases ds) auto
    then show ?thesis using pow58_less [of "Suc j"] by (simp add: unat_word_ariths order mult.commute)
  qed
  have unfold: "decode_block_loop (letters (d # ds)) res order =
      (if unat res + 58 ^ j * d < 18446744073709551616
       then decode_block_loop (letters ds) (res + lo) (order * 58) else None)"
  proof -
    have "(res + lo < res \<or> 0 \<noteq> hi) = (\<not> unat res + 58 ^ j * d < 18446744073709551616)"
      using step(1) by blast
    then show ?thesis
      by (simp only: letters_def list.map decode_block_loop.simps Let_def digit of_int_of_nat_eq m prod.case
          alphabet_size_def) simp
  qed
  show ?case
  proof (cases "unat res + 58 ^ j * d < 18446744073709551616")
    case True
    have "decode_block_loop (letters ds) (res + lo) (order * 58) =
        (if unat (res + lo) + 58 ^ Suc j * value58 ds < 18446744073709551616
         then Some (of_nat (unat (res + lo) + 58 ^ Suc j * value58 ds)) else None)"
      by (rule Cons.IH) (use ds ord Cons.prems(2) in simp_all)
    then show ?thesis using True step(2) unfold by (simp add: algebra_simps)
  next
    case False
    then have "\<not> unat res + 58 ^ j * (d + 58 * value58 ds) < 18446744073709551616"
      by (simp add: add_mult_distrib2)
    then show ?thesis using False unfold by simp
  qed
qed

section \<open>Blocks\<close>

lemma unat_uint_8be:
  "length data \<le> 8 \<Longrightarrow> unat (uint_8be_to_64 data) = le_nat (rev data)"
proof (induction data rule: rev_induct)
  case Nil
  then show ?case by (simp add: uint_8be_to_64_def)
next
  case (snoc b data)
  define res where "res = uint_8be_to_64 data"
  have res: "unat res = le_nat (rev data)" using snoc by (simp add: res_def)
  have "le_nat (rev data) < 256 ^ length data" using le_nat_less [of "rev data"] by simp
  also have "\<dots> \<le> 256 ^ 7" using snoc.prems by (intro power_increasing) simp_all
  finally have small: "unat res < 72057594037927936" by (simp add: res)
  have "uint_8be_to_64 (data @ [b]) = ucast b OR push_bit 8 res"
    by (simp add: uint_8be_to_64_def res_def or.commute)
  also have "\<dots> = ucast b + push_bit 8 res"
    by (rule or_eq_add_shift) (simp add: unat_bounds)
  finally have "unat (uint_8be_to_64 (data @ [b])) = unat b + 256 * unat res"
    using small unat_lt8 [of b]
    by (simp add: unat_word_ariths unat_push_bit mult.commute del: push_bit_eq_mult)
  then show ?case by (simp add: res)
qed

lemma take_nat_le: "take j (nat_le k n) = nat_le (min j k) n"
proof (induction k arbitrary: j n)
  case (Suc k)
  then show ?case by (cases j) simp_all
qed simp

lemma uint_64_to_8be_digits: "k \<le> 8 \<Longrightarrow> uint_64_to_8be num k = rev (nat_le k (unat num))"
  by (simp add: uint_64_to_8be_def drop_rev take_nat_le)

lemma block_size_cases:
  assumes "1 \<le> k" "k \<le> (8::nat)"
  obtains "k = 1" | "k = 2" | "k = 3" | "k = 4" | "k = 5" | "k = 6" | "k = 7" | "k = 8"
  using assms by linarith

lemma encoded_sizes:
  assumes "1 \<le> k" "k \<le> 8"
  shows "(256::nat) ^ k \<le> 58 ^ (encoded_block_sizes ! k)"
    and "decoded_block_sizes (encoded_block_sizes ! k) = int k"
    and "encoded_block_sizes ! k \<le> 11" and "2 \<le> encoded_block_sizes ! k"
    and "encoded_block_sizes ! k = 11 \<longleftrightarrow> k = 8"
  using assms
  by (cases rule: block_size_cases; simp add: encoded_block_sizes_def decoded_block_sizes_def
      decoded_block_sizes_table)+

lemma decoded_sizes:
  assumes "e \<le> 11" "0 < decoded_block_sizes e"
  shows "1 \<le> nat (decoded_block_sizes e)" "nat (decoded_block_sizes e) \<le> 8"
    "encoded_block_sizes ! nat (decoded_block_sizes e) = e"
proof -
  have "e = 0 \<or> e = 1 \<or> e = 2 \<or> e = 3 \<or> e = 4 \<or> e = 5 \<or> e = 6 \<or> e = 7 \<or> e = 8 \<or> e = 9 \<or> e = 10 \<or> e = 11"
    using assms(1) by presburger
  then have "decoded_block_sizes e \<le> 8 \<and> encoded_block_sizes ! nat (decoded_block_sizes e) = e"
    using assms(2)
    by (elim disjE) (simp_all add: encoded_block_sizes_def decoded_block_sizes_def decoded_block_sizes_table)
  then show "1 \<le> nat (decoded_block_sizes e)" "nat (decoded_block_sizes e) \<le> 8"
    "encoded_block_sizes ! nat (decoded_block_sizes e) = e"
    using assms(2) by (simp_all add: nat_le_iff)
qed

definition enc1 :: "bytes \<Rightarrow> exn + string" where
  "enc1 b = encode_block b (blank (encoded_block_sizes ! length b))"

lemma enc1_digits:
  assumes "1 \<le> length b" "length b \<le> 8"
  shows "enc1 b = Inr (letters (digits58 (encoded_block_sizes ! length b) (le_nat (rev b))))"
proof -
  have n: "unat (uint_8be_to_64 b) = le_nat (rev b)" using assms(2) by (rule unat_uint_8be)
  have "le_nat (rev b) < 58 ^ (encoded_block_sizes ! length b)"
    using le_nat_less [of "rev b"] encoded_sizes(1) [OF assms] by simp
  then show ?thesis
    using encode_block_loop_digits [of "uint_8be_to_64 b" "encoded_block_sizes ! length b"
        "blank (encoded_block_sizes ! length b)"] assms
    by (simp add: enc1_def encode_block_def full_block_size_def n blank_def)
qed

lemma enc1_bad: "enc1 b = Inr s \<Longrightarrow> 1 \<le> length b \<and> length b \<le> 8"
  by (auto simp: enc1_def encode_block_def full_block_size_def split: if_splits)

lemma length_enc1: "enc1 b = Inr s \<Longrightarrow> length s = encoded_block_sizes ! length b"
  using enc1_digits [of b] enc1_bad [of b s] by (auto simp: letters_def)

lemma letters_of_block:
  assumes "decode_block_loop s res order = Some v"
  shows "\<exists>ds. s = letters ds \<and> list_all (\<lambda>d. d < 58) ds"
  using assms
proof (induction s arbitrary: res order)
  case Nil
  then show ?case by (simp add: letters_def)
next
  case (Cons c s)
  have c: "0 \<le> reverse_alphabet c" using Cons.prems by (auto simp: Let_def split: if_splits)
  obtain res' order' where "decode_block_loop s res' order' = Some v"
    using Cons.prems by (auto simp: Let_def split: if_splits prod.splits)
  from Cons.IH [OF this] obtain ds where "s = letters ds" "list_all (\<lambda>d. d < 58) ds" by blast
  then have "c # s = letters (nat (reverse_alphabet c) # ds)"
    "list_all (\<lambda>d. d < 58) (nat (reverse_alphabet c) # ds)"
    using reverse_alphabet_digit [OF c] by (simp_all add: letters_def)
  then show ?case by blast
qed

text \<open>The value test at the end of \<open>decode_block\<close>, on naturals.\<close>

lemma block_fits:
  assumes "1 \<le> k" "k \<le> 8" "n < 18446744073709551616"
  shows "(k < 8 \<and> push_bit (8 * k) 1 \<le> (of_nat n :: u64)) \<longleftrightarrow> \<not> n < 256 ^ k"
proof (cases "k = 8")
  case True
  then show ?thesis using assms(3) by simp
next
  case False
  then have "k \<le> 7" using assms(2) by simp
  have "(2::nat) ^ (8 * k) = 256 ^ k" by (simp add: power_mult)
  moreover have "(256::nat) ^ k \<le> 256 ^ 7" using \<open>k \<le> 7\<close> by (intro power_increasing) simp_all
  ultimately have "unat (push_bit (8 * k) (1 :: u64)) = 256 ^ k"
    unfolding unat_push_bit by simp
  then show ?thesis using False \<open>k \<le> 7\<close> assms(3)
    by (simp add: word_le_nat_alt not_less del: push_bit_eq_mult)
qed

lemma decode_block_iff:
  assumes "length s \<le> 11"
  shows "decode_block s = Some b \<longleftrightarrow> enc1 b = Inr s"
proof
  assume e: "enc1 b = Inr s"
  then have len: "1 \<le> length b" "length b \<le> 8" using enc1_bad by blast+
  define k where "k = length b"
  define n where "n = le_nat (rev b)"
  have k: "1 \<le> k" "k \<le> 8" using len by (simp_all add: k_def)
  have n: "n < 256 ^ k" using le_nat_less [of "rev b"] by (simp add: n_def k_def)
  then have n64: "n < 18446744073709551616"
    using power_increasing [OF k(2), of "256::nat"] by simp
  have s: "s = letters (digits58 (encoded_block_sizes ! k) n)"
    using e enc1_digits [OF len] by (simp add: k_def n_def)
  have ls: "length s = encoded_block_sizes ! k" by (simp add: s letters_def)
  have rs: "rev s = letters (rev (digits58 (encoded_block_sizes ! k) n))" by (simp add: s letters_def rev_map)
  have "decode_block_loop (rev s) 0 1 = Some (of_nat n)"
    unfolding rs using encoded_sizes [OF k] n n64
    by (subst decode_block_loop_digits [where j = 0])
      (auto simp: list_all_iff digits58_less value58_digits58)
  then have "decode_block s = Some (uint_64_to_8be (of_nat n) k)"
    using block_fits [OF k n64] n encoded_sizes(2) [OF k] k
    by (simp add: decode_block_def ls full_block_size_def Let_def del: push_bit_eq_mult)
  also have "uint_64_to_8be (of_nat n) k = b"
    using k(2) n64 nat_le_le_nat [of "rev b"] by (simp add: uint_64_to_8be_digits k_def n_def)
  finally show "decode_block s = Some b" .
next
  assume d: "decode_block s = Some b"
  define k where "k = nat (decoded_block_sizes (length s))"
  have pos: "0 < decoded_block_sizes (length s)"
    using d by (auto simp: decode_block_def Let_def split: if_splits)
  note k = decoded_sizes [OF assms pos, folded k_def]
  obtain v where v: "decode_block_loop (rev s) 0 1 = Some v" "b = uint_64_to_8be v k"
    "\<not> (k < 8 \<and> push_bit (8 * k) 1 \<le> v)"
    using d by (auto simp: decode_block_def Let_def full_block_size_def k_def
        simp del: push_bit_eq_mult split: if_splits option.splits)
  obtain ds where ds: "rev s = letters ds" "list_all (\<lambda>d. d < 58) ds"
    using letters_of_block [OF v(1)] by blast
  have lds: "length ds = length s" using arg_cong [OF ds(1), of length] by (simp add: letters_def)
  define n where "n = value58 ds"
  have n: "n < 18446744073709551616" "v = of_nat n"
    using v(1) ds lds assms decode_block_loop_digits [OF ds(2), of 0 1 0]
    by (auto simp: n_def split: if_splits)
  then have fit: "n < 256 ^ k" using v(3) block_fits [OF k(1,2) n(1)] by blast
  have b: "b = rev (nat_le k n)" using v(2) n k(2) by (simp add: uint_64_to_8be_digits)
  have "le_nat (rev b) = n" using fit by (simp add: b le_nat_nat_le)
  moreover have "length b = k" by (simp add: b)
  ultimately have "enc1 b = Inr (letters (digits58 (length s) n))"
    using enc1_digits [of b] k by simp
  also have "letters (digits58 (length s) n) = s"
    using digits58_value58 [OF ds(2)] ds(1) lds
    by (metis letters_def n_def rev_map rev_rev_ident)
  finally show "enc1 b = Inr s" .
qed

section \<open>Whole strings\<close>

lemma blocks_step:
  assumes "0 < n"
  shows "blocks n xs =
    (if xs = [] then [] else if length xs < n then [xs] else take n xs # blocks n (drop n xs))"
proof (cases "xs = [] \<or> length xs < n")
  case True
  then show ?thesis using assms by (auto simp: blocks_def)
next
  case False
  have d: "length xs div n = Suc (length (drop n xs) div n)"
    using False assms by (simp add: le_div_geq)
  have m: "length xs mod n = length (drop n xs) mod n"
    using False assms by (simp add: le_mod_geq)
  have "map (\<lambda>i. take n (drop (i * n) xs)) [0..<length xs div n]
      = take n xs # map (\<lambda>i. take n (drop (i * n) (drop n xs))) [0..<length (drop n xs) div n]"
    unfolding d by (simp add: upt_conv_Cons map_Suc_upt [symmetric] comp_def add.commute del: upt_Suc)
  then show ?thesis using False unfolding blocks_def m by (simp add: d add.commute)
qed

lemma encode_blocks_step:
  "encode_blocks (blocks 8 data) =
     (if data = [] then Inr []
      else if length data < 8 then enc1 data
      else case enc1 (take 8 data) of
             Inl e \<Rightarrow> Inl e
           | Inr r \<Rightarrow> (case encode_blocks (blocks 8 (drop 8 data)) of Inl e \<Rightarrow> Inl e | Inr rs \<Rightarrow> Inr (r @ rs)))"
  by (subst blocks_step) (auto simp: enc1_def split: sum.splits)

lemma decode_blocks_step:
  "decode_blocks (blocks 11 enc) =
     (if enc = [] then Some []
      else if length enc < 11 then decode_block enc
      else case decode_block (take 11 enc) of
             None \<Rightarrow> None
           | Some d \<Rightarrow> (case decode_blocks (blocks 11 (drop 11 enc)) of None \<Rightarrow> None | Some ds \<Rightarrow> Some (d @ ds)))"
  by (subst blocks_step) (auto split: option.splits)

lemma decode_encoded_blocks:
  "encode_blocks (blocks 8 data) = Inr enc \<Longrightarrow> decode_blocks (blocks 11 enc) = Some data"
proof (induction "length data" arbitrary: data enc rule: less_induct)
  case less
  note E = less.prems [unfolded encode_blocks_step [of data]]
  consider (empty) "data = []" | (last) "data \<noteq> []" "length data < 8" | (full) "8 \<le> length data" by linarith
  then show ?case
  proof cases
    case empty
    then show ?thesis using E by (simp add: decode_blocks_step)
  next
    case last
    then have e: "enc1 data = Inr enc" using E by simp
    have "1 \<le> length data" using last by (cases data) auto
    then have "length enc < 11" "enc \<noteq> []"
      using length_enc1 [OF e] encoded_sizes [of "length data"] last by auto
    then show ?thesis using e by (simp add: decode_blocks_step decode_block_iff)
  next
    case full
    then obtain r rs where e: "enc1 (take 8 data) = Inr r"
      and rs: "encode_blocks (blocks 8 (drop 8 data)) = Inr rs" and enc: "enc = r @ rs"
      using E by (auto split: sum.splits if_splits)
    have "length r = 11" using length_enc1 [OF e] full encoded_sizes [of 8] by simp
    moreover have "decode_blocks (blocks 11 rs) = Some (drop 8 data)"
      using less.hyps [OF _ rs] full by simp
    moreover have "decode_block r = Some (take 8 data)"
      using e \<open>length r = 11\<close> by (simp add: decode_block_iff)
    ultimately show ?thesis by (subst decode_blocks_step) (auto simp: enc)
  qed
qed

lemma encode_decoded_blocks:
  "decode_blocks (blocks 11 enc) = Some data \<Longrightarrow>
   encode_blocks (blocks 8 data) = Inr enc \<and> 0 \<le> decoded_block_sizes (length enc mod 11)"
proof (induction "length enc" arbitrary: data enc rule: less_induct)
  case less
  note D = less.prems [unfolded decode_blocks_step [of enc]]
  consider (empty) "enc = []" | (last) "enc \<noteq> []" "length enc < 11" | (full) "11 \<le> length enc" by linarith
  then show ?case
  proof cases
    case empty
    then show ?thesis using D by (simp add: encode_blocks_step decoded_block_sizes_def decoded_block_sizes_table)
  next
    case last
    then have e: "enc1 data = Inr enc" using D by (simp add: decode_block_iff)
    have k: "1 \<le> length data" "length data \<le> 8" using enc1_bad [OF e] by simp_all
    have "length enc = encoded_block_sizes ! length data" by (rule length_enc1 [OF e])
    then show ?thesis
      using e encoded_sizes [OF k] last k by (auto simp: encode_blocks_step)
  next
    case full
    then obtain d ds where d: "decode_block (take 11 enc) = Some d"
      and ds: "decode_blocks (blocks 11 (drop 11 enc)) = Some ds" and data: "data = d @ ds"
      using D by (auto split: option.splits if_splits)
    have e: "enc1 d = Inr (take 11 enc)" using d by (simp add: decode_block_iff)
    have k: "1 \<le> length d" "length d \<le> 8" using enc1_bad [OF e] by simp_all
    have "length d = 8"
      using length_enc1 [OF e] full encoded_sizes(5) [OF k] by simp
    moreover note less.hyps [OF _ ds]
    ultimately show ?thesis
      using e full by (subst encode_blocks_step) (auto simp: data le_mod_geq)
  qed
qed

lemma encode_total: "\<exists>enc. encode data = Inr enc"
proof -
  have "\<exists>enc. encode_blocks (blocks 8 data) = Inr enc"
  proof (induction "length data" arbitrary: data rule: less_induct)
    case less
    consider (empty) "data = []" | (last) "data \<noteq> []" "length data < 8" | (full) "8 \<le> length data" by linarith
    then show ?case
    proof cases
      case empty
      then show ?thesis by (simp add: encode_blocks_step)
    next
      case last
      then show ?thesis using enc1_digits [of data] by (cases data) (auto simp: encode_blocks_step)
    next
      case full
      then show ?thesis
        using less [of "drop 8 data"] enc1_digits [of "take 8 data"]
        by (subst encode_blocks_step) auto
    qed
  qed
  then show ?thesis by (simp add: encode_def full_block_size_def)
qed

lemma encode_eq: "encode data = encode_blocks (blocks 8 data)"
  by (simp add: encode_def full_block_size_def blocks_def)

lemma decode_eq:
  "decode enc = (if decoded_block_sizes (length enc mod 11) < 0 then None else decode_blocks (blocks 11 enc))"
  by (simp add: decode_def full_encoded_block_size_def blocks_def decoded_block_sizes_def decoded_block_sizes_table)

lemma decode_iff: "decode enc = Some data \<longleftrightarrow> encode data = Inr enc"
proof
  assume "decode enc = Some data"
  then have "decode_blocks (blocks 11 enc) = Some data"
    by (simp add: decode_eq split: if_splits)
  then show "encode data = Inr enc" unfolding encode_eq using encode_decoded_blocks by blast
next
  assume "encode data = Inr enc"
  from decode_encoded_blocks [OF this [unfolded encode_eq]]
  have "decode_blocks (blocks 11 enc) = Some data" .
  moreover from encode_decoded_blocks [OF this] have "\<not> decoded_block_sizes (length enc mod 11) < 0" by simp
  ultimately show "decode enc = Some data" by (simp add: decode_eq)
qed

text \<open>
  C26: base-58 text is a faithful and canonical encoding: \<open>encode\<close> succeeds on every data, and \<open>decode\<close>
  returns some data for exactly the text \<open>encode\<close> writes for it.
\<close>

theorem base58_bijective:
  "(\<exists>enc. encode data = Inr enc) \<and> (\<forall>enc. decode enc = Some data \<longleftrightarrow> encode data = Inr enc)"
  using encode_total decode_iff by blast

section \<open>Addresses\<close>

lemma fromVarint_eq: "fromVarint v = writeVarint v"
proof (induction v rule: writeVarint.induct)
  case (1 v)
  have "unat ((ucast v AND 0x7F) OR 0x80 :: u8) = unat v mod 128 + 128"
  proof -
    have "unat (ucast v AND 0x7F :: u8) = unat v mod 128"
      by (simp add: unat_and_7f unat_ucast_mod mod_mod_cancel)
    moreover have "(ucast v AND 0x7F) OR 0x80 = (ucast v AND 0x7F) + (push_bit 7 1 :: u8)"
      using or_eq_add_shift [of "ucast v AND 0x7F :: u8" 7 1] calculation by simp
    ultimately show ?thesis by (simp add: unat_word_ariths)
  qed
  then have "((ucast v AND 0x7F) OR 0x80 :: u8) = ucast (v OR 0x80)"
    by (simp add: word_unat_eq_iff or_0x80)
  then show ?case using 1 by (simp add: fromVarint.simps [of v] writeVarint.simps [of v])
qed

lemma toVarint_loop_read:
  assumes "readVarint_loop bits shift temp s = Inr (v, r)" "7 \<le> bits"
  shows "toVarint_loop bits shift n temp s = (n + int (length s - length r), v) \<and> length r < length s"
  using assms
proof (induction bits shift temp s arbitrary: n rule: readVarint_loop.induct)
  case (2 bits shift temp piece s)
  have no: "\<not> (bits - 7 \<le> shift \<and> 2 ^ (bits - shift) \<le> unat piece)"
    using 2(2) by (auto split: if_splits)
  then have no': "\<not> (bits \<le> shift + 7 \<and> 2 ^ (bits - shift) \<le> unat piece)" by linarith
  show ?case
  proof (cases "piece AND 0x80 = 0")
    case True
    then show ?thesis using 2(2) no no' by (auto simp: Let_def split: if_splits)
  next
    case False
    then have "piece \<noteq> 0" by auto
    have "readVarint_loop bits (shift + 7) (temp OR push_bit shift (ucast (piece AND 0x7F))) s = Inr (v, r)"
      using 2(2) no False by (simp add: Let_def split: if_splits)
    then show ?thesis
      using 2(1) [OF no refl False _ 2(3), of "n + 1"] no' False \<open>piece \<noteq> 0\<close>
      by (auto simp: Let_def)
  qed
qed simp

lemma toVarint_fromVarint: "toVarint 64 (fromVarint tag @ data) = (int (length (fromVarint tag)), tag)"
proof -
  have "readVarint 64 (writeVarint tag @ data) = Inr (tag, data)"
    using u64_read_write by (simp add: read_u64_def write_u64_def)
  then show ?thesis
    using toVarint_loop_read [of 64 0 0 "writeVarint tag @ data" tag data 0]
    by (simp add: toVarint_def readVarint_def fromVarint_eq)
qed

lemma fromVarint_nonempty [simp]: "fromVarint tag \<noteq> []"
  by (subst fromVarint.simps) simp

lemma decode_addr_checksummed:
  assumes "encode (buf @ take 4 (cn_fast_hash buf)) = Inr addr" "buf \<noteq> []"
  shows "decode_addr addr = (case toVarint 64 buf of (read, tag) \<Rightarrow>
    if read \<le> 0 then None else Some (tag, drop (nat read) buf))"
proof -
  have "decode addr = Some (buf @ take 4 (cn_fast_hash buf))" using assms(1) by (simp add: decode_iff)
  then show ?thesis using assms(2) by (simp add: decode_addr_def addr_checksum_size_def)
qed

text \<open>
  An address made from a tag and data always exists, and decoding it gives back the tag and the
  data.
\<close>

lemma address_roundtrip:
  "\<exists>addr. encode_addr tag data = Inr addr \<and> decode_addr addr = Some (tag, data)"
proof -
  obtain addr where "encode_addr tag data = Inr addr"
    using encode_total by (metis encode_addr_def)
  moreover from this have "decode_addr addr = Some (tag, data)"
    by (subst decode_addr_checksummed [of "fromVarint tag @ data"])
      (simp_all add: encode_addr_def Let_def addr_checksum_size_def toVarint_fromVarint)
  ultimately show ?thesis by blast
qed

text \<open>
  C27: \<open>decode_addr\<close> also accepts an address whose tag has no final byte (here the single byte 0x80),
  although no tag is encoded that way.
\<close>

lemma truncated_tag_accepted:
  "\<exists>addr. decode_addr addr = Some (0, []) \<and> encode_addr 0 [] \<noteq> Inr addr"
proof -
  obtain addr where a: "encode ([0x80] @ take 4 (cn_fast_hash [0x80])) = Inr addr"
    using encode_total by metis
  have "decode_addr addr = Some (0, [])"
    using decode_addr_checksummed [OF a] by (simp add: toVarint_def Let_def)
  moreover have "encode_addr 0 [] \<noteq> Inr addr"
  proof
    assume "encode_addr 0 [] = Inr addr"
    then have "fromVarint 0 @ take 4 (cn_fast_hash (fromVarint 0)) = [0x80] @ take 4 (cn_fast_hash [0x80])"
      using a decode_iff by (metis Inr_inject append_Nil2 encode_addr_def addr_checksum_size_def option.inject)
    then show False by (simp add: fromVarint.simps)
  qed
  ultimately show ?thesis by blast
qed

end
