(* ===== verification/Amounts.thy ===== *)
theory Amounts
  imports IntUtil
begin

text \<open>
  \<open>src/cryptonote/core/util/amount.cpp\<close> and the decomposition of amounts of
  \<open>CryptoNoteFormatUtils.h\<close> and \<open>CryptoNoteTools.cpp\<close>: the penalty for large blocks, and the digits
  an amount is split into. Amounts and sizes are 64-bit words.
\<close>

section \<open>Definitions\<close>

text \<open>A failing \<open>assert\<close> is \<open>AssertFailed\<close>. A division by zero cannot be reached.\<close>

definition get_penalized_amount :: "u64 \<Rightarrow> u64 \<Rightarrow> u64 \<Rightarrow> exn + u64" where
  "get_penalized_amount amount median_size current_block_size =
     (if \<not> current_block_size \<le> 2 * median_size then Inl AssertFailed
      else if \<not> median_size \<le> 0xFFFFFFFF then Inl AssertFailed
      else if \<not> current_block_size \<le> 0xFFFFFFFF then Inl AssertFailed
      else if amount = 0 then Inr 0
      else if current_block_size \<le> median_size then Inr amount
      else
        let (product_low, product_high) =
              mul128 amount (current_block_size * (2 * median_size - current_block_size));
            (_, high, low) = div128_32 product_high product_low (ucast median_size);
            (_, penalized_amount_high, penalized_amount_low) = div128_32 high low (ucast median_size)
        in if penalized_amount_high \<noteq> 0 then Inl AssertFailed
           else if \<not> penalized_amount_low < amount then Inl AssertFailed
           else Inr penalized_amount_low)"

text \<open>
  The loop of \<open>decompose_amount_into_digits\<close>. Both handlers append to one list, as in every call of
  the sources; \<open>out\<close> is that list.
\<close>

function decompose_loop :: "u64 \<Rightarrow> u64 \<Rightarrow> bool \<Rightarrow> u64 \<Rightarrow> u64 \<Rightarrow> u64 list \<Rightarrow> bool \<times> u64 \<times> u64 list" where
  "decompose_loop dust_threshold amount is_dust_handled dust order out =
     (if amount = 0 then (is_dust_handled, dust, out)
      else
        let chunk = (amount mod 10) * order;
            amount = amount div 10;
            order = order * 10
        in if dust + chunk \<le> dust_threshold
           then decompose_loop dust_threshold amount is_dust_handled (dust + chunk) order out
           else
             let handle = \<not> is_dust_handled \<and> dust \<noteq> 0;
                 out = (if handle then out @ [dust] else out);
                 out = (if chunk \<noteq> 0 then out @ [chunk] else out)
             in decompose_loop dust_threshold amount (is_dust_handled \<or> handle) dust order out)"
  by pat_completeness auto

lemma tens_less: "(amount :: u64) \<noteq> 0 \<Longrightarrow> unat (amount div 10) < unat amount"
  by (simp add: unat_div unat_gt_0)

termination decompose_loop
  by (relation "measure (\<lambda>(t, amount, _). unat amount)") (simp_all add: tens_less)

definition decompose_amount_into_digits :: "u64 \<Rightarrow> u64 \<Rightarrow> u64 list" where
  "decompose_amount_into_digits amount dust_threshold =
     (if amount = 0 then []
      else
        let (is_dust_handled, dust, out) = decompose_loop dust_threshold amount False 0 1 []
        in if \<not> is_dust_handled \<and> dust \<noteq> 0 then out @ [dust] else out)"

definition decomposeAmount :: "u64 \<Rightarrow> u64 \<Rightarrow> u64 list \<Rightarrow> u64 list" where
  "decomposeAmount amount dustThreshold decomposedAmounts =
     decomposedAmounts @ decompose_amount_into_digits amount dustThreshold"

section \<open>The penalty\<close>

declare decompose_loop.simps [simp del]

lemma penalty_factor:
  fixes c m :: nat
  assumes "m < c" "c \<le> 2 * m"
  shows "c * (2 * m - c) < m * m"
proof -
  define d where "d = c - m"
  define e where "e = 2 * m - c"
  have "c = 2 * d + e" "m = d + e" "0 < d" using assms by (simp_all add: d_def e_def)
  then have "c * (2 * m - c) + d * d = m * m"
    unfolding e_def [symmetric] by (simp add: algebra_simps)
  moreover have "0 < d * d" using \<open>0 < d\<close> by simp
  ultimately show ?thesis by linarith
qed

text \<open>The penalized amount as a formula over the naturals.\<close>

definition penalized :: "nat \<Rightarrow> nat \<Rightarrow> nat \<Rightarrow> nat" where
  "penalized amount median cur =
     (if cur \<le> median then amount else amount * (cur * (2 * median - cur)) div (median * median))"

lemma penalized_less:
  fixes amount median cur :: nat
  assumes "0 < amount" "median < cur" "cur \<le> 2 * median"
  shows "amount * (cur * (2 * median - cur)) div (median * median) < amount"
proof -
  have "amount * (cur * (2 * median - cur)) < amount * (median * median)"
    using penalty_factor [OF assms(2,3)] assms(1) by simp
  then show ?thesis by (rule less_mult_imp_div_less)
qed

lemma penalized_le: "cur \<le> 2 * median \<Longrightarrow> penalized amount median cur \<le> amount"
  using penalized_less [of amount median cur] by (cases "amount = 0") (auto simp: penalized_def)

lemma get_penalized_amount_value:
  assumes "unat c \<le> 2 * unat m" "unat m < 4294967296" "unat c < 4294967296"
  shows "get_penalized_amount a m c = Inr (of_nat (penalized (unat a) (unat m) (unat c)))"
proof -
  have m2: "unat (2 * m) = 2 * unat m" using assms(2) by (simp add: unat_word_ariths)
  have guards: "c \<le> 2 * m" "m \<le> 0xFFFFFFFF" "c \<le> 0xFFFFFFFF"
    using assms m2 by (simp_all add: word_le_nat_alt)
  consider "a = 0" | "a \<noteq> 0" "c \<le> m" | "a \<noteq> 0" "\<not> c \<le> m" by blast
  then show ?thesis
  proof cases
    case 1
    then show ?thesis using guards by (simp add: get_penalized_amount_def penalized_def)
  next
    case 2
    then show ?thesis using guards by (simp add: get_penalized_amount_def penalized_def word_le_nat_alt)
  next
    case 3
    then have mc: "unat m < unat c" by (simp add: word_le_nat_alt)
    then have m0: "0 < unat m" using assms(1) by simp
    define x where "x = 2 * m - c"
    define f where "f = c * x"
    have x: "unat x = 2 * unat m - unat c" by (simp only: x_def unat_sub [OF guards(1)] m2)
    have "unat c * (2 * unat m - unat c) < unat m * unat m" using mc assms(1) by (rule penalty_factor)
    also have "\<dots> \<le> 4294967295 * 4294967295" using assms(2) by (intro mult_le_mono) simp_all
    finally have f: "unat f = unat c * (2 * unat m - unat c)"
      by (simp add: f_def unat_word_ariths x)
    obtain lo hi where p: "mul128 a f = (lo, hi)" by fastforce
    have prod: "unat a * unat f = unat hi * 2 ^ 64 + unat lo" using mul128_exact [of a f] p by simp
    define m' :: u32 where "m' = ucast m"
    have m': "unat m' = unat m" "0 < m'"
      using assms(2) m0 by (simp_all add: m'_def unat_ucast_mod word_less_nat_alt)
    obtain r1 h1 l1 where d1: "div128_32 hi lo m' = (r1, h1, l1)" by (metis prod_cases3)
    obtain r2 h2 l2 where d2: "div128_32 h1 l1 m' = (r2, h2, l2)" by (metis prod_cases3)
    define q where "q = unat a * unat f div (unat m * unat m)"
    have q1: "unat h1 * 2 ^ 64 + unat l1 = unat a * unat f div unat m"
      using div128_32_exact(1) [OF m'(2) d1] prod m'(1) by simp
    have q2: "unat h2 * 2 ^ 64 + unat l2 = q"
      using div128_32_exact(1) [OF m'(2) d2] q1 m'(1) by (simp add: q_def div_mult2_eq)
    have a0: "0 < unat a" using 3(1) by (simp add: unat_gt_0)
    have small: "q < unat a" unfolding q_def f by (rule penalized_less [OF a0 mc assms(1)])
    then have h2: "unat h2 = 0" using q2 unat_lt64 [of a] by (cases "unat h2") simp_all
    then have l2: "unat l2 = q" using q2 by simp
    have "get_penalized_amount a m c = Inr l2"
      using guards 3 p d1 d2 h2 l2 small
      by (simp add: get_penalized_amount_def x_def [symmetric] f_def [symmetric] m'_def [symmetric] unat_eq_zero word_less_nat_alt)
    moreover have "l2 = of_nat q" by (simp flip: l2)
    moreover have "penalized (unat a) (unat m) (unat c) = q" using mc by (simp add: penalized_def q_def f)
    ultimately show ?thesis by simp
  qed
qed

section \<open>Decomposition\<close>

abbreviation amount_sum :: "u64 list \<Rightarrow> nat" where
  "amount_sum xs \<equiv> sum_list (map unat xs)"

text \<open>What the loop has accounted for: the emitted amounts, and the dust not yet emitted.\<close>

definition accounted :: "bool \<Rightarrow> u64 \<Rightarrow> u64 list \<Rightarrow> nat" where
  "accounted handled dust out = amount_sum out + (if handled then 0 else unat dust)"

lemma digit_chunk:
  assumes "unat amount * 10 ^ i < 18446744073709551616" "unat order = 10 ^ i"
  shows "unat (amount mod 10 * order :: u64) = unat amount mod 10 * 10 ^ i"
    and "unat amount mod 10 * 10 ^ i + unat (amount div 10) * 10 ^ Suc i = unat amount * 10 ^ i"
proof -
  have "(unat amount mod 10 + unat amount div 10 * 10) * 10 ^ i
      = unat amount mod 10 * 10 ^ i + unat amount div 10 * 10 ^ Suc i"
    by (simp only: add_mult_distrib power_Suc mult.assoc)
  then show e: "unat amount mod 10 * 10 ^ i + unat (amount div 10) * 10 ^ Suc i = unat amount * 10 ^ i"
    by (simp add: unat_div)
  have "unat amount mod 10 * 10 ^ i < 18446744073709551616" using assms(1) e by linarith
  then show "unat (amount mod 10 * order :: u64) = unat amount mod 10 * 10 ^ i"
    by (simp add: unat_word_ariths unat_mod assms(2))
qed

lemma next_order:
  assumes "unat (order :: u64) = 10 ^ i" "unat x * 10 ^ Suc i < 18446744073709551616" "x \<noteq> 0"
  shows "unat (order * 10) = 10 ^ Suc i"
proof -
  have "1 * 10 ^ Suc i \<le> unat x * 10 ^ Suc i"
    using assms(3) by (intro mult_le_mono1) (simp add: Suc_le_eq unat_gt_0)
  then have "(10::nat) ^ Suc i < 18446744073709551616" using assms(2) by linarith
  then show ?thesis using assms(1) by (simp add: unat_word_ariths mult.commute)
qed

lemma decompose_loop_total:
  assumes "decompose_loop thr amount handled dust order out = (h', dust', out')"
    and "amount \<noteq> 0 \<Longrightarrow> unat order = 10 ^ i"
    and "accounted handled dust out + unat amount * 10 ^ i < 18446744073709551616"
    and "handled \<Longrightarrow> unat thr < unat dust + 10 ^ i \<and> unat dust \<le> amount_sum out"
    and "0 \<notin> set out"
  shows "accounted h' dust' out' = accounted handled dust out + unat amount * 10 ^ i \<and> 0 \<notin> set out'"
  using assms
proof (induction thr amount handled dust order out arbitrary: i rule: decompose_loop.induct)
  case (1 thr amount handled dust order out)
  show ?case
  proof (cases "amount = 0")
    case True
    then show ?thesis using 1(3,5-) by (simp add: decompose_loop.simps)
  next
    case False
    define chunk where "chunk = amount mod 10 * order"
    note order = 1(4) [OF False]
    have fits: "unat amount * 10 ^ i < 18446744073709551616" using 1(5) by simp
    have chunk: "unat chunk = unat amount mod 10 * 10 ^ i"
      and rest: "unat chunk + unat (amount div 10) * 10 ^ Suc i = unat amount * 10 ^ i"
      using digit_chunk [OF fits order] by (simp_all add: chunk_def)
    have ord': "amount div 10 \<noteq> 0 \<Longrightarrow> unat (order * 10) = 10 ^ Suc i"
      using next_order [OF order, of "amount div 10"] rest fits by linarith
    have dust_le: "unat dust \<le> accounted handled dust out"
      using 1(6) by (auto simp: accounted_def)
    have sum: "unat (dust + chunk) = unat dust + unat chunk"
      using dust_le rest 1(5) by (simp add: unat_word_ariths)
    have lt10: "unat chunk < 10 ^ Suc i"
    proof -
      have "unat amount mod 10 * 10 ^ i < 10 * 10 ^ i" by (rule mult_strict_right_mono) simp_all
      then show ?thesis using chunk by simp
    qed
    show ?thesis
    proof (cases "dust + chunk \<le> thr")
      case True
      have loop: "decompose_loop thr (amount div 10) handled (dust + chunk) (order * 10) out = (h', dust', out')"
        using 1(3) False True by (subst (asm) decompose_loop.simps) (simp add: chunk_def)
      have same: "handled \<Longrightarrow> chunk = 0"
      proof -
        assume h: handled
        have "unat dust + unat chunk \<le> unat thr" using True sum by (simp add: word_le_nat_alt)
        then have "unat chunk < 10 ^ i" using 1(6) [OF h] by linarith
        then have "unat amount mod 10 = 0" using chunk by (cases "unat amount mod 10") simp_all
        then show ?thesis using chunk by (simp add: unat_eq_zero)
      qed
      have acc: "accounted handled (dust + chunk) out = accounted handled dust out + unat chunk"
        using same sum by (auto simp: accounted_def)
      have "accounted h' dust' out' = accounted handled (dust + chunk) out + unat (amount div 10) * 10 ^ Suc i
          \<and> 0 \<notin> set out'"
      proof (rule 1(1) [OF False chunk_def refl refl _ loop])
        show "handled \<Longrightarrow> unat thr < unat (dust + chunk) + 10 ^ Suc i \<and> unat (dust + chunk) \<le> amount_sum out"
          using same 1(6) by auto
      qed (use True ord' acc rest 1(5,7) in \<open>simp_all add: chunk_def\<close>)
      then show ?thesis using acc rest by simp
    next
      case above: False
      define handle where "handle \<longleftrightarrow> \<not> handled \<and> dust \<noteq> 0"
      define out1 where "out1 = (if handle then out @ [dust] else out)"
      define out2 where "out2 = (if chunk \<noteq> 0 then out1 @ [chunk] else out1)"
      have loop: "decompose_loop thr (amount div 10) (handled \<or> handle) dust (order * 10) out2 = (h', dust', out')"
        using 1(3) [unfolded decompose_loop.simps [of thr amount] Let_def, folded chunk_def,
            folded handle_def, folded out1_def, folded out2_def] False above by simp
      have acc: "accounted (handled \<or> handle) dust out2 = accounted handled dust out + unat chunk"
        by (auto simp: accounted_def handle_def out1_def out2_def)
      have "accounted h' dust' out' = accounted (handled \<or> handle) dust out2 + unat (amount div 10) * 10 ^ Suc i
          \<and> 0 \<notin> set out'"
      proof (rule 1(2) [OF False chunk_def refl refl _ handle_def _ _ loop])
        show "unat thr < unat dust + 10 ^ Suc i \<and> unat dust \<le> amount_sum out2" if "handled \<or> handle"
          using that above sum lt10 1(6) by (auto simp: word_le_nat_alt handle_def out1_def out2_def)
        show "0 \<notin> set out2" using 1(7) by (auto simp: out1_def out2_def handle_def)
      qed (use above ord' acc rest 1(5) in \<open>simp_all add: chunk_def out1_def out2_def\<close>)
      then show ?thesis using acc rest by simp
    qed
  qed
qed

lemma decompose_total:
  "amount_sum (decompose_amount_into_digits amount thr) = unat amount
   \<and> 0 \<notin> set (decompose_amount_into_digits amount thr)"
proof (cases "amount = 0")
  case True
  then show ?thesis by (simp add: decompose_amount_into_digits_def)
next
  case False
  obtain h d out where loop: "decompose_loop thr amount False 0 1 [] = (h, d, out)" by (metis prod_cases3)
  have "accounted h d out = unat amount \<and> 0 \<notin> set out"
    using decompose_loop_total [OF loop, of 0] by (simp add: accounted_def unat_bounds)
  then show ?thesis
    using False loop by (auto simp: decompose_amount_into_digits_def accounted_def split: if_splits)
qed

section \<open>Properties\<close>

text \<open>
  C27: for sizes below 2^32 and a block of at most twice the median, \<open>get_penalized_amount\<close> passes its
  assertions and returns amount * size * (2 * median - size) / median^2, rounded down, for a block above
  the median and the whole amount otherwise.
\<close>

theorem penalized_amount_exact:
  assumes "unat c \<le> 2 * unat m" "unat m < 2 ^ 32" "unat c < 2 ^ 32"
  shows "\<exists>r. get_penalized_amount a m c = Inr r \<and> r \<le> a
    \<and> unat r = (if unat c \<le> unat m then unat a
        else unat a * (unat c * (2 * unat m - unat c)) div (unat m * unat m))"
proof -
  have le: "penalized (unat a) (unat m) (unat c) \<le> unat a" by (rule penalized_le [OF assms(1)])
  then have "unat (of_nat (penalized (unat a) (unat m) (unat c)) :: u64) = penalized (unat a) (unat m) (unat c)"
    using unat_lt64 [of a] by (simp add: unat_of_nat_u64)
  then show ?thesis
    using get_penalized_amount_value [of c m a] assms le
    by (intro exI [of _ "of_nat (penalized (unat a) (unat m) (unat c))"])
      (simp add: word_le_nat_alt penalized_def)
qed

theorem penalized_amount_exact_witness:
  "get_penalized_amount 1000 10000 15000 = Inr 750"
proof -
  obtain r where "get_penalized_amount 1000 10000 15000 = Inr r" "unat r = 750"
    using penalized_amount_exact [of 15000 10000 1000] by auto
  moreover from this have "r = 750" by (simp add: word_unat_eq_iff)
  ultimately show ?thesis by simp
qed

text \<open>
  The digits and the dust an amount is decomposed into add up to the amount, whatever the dust
  threshold, and none of them is zero.
\<close>

lemma decomposition_exact:
  "amount_sum (decompose_amount_into_digits amount dust_threshold) = unat amount
   \<and> 0 \<notin> set (decompose_amount_into_digits amount dust_threshold)"
  by (rule decompose_total)

end
