(* ===== verification/TxTypes.thy ===== *)
theory TxTypes
  imports Stream
begin

text \<open>
  The data of \<open>src/cryptonote/types.h\<close>: transactions, blocks and the entries of the chain. A hash, a
  key or a key image is the list of its 32 bytes, a signature the list of its 64 bytes; the well-formedness
  predicates say so. \<open>size_t\<close> and \<open>time_t\<close> are 64-bit words.
\<close>

section \<open>Types\<close>

type_synonym hash_t = bytes
type_synonym public_key_t = bytes
type_synonym secret_key_t = bytes
type_synonym key_image_t = bytes
type_synonym signature_t = bytes

definition NULL_HASH :: hash_t where
  "NULL_HASH = replicate 32 0"

record transaction_index =
  ti_block :: u32
  ti_transaction :: u16

datatype transaction_input =
    BaseInput (blockIndex: u32)
  | KeyInput (key_amount: u64) (outputIndexes: "u32 list") (keyImage: key_image_t)
  | MultisigInput (multisig_amount: u64) (signatureCount: u8) (outputIndex: u32)

datatype output_target =
    KeyOutput (out_key: public_key_t)
  | MultisigOutput (out_keys: "public_key_t list") (requiredSignatureCount: u8)

record transaction_output =
  out_amount :: u64
  out_target :: output_target

record transaction_prefix =
  tx_version :: u8
  unlockTime :: u64
  tx_inputs :: "transaction_input list"
  tx_outputs :: "transaction_output list"
  tx_extra :: bytes

record transaction = transaction_prefix +
  signatures :: "signature_t list list"

record multisignature_output_usage =
  mou_transactionIndex :: transaction_index
  mou_outputIndex :: u16
  mou_isUsed :: bool

record transaction_entry =
  te_tx :: transaction
  m_global_output_indexes :: "u32 list"

record block_info =
  bi_height :: u32
  bi_id :: hash_t

record block_header =
  majorVersion :: u8
  minorVersion :: u8
  nonce :: u32
  timestamp :: u64
  previousBlockHash :: hash_t

record block = block_header +
  baseTransaction :: transaction
  transactionHashes :: "hash_t list"

record block_entry =
  be_bl :: block
  be_height :: u32
  block_cumulative_size :: u64
  cumulative_difficulty :: u64
  already_generated_coins :: u64
  be_transactions :: "transaction_entry list"

record transaction_check_info =
  maxUsedBlock :: block_info
  lastFailedBlock :: block_info

record transaction_details = transaction_check_info +
  td_id :: hash_t
  td_tx :: transaction
  blobSize :: u64
  td_fee :: u64
  keptByBlock :: bool
  receiveTime :: u64

record account_public_address =
  spendPublicKey :: public_key_t
  viewPublicKey :: public_key_t

text \<open>\<open>block_info_t::clear\<close> and \<open>block_info_t::empty\<close>.\<close>

definition block_info_clear :: block_info where
  "block_info_clear = \<lparr>bi_height = 0, bi_id = NULL_HASH\<rparr>"

definition block_info_empty :: "block_info \<Rightarrow> bool" where
  "block_info_empty b \<longleftrightarrow> bi_id b = NULL_HASH"

section \<open>Well-formed values\<close>

abbreviation size_ok :: "'a list \<Rightarrow> bool" where
  "size_ok xs \<equiv> length xs < 18446744073709551616"

abbreviation pod_ok :: "bytes \<Rightarrow> bool" where
  "pod_ok b \<equiv> length b = 32"

fun input_ok :: "transaction_input \<Rightarrow> bool" where
  "input_ok (BaseInput _) = True"
| "input_ok (KeyInput _ offsets ki) \<longleftrightarrow> size_ok offsets \<and> pod_ok ki"
| "input_ok (MultisigInput _ _ _) = True"

fun target_ok :: "output_target \<Rightarrow> bool" where
  "target_ok (KeyOutput k) \<longleftrightarrow> pod_ok k"
| "target_ok (MultisigOutput ks _) \<longleftrightarrow> list_all pod_ok ks \<and> size_ok ks"

definition output_ok :: "transaction_output \<Rightarrow> bool" where
  "output_ok out \<longleftrightarrow> target_ok (out_target out)"

definition prefix_ok :: "'a transaction_prefix_scheme \<Rightarrow> bool" where
  "prefix_ok tx \<longleftrightarrow>
     list_all input_ok (tx_inputs tx) \<and> size_ok (tx_inputs tx)
     \<and> list_all output_ok (tx_outputs tx) \<and> size_ok (tx_outputs tx) \<and> size_ok (tx_extra tx)"

text \<open>\<open>getSignaturesCount\<close> of \<open>basics.cpp\<close> and \<open>signature_size_visitor\<close> of \<open>stream/transaction.cpp\<close>.\<close>

fun getSignaturesCount :: "transaction_input \<Rightarrow> nat" where
  "getSignaturesCount (BaseInput _) = 0"
| "getSignaturesCount (KeyInput _ offsets _) = length offsets"
| "getSignaturesCount (MultisigInput _ n _) = unat n"

definition tx_ok :: "transaction \<Rightarrow> bool" where
  "tx_ok tx \<longleftrightarrow> prefix_ok tx
     \<and> list_all2 (\<lambda>inp sigs. length sigs = getSignaturesCount inp \<and> list_all (\<lambda>s. length s = 64) sigs)
         (tx_inputs tx) (signatures tx)"

definition header_ok :: "'a block_header_scheme \<Rightarrow> bool" where
  "header_ok h \<longleftrightarrow> pod_ok (previousBlockHash h)"

definition block_ok :: "block \<Rightarrow> bool" where
  "block_ok b \<longleftrightarrow> header_ok b \<and> tx_ok (baseTransaction b)
     \<and> list_all pod_ok (transactionHashes b) \<and> size_ok (transactionHashes b)"

end
