(* ===== verification/TxSerial.thy ===== *)
theory TxSerial
  imports TxTypes Keccak
begin

text \<open>
  The canonical serialization of transactions and blocks, the one hashes and consensus rest on:
  \<open>src/cryptonote/core/transaction/serializer/basics.cpp\<close> over the binary serializers of
  \<open>src/serialization\<close>, and \<open>BinaryArray\<close> of \<open>src/cryptonote/structures/array.hpp\<close>. Both binary
  serializers hand integers, arrays and raw bytes to the stream operators; the output direction of a
  \<open>serialize\<close> function is a \<open>ser_\<close> definition, the input direction a \<open>par_\<close> definition.
\<close>

section \<open>Definitions\<close>

definition ser_input :: "transaction_input \<Rightarrow> bytes" where
  "ser_input inp =
     (case inp of
        BaseInput b \<Rightarrow> 0xFF # write_u32 b
      | KeyInput a offsets ki \<Rightarrow> 0x2 # write_u64 a @ write_vector write_u32 offsets @ write_pod ki
      | MultisigInput a n i \<Rightarrow> 0x3 # write_u64 a @ write_u8 n @ write_u32 i)"

definition par_input :: "transaction_input reader" where
  "par_input =
     rbind read_byte (\<lambda>tag.
       if tag = 0xFF then rbind read_u32 (\<lambda>b. rret (BaseInput b))
       else if tag = 0x2 then
         rbind read_u64 (\<lambda>a. rbind (read_vector read_u32) (\<lambda>offsets. rbind (read_pod 32) (\<lambda>ki.
           rret (KeyInput a offsets ki))))
       else if tag = 0x3 then
         rbind read_u64 (\<lambda>a. rbind read_u8 (\<lambda>n. rbind read_u32 (\<lambda>i. rret (MultisigInput a n i))))
       else rthrow UnknownVariantTag)"

definition ser_target :: "output_target \<Rightarrow> bytes" where
  "ser_target t =
     (case t of
        KeyOutput k \<Rightarrow> 0x2 # write_pod k
      | MultisigOutput ks n \<Rightarrow> 0x3 # write_vector write_pod ks @ write_u8 n)"

definition par_target :: "output_target reader" where
  "par_target =
     rbind read_byte (\<lambda>tag.
       if tag = 0x2 then rbind (read_pod 32) (\<lambda>k. rret (KeyOutput k))
       else if tag = 0x3 then
         rbind (read_vector (read_pod 32)) (\<lambda>ks. rbind read_u8 (\<lambda>n. rret (MultisigOutput ks n)))
       else rthrow UnknownVariantTag)"

definition ser_output :: "transaction_output \<Rightarrow> bytes" where
  "ser_output out = write_u64 (out_amount out) @ ser_target (out_target out)"

definition par_output :: "transaction_output reader" where
  "par_output = rbind read_u64 (\<lambda>a. rbind par_target (\<lambda>t. rret \<lparr>out_amount = a, out_target = t\<rparr>))"

definition ser_prefix :: "'a transaction_prefix_scheme \<Rightarrow> bytes" where
  "ser_prefix tx =
     write_u8 (tx_version tx) @ write_u64 (unlockTime tx) @ write_vector ser_input (tx_inputs tx)
     @ write_vector ser_output (tx_outputs tx) @ write_string (tx_extra tx)"

definition par_prefix :: "transaction_prefix reader" where
  "par_prefix =
     rbind read_u8 (\<lambda>version. rbind read_u64 (\<lambda>unlock.
     rbind (read_vector par_input) (\<lambda>ins. rbind (read_vector par_output) (\<lambda>outs.
     rbind read_string (\<lambda>extra.
       rret \<lparr>tx_version = version, unlockTime = unlock, tx_inputs = ins, tx_outputs = outs, tx_extra = extra\<rparr>)))))"

text \<open>The signatures, one list for each input, without sizes.\<close>

fun ser_signatures :: "transaction_input list \<Rightarrow> signature_t list list \<Rightarrow> exn + bytes" where
  "ser_signatures [] _ = Inr []"
| "ser_signatures (_ # _) [] = Inl OutOfRange"
| "ser_signatures (i # ins) (s # sigs) =
     (if getSignaturesCount i \<noteq> length s then Inl SignaturesSize
      else case ser_signatures ins sigs of Inl e \<Rightarrow> Inl e | Inr b \<Rightarrow> Inr (concat (map write_pod s) @ b))"

definition ser_transaction :: "transaction \<Rightarrow> exn + bytes" where
  "ser_transaction tx =
     (let signaturesNotExpected = (signatures tx = [])
      in if \<not> signaturesNotExpected \<and> length (tx_inputs tx) \<noteq> length (signatures tx) then Inl SignaturesSize
      else if signaturesNotExpected then
        if list_ex (\<lambda>i. getSignaturesCount i \<noteq> 0) (tx_inputs tx) then Inl SignaturesNotExpected
        else Inr (ser_prefix tx)
      else case ser_signatures (tx_inputs tx) (signatures tx) of
          Inl e \<Rightarrow> Inl e
        | Inr b \<Rightarrow> Inr (ser_prefix tx @ b))"

fun par_signatures :: "transaction_input list \<Rightarrow> signature_t list list reader" where
  "par_signatures [] = rret []"
| "par_signatures (i # ins) =
     rbind (read_n (read_pod 64) (getSignaturesCount i)) (\<lambda>s.
       rbind (par_signatures ins) (\<lambda>sigs. rret (s # sigs)))"

definition par_transaction :: "transaction reader" where
  "par_transaction =
     rbind par_prefix (\<lambda>p. rbind (par_signatures (tx_inputs p)) (\<lambda>sigs.
       rret (transaction_prefix.extend p \<lparr>signatures = sigs\<rparr>)))"

text \<open>\<open>serializeBlockHeader\<close>: the nonce is four raw bytes.\<close>

definition ser_header :: "'a block_header_scheme \<Rightarrow> bytes" where
  "ser_header h =
     write_u8 (majorVersion h) @ write_u8 (minorVersion h) @ write_u64 (timestamp h)
     @ write_pod (previousBlockHash h) @ nat_le 4 (unat (nonce h))"

definition par_header :: "block_header reader" where
  "par_header =
     rbind read_u8 (\<lambda>major. rbind read_u8 (\<lambda>minor. rbind read_u64 (\<lambda>time. rbind (read_pod 32) (\<lambda>prev.
     rbind (read_bytes 4) (\<lambda>n.
       rret \<lparr>majorVersion = major, minorVersion = minor, nonce = of_nat (le_nat n), timestamp = time,
             previousBlockHash = prev\<rparr>)))))"

definition ser_block :: "block \<Rightarrow> exn + bytes" where
  "ser_block b =
     (case ser_transaction (baseTransaction b) of
        Inl e \<Rightarrow> Inl e
      | Inr t \<Rightarrow> Inr (ser_header b @ t @ write_vector write_pod (transactionHashes b)))"

definition par_block :: "block reader" where
  "par_block =
     rbind par_header (\<lambda>h. rbind par_transaction (\<lambda>t. rbind (read_vector (read_pod 32)) (\<lambda>hs.
       rret (block_header.extend h \<lparr>baseTransaction = t, transactionHashes = hs\<rparr>))))"

text \<open>
  \<open>BinaryArray::to\<close> and \<open>BinaryArray::from\<close> turn every exception into a failure, and \<open>from\<close> demands
  that the whole array is read.
\<close>

definition array_to :: "exn + bytes \<Rightarrow> bytes option" where
  "array_to r = (case r of Inl _ \<Rightarrow> None | Inr b \<Rightarrow> Some b)"

definition array_from :: "'a reader \<Rightarrow> bytes \<Rightarrow> 'a option" where
  "array_from rd b = (case rd b of Inl _ \<Rightarrow> None | Inr (x, rest) \<Rightarrow> if rest = [] then Some x else None)"

definition tx_to_bytes :: "transaction \<Rightarrow> bytes option" where
  "tx_to_bytes tx = array_to (ser_transaction tx)"

definition tx_from_bytes :: "bytes \<Rightarrow> transaction option" where
  "tx_from_bytes b = array_from par_transaction b"

definition block_to_bytes :: "block \<Rightarrow> bytes option" where
  "block_to_bytes b = array_to (ser_block b)"

definition block_from_bytes :: "bytes \<Rightarrow> block option" where
  "block_from_bytes b = array_from par_block b"

text \<open>\<open>BinaryArray::size\<close> and \<open>BinaryArray::objectHash\<close> of a transaction and of its prefix.\<close>

definition tx_size :: "transaction \<Rightarrow> u64" where
  "tx_size tx = (case tx_to_bytes tx of None \<Rightarrow> - 1 | Some b \<Rightarrow> of_nat (length b))"

definition tx_hash :: "transaction \<Rightarrow> hash_t" where
  "tx_hash tx = (case tx_to_bytes tx of None \<Rightarrow> NULL_HASH | Some b \<Rightarrow> cn_fast_hash b)"

definition prefix_hash :: "'a transaction_prefix_scheme \<Rightarrow> hash_t" where
  "prefix_hash tx = cn_fast_hash (ser_prefix tx)"

section \<open>Every part is a canonical codec\<close>

interpretation u32s: canonical_codec "write_vector write_u32" "read_vector read_u32"
    "\<lambda>xs. list_all (\<lambda>_. True) xs \<and> size_ok xs"
  by (rule u32.vector_canonical_codec)

interpretation pods: canonical_codec "write_vector write_pod" "read_vector (read_pod 32)"
    "\<lambda>xs. list_all pod_ok xs \<and> size_ok xs"
  by (rule pod32.vector_canonical_codec)

lemma all_True [simp]: "list_all (\<lambda>_. True) xs"
  by (simp add: list_all_iff)

lemmas basic_iffs = u64.accepts_iff u32.accepts_iff u16.accepts_iff u8.accepts_iff str.accepts_iff
  pod32.accepts_iff u32s.accepts_iff pods.accepts_iff

lemma par_input_iff: "par_input s = Inr (x, r) \<longleftrightarrow> input_ok x \<and> s = ser_input x @ r"
proof
  assume "par_input s = Inr (x, r)"
  then show "input_ok x \<and> s = ser_input x @ r"
    by (auto simp: par_input_def reader_simps basic_iffs ser_input_def split: if_splits)
next
  assume "input_ok x \<and> s = ser_input x @ r"
  then show "par_input s = Inr (x, r)"
    by (cases x) (auto simp: par_input_def reader_simps basic_iffs ser_input_def)
qed

lemma par_target_iff: "par_target s = Inr (x, r) \<longleftrightarrow> target_ok x \<and> s = ser_target x @ r"
proof
  assume "par_target s = Inr (x, r)"
  then show "target_ok x \<and> s = ser_target x @ r"
    by (auto simp: par_target_def reader_simps basic_iffs ser_target_def split: if_splits)
next
  assume "target_ok x \<and> s = ser_target x @ r"
  then show "par_target s = Inr (x, r)"
    by (cases x) (auto simp: par_target_def reader_simps basic_iffs ser_target_def)
qed

lemma canonical_codecI:
  assumes "\<And>s x r. rd s = Inr (x, r) \<longleftrightarrow> ok x \<and> s = wr x @ r"
  shows "canonical_codec wr rd ok"
  using assms by unfold_locales auto

interpretation txin: canonical_codec ser_input par_input input_ok
  by (rule canonical_codecI) (rule par_input_iff)

interpretation txtgt: canonical_codec ser_target par_target target_ok
  by (rule canonical_codecI) (rule par_target_iff)

lemma par_output_iff: "par_output s = Inr (x, r) \<longleftrightarrow> output_ok x \<and> s = ser_output x @ r"
  by (cases x) (auto simp: par_output_def reader_simps basic_iffs txtgt.accepts_iff ser_output_def output_ok_def)

interpretation txout: canonical_codec ser_output par_output output_ok
  by (rule canonical_codecI) (rule par_output_iff)

interpretation inputs: canonical_codec "write_vector ser_input" "read_vector par_input"
    "\<lambda>xs. list_all input_ok xs \<and> size_ok xs"
  by (rule txin.vector_canonical_codec)

interpretation outputs: canonical_codec "write_vector ser_output" "read_vector par_output"
    "\<lambda>xs. list_all output_ok xs \<and> size_ok xs"
  by (rule txout.vector_canonical_codec)

lemma par_prefix_iff: "par_prefix s = Inr (x, r) \<longleftrightarrow> prefix_ok x \<and> s = ser_prefix x @ r"
  by (cases x) (auto simp: par_prefix_def reader_simps basic_iffs inputs.accepts_iff outputs.accepts_iff
      ser_prefix_def prefix_ok_def)

interpretation prefix: canonical_codec ser_prefix par_prefix prefix_ok
  by (rule canonical_codecI) (rule par_prefix_iff)

lemma read_n_sigs_iff:
  "read_n (read_pod 64) n s = Inr (xs, r) \<longleftrightarrow>
     length xs = n \<and> list_all (\<lambda>b. length b = 64) xs \<and> s = concat (map write_pod xs) @ r"
  using pod64.read_n_canonical pod64.read_n_write by metis

lemma par_signatures_iff:
  "par_signatures ins s = Inr (sigs, r) \<longleftrightarrow>
     list_all2 (\<lambda>i ss. length ss = getSignaturesCount i \<and> list_all (\<lambda>b. length b = 64) ss) ins sigs
     \<and> (\<exists>b. ser_signatures ins sigs = Inr b \<and> s = b @ r)"
proof (induction ins arbitrary: s sigs)
  case Nil
  then show ?case by (auto simp: reader_simps)
next
  case (Cons i ins)
  then show ?case
    by (cases sigs) (auto simp: reader_simps read_n_sigs_iff split: sum.splits)
qed

lemma ser_transaction_ok:
  assumes "tx_ok tx"
  shows "ser_transaction tx =
    (case ser_signatures (tx_inputs tx) (signatures tx) of Inl e \<Rightarrow> Inl e | Inr b \<Rightarrow> Inr (ser_prefix tx @ b))"
proof (cases "signatures tx = []")
  case True
  then have "tx_inputs tx = []" using assms by (simp add: tx_ok_def)
  then show ?thesis using True by (simp add: ser_transaction_def)
next
  case False
  then show ?thesis
    using assms list_all2_lengthD [of _ "tx_inputs tx" "signatures tx"]
    by (auto simp: ser_transaction_def tx_ok_def)
qed

lemma extend_fields:
  "tx_version (transaction_prefix.extend p m) = tx_version p"
  "unlockTime (transaction_prefix.extend p m) = unlockTime p"
  "tx_inputs (transaction_prefix.extend p m) = tx_inputs p"
  "tx_outputs (transaction_prefix.extend p m) = tx_outputs p"
  "tx_extra (transaction_prefix.extend p m) = tx_extra p"
  "signatures (transaction_prefix.extend p \<lparr>signatures = sigs\<rparr>) = sigs"
  by (simp_all add: transaction_prefix.extend_def)

lemma par_transaction_iff:
  "par_transaction s = Inr (tx, r) \<longleftrightarrow> tx_ok tx \<and> (\<exists>b. ser_transaction tx = Inr b \<and> s = b @ r)"
proof
  assume "par_transaction s = Inr (tx, r)"
  then obtain p t sigs where p: "par_prefix s = Inr (p, t)" "par_signatures (tx_inputs p) t = Inr (sigs, r)"
    and tx: "tx = transaction_prefix.extend p \<lparr>signatures = sigs\<rparr>"
    by (auto simp: par_transaction_def reader_simps)
  obtain b where b: "ser_signatures (tx_inputs p) sigs = Inr b" "t = b @ r"
    and sigs: "list_all2 (\<lambda>i ss. length ss = getSignaturesCount i \<and> list_all (\<lambda>b. length b = 64) ss) (tx_inputs p) sigs"
    using p(2) by (auto simp: par_signatures_iff)
  have ok: "tx_ok tx"
    using p(1) sigs by (simp add: tx tx_ok_def par_prefix_iff prefix_ok_def extend_fields)
  moreover have "ser_transaction tx = Inr (ser_prefix p @ b)"
    using ser_transaction_ok [OF ok] b(1) by (simp add: tx extend_fields ser_prefix_def)
  ultimately show "tx_ok tx \<and> (\<exists>b. ser_transaction tx = Inr b \<and> s = b @ r)"
    using p(1) b(2) by (auto simp: par_prefix_iff)
next
  assume "tx_ok tx \<and> (\<exists>b. ser_transaction tx = Inr b \<and> s = b @ r)"
  then obtain b where ok: "tx_ok tx" and b: "ser_signatures (tx_inputs tx) (signatures tx) = Inr b"
    "s = ser_prefix tx @ b @ r"
    by (auto simp: ser_transaction_ok split: sum.splits)
  define p where "p = transaction_prefix.truncate tx"
  have tx: "tx = transaction_prefix.extend p \<lparr>signatures = signatures tx\<rparr>"
    by (cases tx) (simp add: p_def transaction_prefix.truncate_def transaction_prefix.extend_def)
  have f: "tx_inputs tx = tx_inputs p" "ser_prefix tx = ser_prefix p" "prefix_ok p"
    using ok by (simp_all add: p_def transaction_prefix.truncate_def tx_ok_def prefix_ok_def ser_prefix_def)
  have "par_prefix s = Inr (p, b @ r)" using b f by (simp add: par_prefix_iff)
  moreover have "par_signatures (tx_inputs p) (b @ r) = Inr (signatures tx, r)"
    using b(1) f ok by (simp add: par_signatures_iff tx_ok_def)
  ultimately show "par_transaction s = Inr (tx, r)"
    by (simp add: par_transaction_def rbind_def rret_def tx [symmetric])
qed

lemma nonce_bytes: "length n = 4 \<Longrightarrow> nat_le 4 (unat (of_nat (le_nat n) :: u32)) = n"
  using le_nat_less [of n] nat_le_le_nat [of n] by (simp add: unat_of_nat_u32)

lemma bytes_nonce: "(of_nat (le_nat (nat_le 4 (unat (n :: u32)))) :: u32) = n"
  by (simp add: le_nat_nat_le unat_bounds)

lemma par_header_iff: "par_header s = Inr (x, r) \<longleftrightarrow> header_ok x \<and> s = ser_header x @ r"
proof
  assume "par_header s = Inr (x, r)"
  then show "header_ok x \<and> s = ser_header x @ r"
    by (auto simp: par_header_def reader_simps basic_iffs read_bytes_iff ser_header_def header_ok_def nonce_bytes)
next
  assume "header_ok x \<and> s = ser_header x @ r"
  then show "par_header s = Inr (x, r)"
    by (simp add: par_header_def rbind_def rret_def ser_header_def header_ok_def u8_read_write u64_read_write
        pod32.read_write read_bytes_append bytes_nonce)
qed

lemma block_extend_fields:
  "ser_header (block_header.extend h m) = ser_header h" "header_ok (block_header.extend h m) = header_ok h"
  "baseTransaction (block_header.extend h \<lparr>baseTransaction = t, transactionHashes = hs\<rparr>) = t"
  "transactionHashes (block_header.extend h \<lparr>baseTransaction = t, transactionHashes = hs\<rparr>) = hs"
  by (simp_all add: block_header.extend_def ser_header_def header_ok_def)

lemma par_block_iff:
  "par_block s = Inr (b, r) \<longleftrightarrow> block_ok b \<and> (\<exists>w. ser_block b = Inr w \<and> s = w @ r)"
proof
  assume "par_block s = Inr (b, r)"
  then obtain h t tx u hs where "par_header s = Inr (h, t)" "par_transaction t = Inr (tx, u)"
    "read_vector (read_pod 32) u = Inr (hs, r)"
    "b = block_header.extend h \<lparr>baseTransaction = tx, transactionHashes = hs\<rparr>"
    by (auto simp: par_block_def reader_simps)
  then show "block_ok b \<and> (\<exists>w. ser_block b = Inr w \<and> s = w @ r)"
    by (auto simp: block_ok_def block_extend_fields ser_block_def par_header_iff par_transaction_iff pods.accepts_iff)
next
  assume a: "block_ok b \<and> (\<exists>w. ser_block b = Inr w \<and> s = w @ r)"
  then obtain t where t: "ser_transaction (baseTransaction b) = Inr t"
    "s = ser_header b @ t @ write_vector write_pod (transactionHashes b) @ r"
    by (auto simp: ser_block_def split: sum.splits)
  define h where "h = block_header.truncate b"
  have b: "b = block_header.extend h \<lparr>baseTransaction = baseTransaction b, transactionHashes = transactionHashes b\<rparr>"
    by (cases b) (simp add: h_def block_header.truncate_def block_header.extend_def)
  have h: "ser_header b = ser_header h" "header_ok b = header_ok h"
    by (simp_all add: h_def block_header.truncate_def ser_header_def header_ok_def)
  have "par_header s = Inr (h, t @ write_vector write_pod (transactionHashes b) @ r)"
    using a t h by (simp add: par_header_iff block_ok_def)
  moreover have "par_transaction (t @ write_vector write_pod (transactionHashes b) @ r)
      = Inr (baseTransaction b, write_vector write_pod (transactionHashes b) @ r)"
    using a t by (simp add: par_transaction_iff block_ok_def)
  moreover have "read_vector (read_pod 32) (write_vector write_pod (transactionHashes b) @ r)
      = Inr (transactionHashes b, r)"
    using a by (simp add: pods.accepts_iff block_ok_def)
  ultimately show "par_block s = Inr (b, r)"
    by (simp add: par_block_def rbind_def rret_def b [symmetric])
qed

section \<open>Properties\<close>

text \<open>
  C16: the canonical form of a transaction is unique: a byte string is accepted as a transaction exactly
  when the transaction is well formed and the byte string is what is written for it.
\<close>

theorem transaction_canonical:
  "tx_from_bytes b = Some tx \<longleftrightarrow> tx_ok tx \<and> tx_to_bytes tx = Some b"
  using par_transaction_iff [of b tx "[]"]
  by (auto simp: tx_from_bytes_def tx_to_bytes_def array_from_def array_to_def split: sum.splits prod.splits)

text \<open>C17: the same for a block, with its header, its base transaction and its transaction hashes.\<close>

theorem block_canonical:
  "block_from_bytes b = Some blk \<longleftrightarrow> block_ok blk \<and> block_to_bytes blk = Some b"
  using par_block_iff [of b blk "[]"]
  by (auto simp: block_from_bytes_def block_to_bytes_def array_from_def array_to_def split: sum.splits prod.splits)

text \<open>
  A well-formed transaction can always be written, and reading it back, with any bytes after it,
  gives the transaction and those bytes.
\<close>

lemma transaction_roundtrip:
  assumes "tx_ok tx"
  shows "\<exists>b. ser_transaction tx = Inr b \<and> (\<forall>s. par_transaction (b @ s) = Inr (tx, s))"
proof -
  have "\<exists>b. ser_signatures (tx_inputs tx) (signatures tx) = Inr b"
    using assms unfolding tx_ok_def
  proof -
    assume "prefix_ok tx \<and> list_all2 (\<lambda>inp sigs. length sigs = getSignaturesCount inp
      \<and> list_all (\<lambda>s. length s = 64) sigs) (tx_inputs tx) (signatures tx)"
    then have "list_all2 (\<lambda>inp sigs. length sigs = getSignaturesCount inp
      \<and> list_all (\<lambda>s. length s = 64) sigs) (tx_inputs tx) (signatures tx)" ..
    then show ?thesis by (induction rule: list_all2_induct) (auto split: sum.splits)
  qed
  then obtain b where "ser_transaction tx = Inr b" using ser_transaction_ok [OF assms] by auto
  then show ?thesis using assms by (auto simp: par_transaction_iff)
qed

end
