(* ===== verification/TxStream.thy ===== *)
theory TxStream
  imports TxSerial
begin

text \<open>
  The stream operators of \<open>src/stream/transaction.cpp\<close> and \<open>src/stream/block.cpp\<close>, used for the files
  of the node. They are a second format, close to the canonical one: the extra field and the tags go
  through the operator of \<open>uint8_t\<close>, which writes a varint. An \<open>sw_\<close> definition is an \<open>operator<<\<close>,
  an \<open>sr_\<close> definition an \<open>operator>>\<close>.
\<close>

section \<open>Definitions\<close>

definition tag_getter :: "transaction_input \<Rightarrow> u8" where
  "tag_getter i = (case i of BaseInput _ \<Rightarrow> 0xFF | KeyInput _ _ _ \<Rightarrow> 0x2 | MultisigInput _ _ _ \<Rightarrow> 0x3)"

definition target_tag :: "output_target \<Rightarrow> u8" where
  "target_tag t = (case t of KeyOutput _ \<Rightarrow> 0x2 | MultisigOutput _ _ \<Rightarrow> 0x3)"

definition sw_input :: "transaction_input \<Rightarrow> bytes" where
  "sw_input inp =
     write_u8 (tag_getter inp)
     @ (case inp of
          BaseInput b \<Rightarrow> write_u32 b
        | KeyInput a offsets ki \<Rightarrow> write_u64 a @ write_vector write_u32 offsets @ write_pod ki
        | MultisigInput a n i \<Rightarrow> write_u64 a @ write_u8 n @ write_u32 i)"

definition sr_input :: "transaction_input reader" where
  "sr_input =
     rbind read_byte (\<lambda>tag.
       if tag = 0xFF then rbind read_u32 (\<lambda>b. rret (BaseInput b))
       else if tag = 0x2 then
         rbind read_u64 (\<lambda>a. rbind (read_vector read_u32) (\<lambda>offsets. rbind (read_pod 32) (\<lambda>ki.
           rret (KeyInput a offsets ki))))
       else if tag = 0x3 then
         rbind read_u64 (\<lambda>a. rbind read_u8 (\<lambda>n. rbind read_u32 (\<lambda>i. rret (MultisigInput a n i))))
       else rthrow UnknownVariantTag)"

definition sw_target :: "output_target \<Rightarrow> bytes" where
  "sw_target t =
     write_u8 (target_tag t)
     @ (case t of
          KeyOutput k \<Rightarrow> write_pod k
        | MultisigOutput ks n \<Rightarrow> write_vector write_pod ks @ write_u8 n)"

definition sr_target :: "output_target reader" where
  "sr_target =
     rbind read_byte (\<lambda>tag.
       if tag = 0x2 then rbind (read_pod 32) (\<lambda>k. rret (KeyOutput k))
       else if tag = 0x3 then
         rbind (read_vector (read_pod 32)) (\<lambda>ks. rbind read_u8 (\<lambda>n. rret (MultisigOutput ks n)))
       else rthrow UnknownVariantTag)"

definition sw_output :: "transaction_output \<Rightarrow> bytes" where
  "sw_output out = write_u64 (out_amount out) @ sw_target (out_target out)"

definition sr_output :: "transaction_output reader" where
  "sr_output = rbind read_u64 (\<lambda>a. rbind sr_target (\<lambda>t. rret \<lparr>out_amount = a, out_target = t\<rparr>))"

definition sw_prefix :: "'a transaction_prefix_scheme \<Rightarrow> bytes" where
  "sw_prefix tx =
     write_u8 (tx_version tx) @ write_u64 (unlockTime tx) @ write_vector sw_input (tx_inputs tx)
     @ write_vector sw_output (tx_outputs tx) @ write_vector write_u8 (tx_extra tx)"

definition sr_prefix :: "transaction_prefix reader" where
  "sr_prefix =
     rbind read_u8 (\<lambda>version. rbind read_u64 (\<lambda>unlock.
     rbind (read_vector sr_input) (\<lambda>ins. rbind (read_vector sr_output) (\<lambda>outs.
     rbind (read_vector read_u8) (\<lambda>extra.
       rret \<lparr>tx_version = version, unlockTime = unlock, tx_inputs = ins, tx_outputs = outs, tx_extra = extra\<rparr>)))))"

text \<open>The writer does not compare the number of signatures with the number the input asks for.\<close>

definition sw_transaction :: "transaction \<Rightarrow> exn + bytes" where
  "sw_transaction tx =
     (let empty = (signatures tx = [])
      in if \<not> empty \<and> length (tx_inputs tx) \<noteq> length (signatures tx) then Inl SignaturesSize
      else if empty then
        if list_ex (\<lambda>i. getSignaturesCount i \<noteq> 0) (tx_inputs tx) then Inl SignaturesNotExpected
        else Inr (sw_prefix tx)
      else Inr (sw_prefix tx @ concat (map (\<lambda>s. concat (map write_pod s)) (signatures tx))))"

definition sr_transaction :: "transaction reader" where
  "sr_transaction =
     rbind sr_prefix (\<lambda>p. rbind (par_signatures (tx_inputs p)) (\<lambda>sigs.
       rret (transaction_prefix.extend p \<lparr>signatures = sigs\<rparr>)))"

definition sw_index :: "transaction_index \<Rightarrow> bytes" where
  "sw_index v = write_u32 (ti_block v) @ write_u16 (ti_transaction v)"

definition sr_index :: "transaction_index reader" where
  "sr_index = rbind read_u32 (\<lambda>b. rbind read_u16 (\<lambda>t. rret \<lparr>ti_block = b, ti_transaction = t\<rparr>))"

text \<open>A \<open>bool\<close> is one raw byte.\<close>

definition write_bool :: "bool \<Rightarrow> bytes" where
  "write_bool v = [if v then 1 else 0]"

definition read_bool :: "bool reader" where
  "read_bool = rbind read_byte (\<lambda>b. rret (b \<noteq> 0))"

definition sw_usage :: "multisignature_output_usage \<Rightarrow> bytes" where
  "sw_usage v = sw_index (mou_transactionIndex v) @ write_u16 (mou_outputIndex v) @ write_bool (mou_isUsed v)"

definition sr_usage :: "multisignature_output_usage reader" where
  "sr_usage =
     rbind sr_index (\<lambda>t. rbind read_u16 (\<lambda>i. rbind read_bool (\<lambda>u.
       rret \<lparr>mou_transactionIndex = t, mou_outputIndex = i, mou_isUsed = u\<rparr>)))"

definition sw_entry :: "transaction_entry \<Rightarrow> exn + bytes" where
  "sw_entry v =
     (case sw_transaction (te_tx v) of
        Inl e \<Rightarrow> Inl e
      | Inr t \<Rightarrow> Inr (t @ write_vector write_u32 (m_global_output_indexes v)))"

definition sr_entry :: "transaction_entry reader" where
  "sr_entry =
     rbind sr_transaction (\<lambda>t. rbind (read_vector read_u32) (\<lambda>g.
       rret \<lparr>te_tx = t, m_global_output_indexes = g\<rparr>))"

definition sw_details :: "transaction_details \<Rightarrow> exn + bytes" where
  "sw_details v =
     (case sw_transaction (td_tx v) of
        Inl e \<Rightarrow> Inl e
      | Inr t \<Rightarrow> Inr (write_pod (td_id v) @ write_u64 (blobSize v) @ write_u64 (td_fee v) @ t
          @ write_u32 (bi_height (maxUsedBlock v)) @ write_pod (bi_id (maxUsedBlock v))
          @ write_u32 (bi_height (lastFailedBlock v)) @ write_pod (bi_id (lastFailedBlock v))
          @ write_bool (keptByBlock v) @ write_u64 (receiveTime v)))"

definition sr_details :: "transaction_details reader" where
  "sr_details =
     rbind (read_pod 32) (\<lambda>i. rbind read_u64 (\<lambda>size. rbind read_u64 (\<lambda>fee. rbind sr_transaction (\<lambda>t.
     rbind read_u32 (\<lambda>mh. rbind (read_pod 32) (\<lambda>mi. rbind read_u32 (\<lambda>lh. rbind (read_pod 32) (\<lambda>li.
     rbind read_bool (\<lambda>kept. rbind read_u64 (\<lambda>time.
       rret \<lparr>maxUsedBlock = \<lparr>bi_height = mh, bi_id = mi\<rparr>, lastFailedBlock = \<lparr>bi_height = lh, bi_id = li\<rparr>,
             td_id = i, td_tx = t, blobSize = size, td_fee = fee, keptByBlock = kept, receiveTime = time\<rparr>))))))))))"

text \<open>
  The operators of \<open>block_header_t\<close> leave the timestamp out. The reader changes a header in place, so
  the model takes the header \<open>v\<close> it starts from.
\<close>

definition sw_header :: "'a block_header_scheme \<Rightarrow> bytes" where
  "sw_header h =
     write_u8 (majorVersion h) @ write_u8 (minorVersion h) @ write_pod (previousBlockHash h)
     @ nat_le 4 (unat (nonce h))"

definition sr_header :: "block_header \<Rightarrow> block_header reader" where
  "sr_header v =
     rbind read_u8 (\<lambda>major. rbind read_u8 (\<lambda>minor. rbind (read_pod 32) (\<lambda>prev. rbind (read_bytes 4) (\<lambda>n.
       rret (v\<lparr>majorVersion := major, minorVersion := minor, previousBlockHash := prev,
               nonce := of_nat (le_nat n)\<rparr>)))))"

definition sw_block :: "block \<Rightarrow> exn + bytes" where
  "sw_block b =
     (case sw_transaction (baseTransaction b) of
        Inl e \<Rightarrow> Inl e
      | Inr t \<Rightarrow> Inr (sw_header b @ t @ write_vector write_pod (transactionHashes b)))"

definition sr_block :: "block_header \<Rightarrow> block reader" where
  "sr_block v =
     rbind (sr_header v) (\<lambda>h. rbind sr_transaction (\<lambda>t. rbind (read_vector (read_pod 32)) (\<lambda>hs.
       rret (block_header.extend h \<lparr>baseTransaction = t, transactionHashes = hs\<rparr>))))"

definition sw_address :: "account_public_address \<Rightarrow> bytes" where
  "sw_address v = write_pod (spendPublicKey v) @ write_pod (viewPublicKey v)"

definition sr_address :: "account_public_address reader" where
  "sr_address =
     rbind (read_pod 32) (\<lambda>s. rbind (read_pod 32) (\<lambda>w. rret \<lparr>spendPublicKey = s, viewPublicKey = w\<rparr>))"

text \<open>The entries of a block one after the other; the first exception ends the writing.\<close>

fun sw_entries :: "transaction_entry list \<Rightarrow> exn + bytes" where
  "sw_entries [] = Inr []"
| "sw_entries (e # es) =
     (case sw_entry e of
        Inl x \<Rightarrow> Inl x
      | Inr b \<Rightarrow> (case sw_entries es of Inl x \<Rightarrow> Inl x | Inr bs \<Rightarrow> Inr (b @ bs)))"

definition sw_block_entry :: "block_entry \<Rightarrow> exn + bytes" where
  "sw_block_entry v =
     (case sw_block (be_bl v) of
        Inl e \<Rightarrow> Inl e
      | Inr b \<Rightarrow>
          (case sw_entries (be_transactions v) of
             Inl e \<Rightarrow> Inl e
           | Inr ts \<Rightarrow> Inr (b @ write_u32 (be_height v) @ write_u64 (block_cumulative_size v)
               @ write_u64 (cumulative_difficulty v) @ write_u64 (already_generated_coins v)
               @ write_u64 (of_nat (length (be_transactions v))) @ ts)))"

definition sr_block_entry :: "block_header \<Rightarrow> block_entry reader" where
  "sr_block_entry v =
     rbind (sr_block v) (\<lambda>b. rbind read_u32 (\<lambda>h. rbind read_u64 (\<lambda>size. rbind read_u64 (\<lambda>diff.
     rbind read_u64 (\<lambda>coins. rbind (read_vector sr_entry) (\<lambda>ts.
       rret \<lparr>be_bl = b, be_height = h, block_cumulative_size = size, cumulative_difficulty = diff,
             already_generated_coins = coins, be_transactions = ts\<rparr>))))))"

section \<open>Where the two formats agree\<close>

lemma write_u8_small: "unat v < 128 \<Longrightarrow> write_u8 v = [v]"
  by (simp add: write_u8_def writeVarint_nat varint_nat.simps)

lemma write_u8_base: "write_u8 0xFF = [0xFF, 1]"
  by (simp add: write_u8_def writeVarint_nat varint_nat.simps)

fun is_base :: "transaction_input \<Rightarrow> bool" where
  "is_base (BaseInput _) = True"
| "is_base _ = False"

lemma sw_input_ser: "\<not> is_base i \<Longrightarrow> sw_input i = ser_input i"
  by (cases i) (simp_all add: sw_input_def ser_input_def tag_getter_def write_u8_small)

lemma sr_input_par: "sr_input = par_input"
  by (simp add: sr_input_def par_input_def)

lemma sw_target_ser: "sw_target t = ser_target t"
  by (cases t) (simp_all add: sw_target_def ser_target_def target_tag_def write_u8_small)

lemma sr_target_par: "sr_target = par_target"
  by (simp add: sr_target_def par_target_def)

lemma sw_output_ser: "sw_output out = ser_output out"
  by (simp add: sw_output_def ser_output_def sw_target_ser)

lemma sr_output_par: "sr_output = par_output"
  by (simp add: sr_output_def par_output_def sr_target_par)

interpretation u8s: canonical_codec "write_vector write_u8" "read_vector read_u8"
    "\<lambda>xs. list_all (\<lambda>_. True) xs \<and> size_ok xs"
  by (rule u8.vector_canonical_codec)

lemma write_inputs_ser:
  assumes "list_all (\<lambda>i. \<not> is_base i) ins"
  shows "write_vector sw_input ins = write_vector ser_input ins"
proof -
  have "map sw_input ins = map ser_input ins" using assms by (simp add: sw_input_ser list_all_iff)
  then show ?thesis by (simp only: write_vector_def)
qed

lemma sr_prefix_write:
  assumes "prefix_ok p" "list_all (\<lambda>i. \<not> is_base i) (tx_inputs p)"
  shows "sr_prefix (sw_prefix p @ s) = Inr (transaction_prefix.truncate p, s)"
  using assms
  by (simp add: sr_prefix_def sw_prefix_def rbind_def rret_def prefix_ok_def u8_read_write u64_read_write
      write_inputs_ser sr_input_par inputs.read_write sr_output_par sw_output_ser [abs_def] outputs.read_write
      u8s.read_write transaction_prefix.truncate_def)

text \<open>Transactions spend outputs by keys or signatures; only the base transaction of a block has a base input.\<close>

lemma concat_signatures:
  assumes "list_all2 (\<lambda>i ss. length ss = getSignaturesCount i \<and> list_all (\<lambda>b. length b = 64) ss) ins sigs"
  shows "ser_signatures ins sigs = Inr (concat (map (\<lambda>s. concat (map write_pod s)) sigs))"
  using assms by (induction rule: list_all2_induct) simp_all

lemma sr_transaction_write:
  assumes "tx_ok tx" "list_all (\<lambda>i. \<not> is_base i) (tx_inputs tx)"
  shows "\<exists>w. sw_transaction tx = Inr w \<and> (\<forall>s. sr_transaction (w @ s) = Inr (tx, s))"
proof -
  have sigs: "list_all2 (\<lambda>i ss. length ss = getSignaturesCount i \<and> list_all (\<lambda>b. length b = 64) ss)
      (tx_inputs tx) (signatures tx)" and ok: "prefix_ok tx"
    using assms(1) by (simp_all add: tx_ok_def)
  define c where "c = concat (map (\<lambda>s. concat (map write_pod s)) (signatures tx))"
  have w: "sw_transaction tx = Inr (sw_prefix tx @ c)"
    using list_all2_lengthD [OF sigs] by (auto simp: sw_transaction_def c_def)
  define p where "p = transaction_prefix.truncate tx"
  have tx: "transaction_prefix.extend p \<lparr>signatures = signatures tx\<rparr> = tx"
    by (cases tx) (simp add: p_def transaction_prefix.truncate_def transaction_prefix.extend_def)
  have ins: "tx_inputs p = tx_inputs tx" by (simp add: p_def transaction_prefix.truncate_def)
  have "par_signatures (tx_inputs tx) (c @ s) = Inr (signatures tx, s)" for s
    using sigs concat_signatures [OF sigs] by (simp add: par_signatures_iff c_def)
  then have "sr_transaction (sw_prefix tx @ c @ s) = Inr (tx, s)" for s
    using sr_prefix_write [OF ok assms(2), of "c @ s"]
    by (simp add: sr_transaction_def rbind_def rret_def p_def [symmetric] ins tx)
  then show ?thesis using w by auto
qed

section \<open>Properties\<close>

text \<open>
  C28: a transaction without a base input survives the stream operators: what \<open>operator<<\<close> writes,
  \<open>operator>>\<close> reads back.
\<close>

theorem stream_roundtrip:
  assumes "tx_ok tx" "\<forall>i \<in> set (tx_inputs tx). \<not> is_base i"
  shows "\<exists>w. sw_transaction tx = Inr w \<and> (\<forall>s. sr_transaction (w @ s) = Inr (tx, s))"
  using sr_transaction_write assms by (simp add: list_all_iff)

theorem stream_roundtrip_witness:
  "\<exists>w. sw_transaction \<lparr>tx_version = 1, unlockTime = 0,
      tx_inputs = [KeyInput 9 [1, 2] (replicate 32 3)],
      tx_outputs = [\<lparr>out_amount = 5, out_target = KeyOutput (replicate 32 7)\<rparr>], tx_extra = [0xFF],
      signatures = [[replicate 64 1, replicate 64 2]]\<rparr> = Inr w"
  using stream_roundtrip [of "\<lparr>tx_version = 1, unlockTime = 0,
      tx_inputs = [KeyInput 9 [1, 2] (replicate 32 3)],
      tx_outputs = [\<lparr>out_amount = 5, out_target = KeyOutput (replicate 32 7)\<rparr>], tx_extra = [0xFF],
      signatures = [[replicate 64 1, replicate 64 2]]\<rparr>"]
  by (auto simp: tx_ok_def prefix_ok_def output_ok_def)

text \<open>
  C29: a base input does not survive: its tag 0xFF is written as the varint FF 01 and read as one byte,
  so that every base input is read back with block index 1, followed by its own index as left-over bytes.
\<close>

theorem stream_base_input_lost:
  "sr_input (sw_input (BaseInput b) @ s) = Inr (BaseInput 1, write_u32 b @ s)"
proof -
  have one: "[1] = write_u32 1" by (simp add: write_u32_def writeVarint_nat varint_nat.simps)
  have "sw_input (BaseInput b) @ s = 0xFF # write_u32 1 @ write_u32 b @ s"
    unfolding one [symmetric] by (simp add: sw_input_def tag_getter_def write_u8_base)
  then show ?thesis by (simp add: sr_input_def rbind_def rret_def u32_read_write)
qed

text \<open>
  The stream operators of a block header lose the timestamp: the reader returns the written header
  with the timestamp of the header object it was given.
\<close>

lemma stream_header_timestamp_lost:
  assumes "length (previousBlockHash h) = 32"
  shows "sr_header v (sw_header h @ s) = Inr (h\<lparr>timestamp := timestamp v\<rparr>, s)"
  using assms
  by (simp add: sr_header_def sw_header_def rbind_def rret_def u8_read_write pod32.read_write
      read_bytes_append bytes_nonce)

end
