(* ===== verification/TxExtra.thy ===== *)
theory TxExtra
  imports TxTypes
begin

text \<open>
  \<open>src/cryptonote/core/transaction/TransactionExtra.cpp\<close>: the fields in the extra bytes of a
  transaction. The parser returns its verdict together with the fields it has found so far, since one
  caller uses them whatever the verdict is.
\<close>

section \<open>Definitions\<close>

datatype transaction_extra =
    ExtraPadding nat
  | ExtraPublicKey public_key_t
  | ExtraNonce bytes

definition TX_EXTRA_PADDING_MAX_COUNT :: nat where
  "TX_EXTRA_PADDING_MAX_COUNT = 255"

definition TX_EXTRA_NONCE_MAX_COUNT :: nat where
  "TX_EXTRA_NONCE_MAX_COUNT = 255"

text \<open>The loop over padding bytes; \<open>None\<close> for a byte that is not zero.\<close>

fun padding_loop :: "nat \<Rightarrow> bytes \<Rightarrow> (nat \<times> bytes) option" where
  "padding_loop sz [] = Some (sz, [])"
| "padding_loop sz (pad # s) =
     (if sz \<le> TX_EXTRA_PADDING_MAX_COUNT
      then if pad \<noteq> 0 then None else padding_loop (sz + 1) s
      else Some (sz, pad # s))"

lemma padding_loop_length: "padding_loop sz s = Some (n, r) \<Longrightarrow> length r \<le> length s"
  by (induction sz s rule: padding_loop.induct) (auto split: if_splits)

function parse_loop :: "bytes \<Rightarrow> transaction_extra list \<Rightarrow> bool \<times> transaction_extra list" where
  "parse_loop [] fl = (True, fl)"
| "parse_loop (tag # s) fl =
     (if tag = 0 then
        (case padding_loop 1 s of
           None \<Rightarrow> (False, fl)
         | Some (sz, s') \<Rightarrow>
             if TX_EXTRA_PADDING_MAX_COUNT < sz then (False, fl)
             else parse_loop s' (fl @ [ExtraPadding sz]))
      else if tag = 1 then
        if length s < 32 then (False, fl)
        else parse_loop (drop 32 s) (fl @ [ExtraPublicKey (take 32 s)])
      else if tag = 2 then
        (case s of
           [] \<Rightarrow> (False, fl)
         | sz # s' \<Rightarrow>
             if 0 < sz then
               if length s' < unat sz then (False, fl)
               else parse_loop (drop (unat sz) s') (fl @ [ExtraNonce (take (unat sz) s')])
             else parse_loop s' (fl @ [ExtraNonce []]))
      else parse_loop s fl)"
  by pat_completeness auto

termination parse_loop
  by (relation "measure (\<lambda>(s, fl). length s)") (auto dest: padding_loop_length)

definition parseTransactionExtra :: "bytes \<Rightarrow> bool \<times> transaction_extra list" where
  "parseTransactionExtra transactionExtra = parse_loop transactionExtra []"

definition addTransactionPublicKeyToExtra :: "bytes \<Rightarrow> public_key_t \<Rightarrow> bytes" where
  "addTransactionPublicKeyToExtra extra tx_pub_key = extra @ [1] @ tx_pub_key"

definition addExtraNonceToTransactionExtra :: "bytes \<Rightarrow> bytes \<Rightarrow> bytes option" where
  "addExtraNonceToTransactionExtra extra extra_nonce =
     (if TX_EXTRA_NONCE_MAX_COUNT < length extra_nonce then None
      else Some (extra @ [2, of_nat (length extra_nonce)] @ extra_nonce))"

text \<open>The visitor of \<open>writeTransactionExtra\<close> on one field; \<open>None\<close> for a refusal.\<close>

fun write_field :: "bytes \<Rightarrow> transaction_extra \<Rightarrow> bytes option" where
  "write_field extra (ExtraPadding sz) =
     (if TX_EXTRA_PADDING_MAX_COUNT < sz then None else Some (extra @ replicate sz 0))"
| "write_field extra (ExtraPublicKey k) = Some (addTransactionPublicKeyToExtra extra k)"
| "write_field extra (ExtraNonce n) = addExtraNonceToTransactionExtra extra n"

fun writeTransactionExtra :: "bytes \<Rightarrow> transaction_extra list \<Rightarrow> bytes option" where
  "writeTransactionExtra extra [] = Some extra"
| "writeTransactionExtra extra (f # fs) =
     (case write_field extra f of None \<Rightarrow> None | Some extra \<Rightarrow> writeTransactionExtra extra fs)"

text \<open>\<open>findTransactionExtraFieldByType\<close> for the two types it is used with.\<close>

fun find_public_key :: "transaction_extra list \<Rightarrow> public_key_t option" where
  "find_public_key [] = None"
| "find_public_key (f # fs) = (case f of ExtraPublicKey k \<Rightarrow> Some k | _ \<Rightarrow> find_public_key fs)"

fun find_nonce :: "transaction_extra list \<Rightarrow> bytes option" where
  "find_nonce [] = None"
| "find_nonce (f # fs) = (case f of ExtraNonce n \<Rightarrow> Some n | _ \<Rightarrow> find_nonce fs)"

definition getTransactionPublicKeyFromExtra :: "bytes \<Rightarrow> public_key_t" where
  "getTransactionPublicKeyFromExtra extra =
     (case find_public_key (snd (parseTransactionExtra extra)) of None \<Rightarrow> replicate 32 0 | Some k \<Rightarrow> k)"

definition setPaymentIdToTransactionExtraNonce :: "hash_t \<Rightarrow> bytes" where
  "setPaymentIdToTransactionExtraNonce payment_id = [0] @ payment_id"

definition getPaymentIdFromTransactionExtraNonce :: "bytes \<Rightarrow> hash_t option" where
  "getPaymentIdFromTransactionExtraNonce extra_nonce =
     (if 32 + 1 \<noteq> length extra_nonce then None
      else if extra_nonce ! 0 \<noteq> 0 then None
      else Some (drop 1 extra_nonce))"

definition getPaymentIdFromTxExtra :: "bytes \<Rightarrow> hash_t option" where
  "getPaymentIdFromTxExtra extra =
     (let (ok, fl) = parseTransactionExtra extra
      in if \<not> ok then None
      else case find_nonce fl of
          None \<Rightarrow> None
        | Some n \<Rightarrow> getPaymentIdFromTransactionExtraNonce n)"

section \<open>Parsing what was written\<close>

text \<open>Padding runs to the end of the extra bytes, so it can only come last.\<close>

fun fields_ok :: "transaction_extra list \<Rightarrow> bool" where
  "fields_ok [] = True"
| "fields_ok (ExtraPadding sz # fs) \<longleftrightarrow> 1 \<le> sz \<and> sz \<le> 255 \<and> fs = []"
| "fields_ok (ExtraPublicKey k # fs) \<longleftrightarrow> length k = 32 \<and> fields_ok fs"
| "fields_ok (ExtraNonce n # fs) \<longleftrightarrow> length n \<le> 255 \<and> fields_ok fs"

fun field_bytes :: "transaction_extra \<Rightarrow> bytes" where
  "field_bytes (ExtraPadding sz) = replicate sz 0"
| "field_bytes (ExtraPublicKey k) = 1 # k"
| "field_bytes (ExtraNonce n) = 2 # of_nat (length n) # n"

lemma writeTransactionExtra_ok:
  "fields_ok fs \<Longrightarrow> writeTransactionExtra extra fs = Some (extra @ concat (map field_bytes fs))"
  by (induction fs arbitrary: extra rule: fields_ok.induct)
    (simp_all add: TX_EXTRA_PADDING_MAX_COUNT_def addTransactionPublicKeyToExtra_def
      addExtraNonceToTransactionExtra_def TX_EXTRA_NONCE_MAX_COUNT_def)

lemma padding_loop_zeros: "sz + n \<le> 256 \<Longrightarrow> padding_loop sz (replicate n 0) = Some (sz + n, [])"
  by (induction n arbitrary: sz) (simp_all add: TX_EXTRA_PADDING_MAX_COUNT_def)

lemma nonce_length: "length n \<le> 255 \<Longrightarrow> unat (of_nat (length n) :: u8) = length n"
  by (simp add: unat_of_nat_u8)

lemma parse_nonce:
  assumes "length n \<le> 255"
  shows "parse_loop (2 # of_nat (length n) # n @ s) fl = parse_loop s (fl @ [ExtraNonce n])"
proof -
  have "0 < (of_nat (length n) :: u8) \<longleftrightarrow> n \<noteq> []"
    using nonce_length [OF assms] by (simp add: word_less_nat_alt)
  then show ?thesis by (auto simp: nonce_length [OF assms])
qed

lemma parse_loop_written:
  "fields_ok fs \<Longrightarrow> parse_loop (concat (map field_bytes fs)) fl = (True, fl @ fs)"
proof (induction fs arbitrary: fl rule: fields_ok.induct)
  case (2 sz fs)
  then obtain n where n: "sz = Suc n" by (cases sz) auto
  then show ?case using 2 by (simp add: padding_loop_zeros TX_EXTRA_PADDING_MAX_COUNT_def)
next
  case (4 n fs)
  then show ?case using parse_nonce [of n "concat (map field_bytes fs)" fl] by simp
qed simp_all

section \<open>Properties\<close>

text \<open>
  C30: fields with keys of 32 bytes, nonces of at most 255 bytes and padding only at the end are written
  to extra bytes from which the parser gets the same fields back.
\<close>

theorem extra_roundtrip:
  assumes "fields_ok fs"
  shows "\<exists>b. writeTransactionExtra [] fs = Some b \<and> parseTransactionExtra b = (True, fs)"
  using writeTransactionExtra_ok [OF assms, of "[]"] parse_loop_written [OF assms, of "[]"]
  by (simp add: parseTransactionExtra_def)

theorem extra_roundtrip_witness:
  "\<exists>b. writeTransactionExtra [] [ExtraPublicKey (replicate 32 9), ExtraNonce [1, 2, 3], ExtraPadding 4] = Some b"
  using extra_roundtrip [of "[ExtraPublicKey (replicate 32 9), ExtraNonce [1, 2, 3], ExtraPadding 4]"] by auto

text \<open>
  The payment id put into the extra bytes next to the public key is found again, and so is the key.
\<close>

lemma payment_id_found:
  assumes "length k = 32" "length pid = 32"
    and "addExtraNonceToTransactionExtra (addTransactionPublicKeyToExtra [] k)
      (setPaymentIdToTransactionExtraNonce pid) = Some extra"
  shows "getPaymentIdFromTxExtra extra = Some pid \<and> getTransactionPublicKeyFromExtra extra = k"
proof -
  have "extra = concat (map field_bytes [ExtraPublicKey k, ExtraNonce (0 # pid)])"
    using assms by (simp add: addExtraNonceToTransactionExtra_def addTransactionPublicKeyToExtra_def
        setPaymentIdToTransactionExtraNonce_def TX_EXTRA_NONCE_MAX_COUNT_def)
  then have "parseTransactionExtra extra = (True, [ExtraPublicKey k, ExtraNonce (0 # pid)])"
    using parse_loop_written [of "[ExtraPublicKey k, ExtraNonce (0 # pid)]" "[]"] assms(1,2)
    by (simp add: parseTransactionExtra_def)
  then show ?thesis
    using assms(2) by (simp add: getPaymentIdFromTxExtra_def getTransactionPublicKeyFromExtra_def
        getPaymentIdFromTransactionExtraNonce_def)
qed

end
