(* ===== verification/TreeHash.thy ===== *)
theory TreeHash
  imports Keccak
begin

text \<open>
  \<open>src/crypto/tree-hash.c\<close>: the root of the hash tree over the transactions of a block. A hash is the
  list of its 32 bytes; the arrays \<open>hashes\<close> and \<open>ints\<close> are lists of hashes, so that 64 bytes from
  \<open>ints[i]\<close> on are \<open>ints ! i @ ints ! (i + 1)\<close>.
\<close>

section \<open>Definitions\<close>

function tree_hash_cnt_loop :: "nat \<Rightarrow> nat \<Rightarrow> nat" where
  "tree_hash_cnt_loop pow count =
     (if 0 < pow \<and> pow < count then tree_hash_cnt_loop (2 * pow) count else pow)"
  by pat_completeness auto

termination tree_hash_cnt_loop
  by (relation "measure (\<lambda>(pow, count). count - pow)") auto

definition tree_hash_cnt :: "nat \<Rightarrow> exn + nat" where
  "tree_hash_cnt count =
     (if \<not> 3 \<le> count then Inl AssertFailed
      else if \<not> count \<le> 0x10000000 then Inl AssertFailed
      else Inr (tree_hash_cnt_loop 2 count div 2))"

text \<open>The first loop of \<open>tree_hash\<close> hashes the tail of the input in pairs; it returns \<open>i\<close> and \<open>ints\<close>.\<close>

function tree_hash_first :: "bytes list \<Rightarrow> nat \<Rightarrow> nat \<Rightarrow> nat \<Rightarrow> bytes list \<Rightarrow> nat \<times> bytes list" where
  "tree_hash_first hashes cnt i j ints =
     (if j < cnt
      then tree_hash_first hashes cnt (i + 2) (j + 1) (ints[j := cn_fast_hash (hashes ! i @ hashes ! (i + 1))])
      else (i, ints))"
  by pat_completeness auto

termination tree_hash_first
  by (relation "measure (\<lambda>(hashes, cnt, i, j, ints). cnt - j)") auto

text \<open>One level, in place.\<close>

function tree_hash_level :: "nat \<Rightarrow> nat \<Rightarrow> nat \<Rightarrow> bytes list \<Rightarrow> bytes list" where
  "tree_hash_level cnt i j ints =
     (if j < cnt
      then tree_hash_level cnt (i + 2) (j + 1) (ints[j := cn_fast_hash (ints ! i @ ints ! (i + 1))])
      else ints)"
  by pat_completeness auto

termination tree_hash_level
  by (relation "measure (\<lambda>(cnt, i, j, ints). cnt - j)") auto

function tree_hash_up :: "nat \<Rightarrow> bytes list \<Rightarrow> bytes list" where
  "tree_hash_up cnt ints =
     (if 2 < cnt then tree_hash_up (cnt div 2) (tree_hash_level (cnt div 2) 0 0 ints) else ints)"
  by pat_completeness auto

termination tree_hash_up
  by (relation "measure fst") auto

definition tree_hash :: "bytes list \<Rightarrow> exn + bytes" where
  "tree_hash hashes =
     (let count = length hashes
      in if \<not> 0 < count then Inl AssertFailed
      else if count = 1 then Inr (hashes ! 0)
      else if count = 2 then Inr (cn_fast_hash (hashes ! 0 @ hashes ! 1))
      else
        case tree_hash_cnt count of
          Inl e \<Rightarrow> Inl e
        | Inr cnt \<Rightarrow>
            let first = 2 * cnt - count;
                ints = take first hashes @ replicate (cnt - first) (replicate 32 0);
                (i, ints) = tree_hash_first hashes cnt first first ints
            in if i \<noteq> count then Inl AssertFailed
               else
                 let ints = tree_hash_up cnt ints
                 in Inr (cn_fast_hash (ints ! 0 @ ints ! 1)))"

section \<open>The reference tree\<close>

text \<open>The root of a perfect binary tree over 2^k leaves, from the top.\<close>

fun merkle :: "nat \<Rightarrow> bytes list \<Rightarrow> bytes" where
  "merkle 0 xs = xs ! 0"
| "merkle (Suc k) xs = cn_fast_hash (merkle k (take (2 ^ k) xs) @ merkle k (drop (2 ^ k) xs))"

definition pairup :: "bytes list \<Rightarrow> bytes list" where
  "pairup xs = map (\<lambda>k. cn_fast_hash (xs ! (2 * k) @ xs ! (2 * k + 1))) [0..<length xs div 2]"

text \<open>
  The leaves of the tree over \<open>n\<close> hashes, where \<open>2 ^ m < n \<le> 2 ^ (m + 1)\<close>: the first hashes as they
  are and the rest in pairs, 2^m leaves in all.
\<close>

definition tree_leaves :: "nat \<Rightarrow> bytes list \<Rightarrow> bytes list" where
  "tree_leaves m hashes =
     take (2 ^ (m + 1) - length hashes) hashes @ pairup (drop (2 ^ (m + 1) - length hashes) hashes)"

section \<open>The number of leaves\<close>

declare tree_hash_cnt_loop.simps [simp del] tree_hash_first.simps [simp del]
  tree_hash_level.simps [simp del] tree_hash_up.simps [simp del]

lemma tree_hash_cnt_loop_pow:
  assumes "2 ^ k < count" "0 < k"
  shows "\<exists>m. tree_hash_cnt_loop (2 ^ k) count = 2 ^ Suc m \<and> 2 ^ m < count \<and> count \<le> 2 ^ Suc m \<and> 0 < m"
  using assms
proof (induction "count - 2 ^ k" arbitrary: k rule: less_induct)
  case less
  have u: "tree_hash_cnt_loop (2 ^ k) count = tree_hash_cnt_loop (2 ^ Suc k) count"
    using less.prems by (subst tree_hash_cnt_loop.simps) simp
  show ?case
  proof (cases "2 ^ Suc k < count")
    case True
    have "count - 2 ^ Suc k < count - 2 ^ k" using less.prems(1) by (intro diff_less_mono2) simp_all
    from less.hyps [OF this True] show ?thesis unfolding u by simp
  next
    case False
    then have "tree_hash_cnt_loop (2 ^ Suc k) count = 2 ^ Suc k"
      by (subst tree_hash_cnt_loop.simps) simp
    then show ?thesis using False less.prems u by (intro exI [of _ k]) simp
  qed
qed

lemma tree_hash_cnt_pow:
  assumes "3 \<le> count" "count \<le> 0x10000000"
  obtains m where "tree_hash_cnt count = Inr (2 ^ m)" "2 ^ m < count" "count \<le> 2 ^ Suc m" "0 < m"
proof -
  obtain m where "tree_hash_cnt_loop 2 count = 2 ^ Suc m" "2 ^ m < count" "count \<le> 2 ^ Suc m" "0 < m"
    using tree_hash_cnt_loop_pow [of 1 count] assms(1) by auto
  then show ?thesis using that assms by (simp add: tree_hash_cnt_def)
qed

section \<open>The loops\<close>

lemma tree_hash_first_eq:
  assumes "j \<le> cnt" "cnt \<le> length ints"
  shows "tree_hash_first hashes cnt i j ints =
    (i + 2 * (cnt - j),
     take j ints @ map (\<lambda>k. cn_fast_hash (hashes ! (i + 2 * k) @ hashes ! (i + 2 * k + 1))) [0..<cnt - j]
       @ drop cnt ints)"
  using assms
proof (induction "cnt - j" arbitrary: i j ints)
  case 0
  then show ?case by (simp add: tree_hash_first.simps)
next
  case (Suc d)
  let ?h = "\<lambda>k. cn_fast_hash (hashes ! (i + 2 * k) @ hashes ! (i + 2 * k + 1))"
  have j: "j < cnt" using Suc.hyps(2) by simp
  have step: "tree_hash_first hashes cnt i j ints = tree_hash_first hashes cnt (i + 2) (j + 1) (ints[j := ?h 0])"
    using j by (subst tree_hash_first.simps) simp
  have "cnt - j = Suc (cnt - Suc j)" using j by simp
  then have "[0..<cnt - j] = 0 # map Suc [0..<cnt - Suc j]"
    by (simp add: map_Suc_upt upt_conv_Cons del: upt_Suc)
  then have "map ?h [0..<cnt - j] = ?h 0 # map (\<lambda>k. cn_fast_hash
      (hashes ! (i + 2 + 2 * k) @ hashes ! (i + 2 + 2 * k + 1))) [0..<cnt - Suc j]"
    by (simp add: comp_def)
  moreover have "take (j + 1) (ints[j := ?h 0]) = take j ints @ [?h 0]"
    using j Suc.prems by (simp add: take_Suc_conv_app_nth)
  ultimately show ?case
    unfolding step using Suc.hyps(1) [of "j + 1" "ints[j := ?h 0]" "i + 2"] Suc.hyps(2) Suc.prems j by simp
qed

lemma tree_hash_level_eq:
  assumes "j \<le> cnt" "2 * cnt \<le> length ints" "\<And>k. 2 * j \<le> k \<Longrightarrow> k < 2 * cnt \<Longrightarrow> ints ! k = orig ! k"
  shows "take cnt (tree_hash_level cnt (2 * j) j ints) =
      take j ints @ map (\<lambda>k. cn_fast_hash (orig ! (2 * k) @ orig ! (2 * k + 1))) [j..<cnt]
    \<and> length (tree_hash_level cnt (2 * j) j ints) = length ints"
  using assms
proof (induction "cnt - j" arbitrary: j ints)
  case 0
  then show ?case by (simp add: tree_hash_level.simps)
next
  case (Suc d)
  let ?h = "\<lambda>k. cn_fast_hash (orig ! (2 * k) @ orig ! (2 * k + 1))"
  have j: "j < cnt" using Suc.hyps(2) by simp
  have step: "tree_hash_level cnt (2 * j) j ints = tree_hash_level cnt (2 * (j + 1)) (j + 1) (ints[j := ?h j])"
    using j Suc.prems(3) [of "2 * j"] Suc.prems(3) [of "2 * j + 1"] by (subst tree_hash_level.simps) simp
  have "take (j + 1) (ints[j := ?h j]) = take j ints @ [?h j]"
    using j Suc.prems by (simp add: take_Suc_conv_app_nth)
  moreover have "[j..<cnt] = j # [j + 1..<cnt]" using j by (simp add: upt_conv_Cons)
  ultimately show ?case
    unfolding step using Suc.hyps(1) [of "j + 1" "ints[j := ?h j]"] Suc.hyps(2) Suc.prems j by simp
qed

lemma tree_hash_level_pairup:
  assumes "2 * cnt \<le> length ints"
  shows "take cnt (tree_hash_level cnt 0 0 ints) = pairup (take (2 * cnt) ints)"
    and "length (tree_hash_level cnt 0 0 ints) = length ints"
  using tree_hash_level_eq [of 0 cnt ints ints] assms by (simp_all add: pairup_def min_def)

lemma length_pairup [simp]: "length (pairup xs) = length xs div 2"
  by (simp add: pairup_def)

lemma pairup_split:
  assumes "length xs = 4 * n"
  shows "pairup (take (2 * n) xs) = take n (pairup xs)" "pairup (drop (2 * n) xs) = drop n (pairup xs)"
  using assms by (auto simp: pairup_def list_eq_iff_nth_eq algebra_simps)

lemma merkle_pairup: "length xs = 2 ^ Suc k \<Longrightarrow> merkle (Suc k) xs = merkle k (pairup xs)"
proof (induction k arbitrary: xs)
  case 0
  then show ?case by (simp add: pairup_def)
next
  case (Suc k)
  have len: "length xs = 4 * 2 ^ k" using Suc.prems by simp
  have "merkle (Suc k) (take (2 ^ Suc k) xs) = merkle k (take (2 ^ k) (pairup xs))"
    using Suc.IH [of "take (2 ^ Suc k) xs"] len pairup_split(1) [OF len] by simp
  moreover have "merkle (Suc k) (drop (2 ^ Suc k) xs) = merkle k (drop (2 ^ k) (pairup xs))"
    using Suc.IH [of "drop (2 ^ Suc k) xs"] len pairup_split(2) [OF len] by simp
  ultimately show ?case by (subst merkle.simps(2)) (simp only: merkle.simps(2) [of k "pairup xs"])
qed

lemma tree_hash_up_merkle:
  assumes "0 < m" "2 ^ m \<le> length ints"
  shows "cn_fast_hash (tree_hash_up (2 ^ m) ints ! 0 @ tree_hash_up (2 ^ m) ints ! 1) = merkle m (take (2 ^ m) ints)"
  using assms
proof (induction m arbitrary: ints)
  case (Suc m)
  show ?case
  proof (cases "m = 0")
    case True
    then show ?thesis using Suc.prems(2) by (simp add: tree_hash_up.simps)
  next
    case False
    define level where "level = tree_hash_level (2 ^ m) 0 0 ints"
    have l: "take (2 ^ m) level = pairup (take (2 ^ Suc m) ints)" "length level = length ints"
      using tree_hash_level_pairup [of "2 ^ m" ints] Suc.prems(2) by (simp_all add: level_def)
    have "(1::nat) < 2 ^ m" using False by (intro one_less_power) simp_all
    then have "tree_hash_up (2 ^ Suc m) ints = tree_hash_up (2 ^ m) level"
      by (subst tree_hash_up.simps) (simp add: level_def)
    then show ?thesis
      using Suc.IH [of level] False Suc.prems(2) l merkle_pairup [of "take (2 ^ Suc m) ints" m] by simp
  qed
qed simp

text \<open>
  C19: for 3 to 2^28 transactions \<open>tree_hash\<close> passes all its assertions and returns the root of the
  perfect tree over its leaves, the number of which is the largest power of two below the number of
  transactions.
\<close>

theorem tree_hash_merkle:
  assumes "3 \<le> length hashes" "length hashes \<le> 2 ^ 28"
  shows "\<exists>m. 2 ^ m < length hashes \<and> length hashes \<le> 2 ^ (m + 1)
    \<and> length (tree_leaves m hashes) = 2 ^ m
    \<and> tree_hash hashes = Inr (merkle m (tree_leaves m hashes))"
proof -
  define n where "n = length hashes"
  obtain m where m: "tree_hash_cnt n = Inr (2 ^ m)" "2 ^ m < n" "n \<le> 2 ^ Suc m" "0 < m"
    using tree_hash_cnt_pow [of n] assms by (auto simp: n_def)
  define first where "first = 2 ^ Suc m - n"
  define ints where "ints = take first hashes @ replicate (2 ^ m - first) (replicate 32 (0::u8))"
  have f: "first \<le> 2 ^ m" "first \<le> n" "first + 2 * (2 ^ m - first) = n"
    using m(2,3) by (auto simp: first_def)
  have f': "2 * 2 ^ m - n = first" by (simp add: first_def)
  have li: "length ints = 2 ^ m" using f by (simp add: ints_def n_def)
  have "(n - first) div 2 = 2 ^ m - first" using f(3) by simp
  then have pu: "map (\<lambda>k. cn_fast_hash (hashes ! (first + 2 * k) @ hashes ! (first + 2 * k + 1))) [0..<2 ^ m - first]
      = pairup (drop first hashes)"
    using f by (simp add: pairup_def n_def)
  have leaves: "tree_leaves m hashes = take first hashes @ pairup (drop first hashes)"
    by (simp add: tree_leaves_def first_def n_def)
  have "take first ints = take first hashes" using f(2) by (simp add: ints_def n_def)
  then have "tree_hash_first hashes (2 ^ m) first first ints = (n, tree_leaves m hashes)"
    using tree_hash_first_eq [of first "2 ^ m" ints hashes first] f li pu leaves by simp
  moreover have ll: "length (tree_leaves m hashes) = 2 ^ m"
    using f \<open>(n - first) div 2 = 2 ^ m - first\<close> by (simp add: leaves n_def)
  ultimately have "tree_hash hashes = Inr (merkle m (tree_leaves m hashes))"
    using assms(1) m tree_hash_up_merkle [of m "tree_leaves m hashes"]
    unfolding tree_hash_def Let_def n_def [symmetric] m(1) sum.case f' ints_def [symmetric] by simp
  then show ?thesis using m ll by (auto simp: n_def)
qed

lemma three_leaves:
  assumes "2 ^ m < (3::nat)" "(3::nat) \<le> 2 ^ (m + 1)"
  shows "m = 1"
proof -
  have "m < 2" using assms(1) power_increasing [of 2 m "2::nat"] by (cases "m < 2") auto
  moreover have "m \<noteq> 0" using assms(2) by (cases "m = 0") simp_all
  ultimately show ?thesis by simp
qed

theorem tree_hash_merkle_witness:
  "tree_hash [replicate 32 1, replicate 32 2, replicate 32 3] =
     Inr (cn_fast_hash (replicate 32 1 @ cn_fast_hash (replicate 32 2 @ replicate 32 3)))"
proof -
  let ?h = "[replicate 32 1, replicate 32 2, replicate 32 3 :: bytes]"
  obtain m where m: "2 ^ m < length ?h" "length ?h \<le> 2 ^ (m + 1)"
    "tree_hash ?h = Inr (merkle m (tree_leaves m ?h))"
    using tree_hash_merkle [of ?h] by auto
  then have "m = 1" by (intro three_leaves) simp_all
  then show ?thesis using m(3) by (simp add: tree_leaves_def pairup_def)
qed

end
