(* ===== verification/FormatUtils.thy ===== *)
theory FormatUtils
  imports TxSerial TxExtra TreeHash Amounts
begin

text \<open>
  \<open>src/cryptonote/core/CryptoNoteFormatUtils.cpp\<close> and \<open>CryptoNoteTools.cpp\<close>: the money a transaction
  moves, the stateless checks of inputs and outputs, the offsets of ring members, the tree hash of a
  block, the search for outputs of an account, and the construction of a transaction. The elliptic
  curve operations of \<open>crypto.c\<close> are arguments of the definitions that use them.
\<close>

section \<open>Definitions\<close>

definition power_integral_loop :: "u64 \<Rightarrow> nat \<Rightarrow> u64" where
  "power_integral_loop a n = ((\<lambda>total. total * a) ^^ n) a"

definition power_integral :: "u64 \<Rightarrow> u64 \<Rightarrow> u64" where
  "power_integral a b = (if b = 0 then 1 else power_integral_loop a (unat b - 1))"

text \<open>The amount the checks read from an input; a base input counts as 0.\<close>

fun input_amount :: "transaction_input \<Rightarrow> u64" where
  "input_amount (BaseInput _) = 0"
| "input_amount (KeyInput a _ _) = a"
| "input_amount (MultisigInput a _ _) = a"

definition get_inputs_money_amount :: "'a transaction_prefix_scheme \<Rightarrow> u64" where
  "get_inputs_money_amount tx = fold (\<lambda>i money. money + input_amount i) (tx_inputs tx) 0"

definition get_outs_money_amount :: "'a transaction_prefix_scheme \<Rightarrow> u64" where
  "get_outs_money_amount tx = fold (\<lambda>out money. money + out_amount out) (tx_outputs tx) 0"

definition get_tx_fee :: "'a transaction_prefix_scheme \<Rightarrow> u64 option" where
  "get_tx_fee tx =
     (let amount_in = fold (\<lambda>i a. a + input_amount i) (tx_inputs tx) 0;
          amount_out = fold (\<lambda>out a. a + out_amount out) (tx_outputs tx) 0
      in if \<not> amount_out \<le> amount_in then None else Some (amount_in - amount_out))"

definition get_tx_fee_or_0 :: "'a transaction_prefix_scheme \<Rightarrow> u64" where
  "get_tx_fee_or_0 tx = (case get_tx_fee tx of None \<Rightarrow> 0 | Some fee \<Rightarrow> fee)"

definition getInputAmount :: "'a transaction_prefix_scheme \<Rightarrow> u64" where
  "getInputAmount tx = fold (\<lambda>i a. a + input_amount i) (tx_inputs tx) 0"

fun getInputsAmounts_list :: "transaction_input list \<Rightarrow> u64 list" where
  "getInputsAmounts_list [] = []"
| "getInputsAmounts_list (i # ins) =
     (case i of
        BaseInput _ \<Rightarrow> getInputsAmounts_list ins
      | KeyInput a _ _ \<Rightarrow> a # getInputsAmounts_list ins
      | MultisigInput a _ _ \<Rightarrow> a # getInputsAmounts_list ins)"

definition getInputsAmounts :: "'a transaction_prefix_scheme \<Rightarrow> u64 list" where
  "getInputsAmounts tx = getInputsAmounts_list (tx_inputs tx)"

definition getOutputAmount :: "'a transaction_prefix_scheme \<Rightarrow> u64" where
  "getOutputAmount tx = fold (\<lambda>out a. a + out_amount out) (tx_outputs tx) 0"

definition get_block_height :: "block \<Rightarrow> u32" where
  "get_block_height b =
     (case tx_inputs (baseTransaction b) of [BaseInput i] \<Rightarrow> i | _ \<Rightarrow> 0)"

fun supported_input :: "transaction_input \<Rightarrow> bool" where
  "supported_input (BaseInput _) = False"
| "supported_input _ = True"

definition check_inputs_types_supported :: "'a transaction_prefix_scheme \<Rightarrow> bool" where
  "check_inputs_types_supported tx \<longleftrightarrow> list_all supported_input (tx_inputs tx)"

definition check_out_valid :: "(public_key_t \<Rightarrow> bool) \<Rightarrow> transaction_output \<Rightarrow> bool" where
  "check_out_valid check_key out =
     (case out_target out of
        KeyOutput k \<Rightarrow> out_amount out \<noteq> 0 \<and> check_key k
      | MultisigOutput keys n \<Rightarrow> unat n \<le> length keys \<and> list_all check_key keys)"

definition check_outs_valid :: "(public_key_t \<Rightarrow> bool) \<Rightarrow> 'a transaction_prefix_scheme \<Rightarrow> bool" where
  "check_outs_valid check_key tx \<longleftrightarrow> list_all (check_out_valid check_key) (tx_outputs tx)"

fun multisig_diff_loop :: "transaction_input list \<Rightarrow> (u64 \<times> u32) list \<Rightarrow> bool" where
  "multisig_diff_loop [] used = True"
| "multisig_diff_loop (i # ins) used =
     (case i of
        MultisigInput a _ idx \<Rightarrow> if (a, idx) \<in> set used then False else multisig_diff_loop ins ((a, idx) # used)
      | _ \<Rightarrow> multisig_diff_loop ins used)"

definition checkMultisignatureInputsDiff :: "'a transaction_prefix_scheme \<Rightarrow> bool" where
  "checkMultisignatureInputsDiff tx = multisig_diff_loop (tx_inputs tx) []"

text \<open>The overflow loop shared by inputs and outputs.\<close>

fun overflow_loop :: "u64 list \<Rightarrow> u64 \<Rightarrow> bool" where
  "overflow_loop [] money = True"
| "overflow_loop (amount # as) money =
     (if amount + money < money then False else overflow_loop as (money + amount))"

definition check_inputs_overflow :: "'a transaction_prefix_scheme \<Rightarrow> bool" where
  "check_inputs_overflow tx = overflow_loop (map input_amount (tx_inputs tx)) 0"

definition check_outs_overflow :: "'a transaction_prefix_scheme \<Rightarrow> bool" where
  "check_outs_overflow tx = overflow_loop (map out_amount (tx_outputs tx)) 0"

definition check_money_overflow :: "'a transaction_prefix_scheme \<Rightarrow> bool" where
  "check_money_overflow tx \<longleftrightarrow> check_inputs_overflow tx \<and> check_outs_overflow tx"

text \<open>Prefix sums and differences of ring offsets, with the wrap-around of \<open>uint32_t\<close>.\<close>

fun offsets_sum :: "u32 \<Rightarrow> u32 list \<Rightarrow> u32 list" where
  "offsets_sum prev [] = []"
| "offsets_sum prev (x # xs) = (x + prev) # offsets_sum (x + prev) xs"

definition relative_output_offsets_to_absolute :: "u32 list \<Rightarrow> u32 list" where
  "relative_output_offsets_to_absolute off = offsets_sum 0 off"

fun offsets_diff :: "u32 \<Rightarrow> u32 list \<Rightarrow> u32 list" where
  "offsets_diff prev [] = []"
| "offsets_diff prev (x # xs) = (x - prev) # offsets_diff x xs"

definition absolute_output_offsets_to_relative :: "u32 list \<Rightarrow> u32 list" where
  "absolute_output_offsets_to_relative off = offsets_diff 0 (sort off)"

definition get_tx_tree_hash :: "hash_t list \<Rightarrow> exn + hash_t" where
  "get_tx_tree_hash tx_hashes = tree_hash tx_hashes"

definition get_block_tree_hash :: "block \<Rightarrow> exn + hash_t" where
  "get_block_tree_hash b = get_tx_tree_hash (tx_hash (baseTransaction b) # transactionHashes b)"

definition parseAndValidateTransaction :: "bytes \<Rightarrow> (transaction \<times> hash_t \<times> hash_t) option" where
  "parseAndValidateTransaction blob =
     (case tx_from_bytes blob of None \<Rightarrow> None | Some tx \<Rightarrow> Some (tx, cn_fast_hash blob, prefix_hash tx))"

text \<open>
  \<open>lookup_acc_outs\<close>: \<open>derive n\<close> stands for \<open>derive_public_key\<close> with the derivation of the transaction and
  the spend key of the account. The result is the list of output indexes and their sum.
\<close>

fun lookup_loop :: "(nat \<Rightarrow> public_key_t) \<Rightarrow> transaction_output list \<Rightarrow> nat \<Rightarrow> nat \<Rightarrow> nat list \<Rightarrow> u64 \<Rightarrow> nat list \<times> u64" where
  "lookup_loop derive [] keyIndex outIdx outs money = (outs, money)"
| "lookup_loop derive (out # os) keyIndex outIdx outs money =
     (case out_target out of
        KeyOutput k \<Rightarrow>
          if derive keyIndex = k
          then lookup_loop derive os (keyIndex + 1) (outIdx + 1) (outs @ [outIdx]) (money + out_amount out)
          else lookup_loop derive os (keyIndex + 1) (outIdx + 1) outs money
      | MultisigOutput keys _ \<Rightarrow> lookup_loop derive os (keyIndex + length keys) (outIdx + 1) outs money)"

definition lookup_acc_outs ::
  "(public_key_t \<Rightarrow> nat \<Rightarrow> public_key_t) \<Rightarrow> 'a transaction_prefix_scheme \<Rightarrow> (nat list \<times> u64) option" where
  "lookup_acc_outs derive tx =
     (let transactionPublicKey = getTransactionPublicKeyFromExtra (tx_extra tx)
      in if transactionPublicKey = replicate 32 0 then None
         else Some (lookup_loop (derive transactionPublicKey) (tx_outputs tx) 0 0 [] 0))"

section \<open>Construction of a transaction\<close>

record transaction_source_entry =
  src_outputs :: "(u32 \<times> public_key_t) list"
  realOutput :: nat
  realTransactionPublicKey :: public_key_t
  realOutputIndexInTransaction :: nat
  src_amount :: u64

record transaction_destination_entry =
  dst_amount :: u64
  dst_addr :: account_public_address

text \<open>
  The inputs: \<open>key_image src\<close> stands for \<open>generate_key_image_helper\<close>, with the ephemeral public key and the
  key image of the source. The result has the inputs and the sum of their amounts.
\<close>

fun construct_inputs ::
  "(transaction_source_entry \<Rightarrow> (public_key_t \<times> key_image_t) option) \<Rightarrow> transaction_source_entry list
   \<Rightarrow> u64 \<Rightarrow> (transaction_input list \<times> u64) option" where
  "construct_inputs key_image [] money = Some ([], money)"
| "construct_inputs key_image (src # srcs) money =
     (if length (src_outputs src) \<le> realOutput src then None
      else case key_image src of
          None \<Rightarrow> None
        | Some (pub, img) \<Rightarrow>
            if pub \<noteq> snd (src_outputs src ! realOutput src) then None
            else case construct_inputs key_image srcs (money + src_amount src) of
                None \<Rightarrow> None
              | Some (ins, m) \<Rightarrow>
                  Some (KeyInput (src_amount src) (absolute_output_offsets_to_relative (map fst (src_outputs src))) img
                    # ins, m))"

text \<open>The outputs: \<open>out_key addr n\<close> stands for the derived public key of output \<open>n\<close> for an address.\<close>

fun construct_outputs ::
  "(account_public_address \<Rightarrow> nat \<Rightarrow> public_key_t option) \<Rightarrow> transaction_destination_entry list \<Rightarrow> nat
   \<Rightarrow> u64 \<Rightarrow> (transaction_output list \<times> u64) option" where
  "construct_outputs eph_key [] n money = Some ([], money)"
| "construct_outputs eph_key (dst # dsts) n money =
     (if \<not> 0 < dst_amount dst then None
      else case eph_key (dst_addr dst) n of
          None \<Rightarrow> None
        | Some k \<Rightarrow>
            (case construct_outputs eph_key dsts (n + 1) (money + dst_amount dst) of
               None \<Rightarrow> None
             | Some (outs, m) \<Rightarrow> Some (\<lparr>out_amount = dst_amount dst, out_target = KeyOutput k\<rparr> # outs, m)))"

text \<open>
  \<open>constructTransaction\<close>: \<open>txkey\<close> is the public key of the generated pair, \<open>ring_sign\<close> stands for
  \<open>generate_ring_signature\<close>. \<open>std::sort\<close> by amount is modelled by the stable sort.
\<close>

definition constructTransaction ::
  "u8 \<Rightarrow> public_key_t \<Rightarrow> (transaction_source_entry \<Rightarrow> (public_key_t \<times> key_image_t) option)
   \<Rightarrow> (account_public_address \<Rightarrow> nat \<Rightarrow> public_key_t option)
   \<Rightarrow> (hash_t \<Rightarrow> transaction_source_entry \<Rightarrow> signature_t list)
   \<Rightarrow> transaction_source_entry list \<Rightarrow> transaction_destination_entry list \<Rightarrow> bytes \<Rightarrow> u64 \<Rightarrow> transaction option" where
  "constructTransaction version txkey key_image eph_key ring_sign srcs dsts extra unlock_time =
     (case construct_inputs key_image srcs 0 of
        None \<Rightarrow> None
      | Some (ins, summary_inputs_money) \<Rightarrow>
          (case construct_outputs eph_key (sort_key dst_amount dsts) 0 0 of
             None \<Rightarrow> None
           | Some (outs, summary_outs_money) \<Rightarrow>
               if summary_inputs_money < summary_outs_money then None
               else
                 let prefix = \<lparr>tx_version = version, unlockTime = unlock_time, tx_inputs = ins, tx_outputs = outs,
                               tx_extra = addTransactionPublicKeyToExtra extra txkey\<rparr>
                 in Some (transaction_prefix.extend prefix
                      \<lparr>signatures = map (ring_sign (prefix_hash prefix)) srcs\<rparr>)))"

section \<open>Money\<close>

definition sum_inputs :: "'a transaction_prefix_scheme \<Rightarrow> nat" where
  "sum_inputs tx = sum_list (map (unat \<circ> input_amount) (tx_inputs tx))"

definition sum_outputs :: "'a transaction_prefix_scheme \<Rightarrow> nat" where
  "sum_outputs tx = sum_list (map (unat \<circ> out_amount) (tx_outputs tx))"

lemma add_no_wrap:
  fixes a b :: u64
  shows "\<not> a + b < b \<longleftrightarrow> unat a + unat b < 18446744073709551616"
proof -
  have "b + a < b \<longleftrightarrow> (unat b + unat a) div 18446744073709551616 \<noteq> 0"
    using add_carry [of b a] by (simp split: if_splits)
  then show ?thesis by (simp add: add.commute div_eq_0_iff)
qed

lemma overflow_loop_iff: "overflow_loop as money \<longleftrightarrow> unat money + sum_list (map unat as) < 18446744073709551616"
proof (induction as arbitrary: money)
  case Nil
  then show ?case by (simp add: unat_bounds)
next
  case (Cons a as)
  show ?case
  proof (cases "unat a + unat money < 18446744073709551616")
    case True
    then have "unat (money + a) = unat money + unat a" by (simp add: unat_word_ariths)
    then show ?thesis using True add_no_wrap [of a money] Cons [of "money + a"] by (simp add: add.assoc)
  next
    case False
    then show ?thesis using add_no_wrap [of a money] by simp
  qed
qed

lemma fold_sum_exact:
  fixes money :: u64 and f :: "'a \<Rightarrow> u64"
  assumes "unat money + sum_list (map (unat \<circ> f) xs) < 18446744073709551616"
  shows "unat (fold (\<lambda>x m. m + f x) xs money) = unat money + sum_list (map (unat \<circ> f) xs)"
  using assms
proof (induction xs arbitrary: money)
  case (Cons x xs)
  have "unat (money + f x) = unat money + unat (f x)" using Cons.prems by (simp add: unat_word_ariths)
  then show ?case using Cons by (simp add: add.assoc)
qed simp

lemma check_inputs_overflow_iff: "check_inputs_overflow tx \<longleftrightarrow> sum_inputs tx < 18446744073709551616"
  by (simp add: check_inputs_overflow_def overflow_loop_iff sum_inputs_def)

lemma check_outs_overflow_iff: "check_outs_overflow tx \<longleftrightarrow> sum_outputs tx < 18446744073709551616"
  by (simp add: check_outs_overflow_def overflow_loop_iff sum_outputs_def)

lemma money_in_exact: "check_inputs_overflow tx \<Longrightarrow> unat (fold (\<lambda>i a. a + input_amount i) (tx_inputs tx) 0) = sum_inputs tx"
  using fold_sum_exact [of 0 input_amount "tx_inputs tx"] by (simp add: check_inputs_overflow_iff sum_inputs_def)

lemma money_out_exact: "check_outs_overflow tx \<Longrightarrow> unat (fold (\<lambda>out a. a + out_amount out) (tx_outputs tx) 0) = sum_outputs tx"
  using fold_sum_exact [of 0 out_amount "tx_outputs tx"] by (simp add: check_outs_overflow_iff sum_outputs_def)

lemma get_tx_fee_iff:
  assumes "check_money_overflow tx"
  shows "get_tx_fee tx = Some fee \<longleftrightarrow> sum_inputs tx = sum_outputs tx + unat fee"
proof -
  define i where "i = fold (\<lambda>i a. a + input_amount i) (tx_inputs tx) 0"
  define out where "out = fold (\<lambda>out a. a + out_amount out) (tx_outputs tx) 0"
  have u: "unat i = sum_inputs tx" "unat out = sum_outputs tx"
    using assms money_in_exact [of tx] money_out_exact [of tx] by (simp_all add: check_money_overflow_def i_def out_def)
  have "get_tx_fee tx = Some fee \<longleftrightarrow> out \<le> i \<and> i - out = fee"
    by (auto simp: get_tx_fee_def i_def out_def Let_def)
  also have "\<dots> \<longleftrightarrow> unat out \<le> unat i \<and> unat i - unat out = unat fee"
    by (auto simp: word_le_nat_alt unat_sub word_unat_eq_iff)
  also have "\<dots> \<longleftrightarrow> unat i = unat out + unat fee" by auto
  finally show ?thesis by (simp add: u)
qed

section \<open>Ring offsets\<close>

lemma offsets_sum_diff: "offsets_sum prev (offsets_diff prev xs) = xs"
  by (induction xs arbitrary: prev) simp_all

lemma offsets_diff_sum: "offsets_diff prev (offsets_sum prev xs) = xs"
  by (induction xs arbitrary: prev) simp_all

lemma offsets_sum_sorted:
  assumes "unat prev + sum_list (map unat xs) < 4294967296"
  shows "sorted (prev # offsets_sum prev xs)"
  using assms
proof (induction xs arbitrary: prev)
  case (Cons x xs)
  have u: "unat (x + prev) = unat x + unat prev" using Cons.prems by (simp add: unat_word_ariths)
  then have "sorted ((x + prev) # offsets_sum (x + prev) xs)" using Cons by (simp add: add.assoc)
  moreover have "prev \<le> x + prev" by (simp add: word_le_nat_alt u)
  ultimately show ?case by auto
qed simp

section \<open>Properties\<close>

text \<open>
  C14: the money checks are exact: \<open>check_money_overflow\<close> accepts a transaction exactly when the true sums
  of its inputs and of its outputs fit 64 bits, and \<open>get_tx_fee\<close> of such a transaction is the difference
  of the true sums, or nothing when it would be negative.
\<close>

theorem money_checks_exact:
  "(check_money_overflow tx \<longleftrightarrow> sum_inputs tx < 2 ^ 64 \<and> sum_outputs tx < 2 ^ 64)
   \<and> (\<forall>fee. check_money_overflow tx \<longrightarrow>
        (get_tx_fee tx = Some fee \<longleftrightarrow> sum_inputs tx = sum_outputs tx + unat fee))"
  using get_tx_fee_iff [of tx]
  by (simp add: check_money_overflow_def check_inputs_overflow_iff check_outs_overflow_iff)

theorem money_checks_exact_witness:
  "get_tx_fee \<lparr>tx_version = 1, unlockTime = 0, tx_inputs = [KeyInput 9 [] [], KeyInput 5 [] []],
     tx_outputs = [\<lparr>out_amount = 10, out_target = KeyOutput []\<rparr>], tx_extra = []\<rparr> = Some 4"
  using money_checks_exact [of "\<lparr>tx_version = 1, unlockTime = 0, tx_inputs = [KeyInput 9 [] [], KeyInput 5 [] []],
     tx_outputs = [\<lparr>out_amount = 10, out_target = KeyOutput []\<rparr>], tx_extra = []\<rparr>"]
  by (simp add: sum_inputs_def sum_outputs_def)

text \<open>
  Absolute ring offsets survive the conversion to relative ones and back, in sorted order, and
  relative offsets whose sum fits 32 bits survive the conversion to absolute ones and back.
\<close>

lemma offsets_roundtrip:
  "relative_output_offsets_to_absolute (absolute_output_offsets_to_relative off) = sort off
   \<and> (sum_list (map unat off) < 2 ^ 32 \<longrightarrow>
        absolute_output_offsets_to_relative (relative_output_offsets_to_absolute off) = off)"
proof -
  have "sort (offsets_sum 0 off) = offsets_sum 0 off" if "sum_list (map unat off) < 4294967296"
    using offsets_sum_sorted [of 0 off] that by (simp add: sort_key_id_if_sorted)
  then show ?thesis
    by (simp add: relative_output_offsets_to_absolute_def absolute_output_offsets_to_relative_def
        offsets_sum_diff offsets_diff_sum)
qed

section \<open>Constructed transactions\<close>

lemma length_offsets_diff [simp]: "length (offsets_diff prev xs) = length xs"
  by (induction xs arbitrary: prev) simp_all

lemma length_relative [simp]: "length (absolute_output_offsets_to_relative off) = length off"
  by (simp add: absolute_output_offsets_to_relative_def)

text \<open>What a constructed transaction takes from each source.\<close>

definition input_of :: "transaction_source_entry \<Rightarrow> transaction_input \<Rightarrow> bool" where
  "input_of src i \<longleftrightarrow>
     (\<exists>img. i = KeyInput (src_amount src) (absolute_output_offsets_to_relative (map fst (src_outputs src))) img
        \<and> length img = 32)"

lemma construct_inputs_sound:
  assumes "construct_inputs key_image srcs money = Some (ins, m)"
    and "\<And>src pub img. key_image src = Some (pub, img) \<Longrightarrow> length img = 32"
  shows "list_all2 input_of srcs ins \<and> m = fold (\<lambda>src a. a + src_amount src) srcs money"
  using assms(1)
proof (induction srcs arbitrary: money ins)
  case (Cons src srcs)
  obtain pub img ins' where i: "key_image src = Some (pub, img)"
    "construct_inputs key_image srcs (money + src_amount src) = Some (ins', m)"
    "ins = KeyInput (src_amount src) (absolute_output_offsets_to_relative (map fst (src_outputs src))) img # ins'"
    using Cons.prems by (auto split: if_splits option.splits)
  then show ?case using Cons.IH [OF i(2)] assms(2) [OF i(1)] by (auto simp: input_of_def)
qed simp

lemma construct_outputs_sound:
  assumes "construct_outputs eph_key dsts n money = Some (outs, m)"
    and "\<And>a n k. eph_key a n = Some k \<Longrightarrow> length k = 32"
  shows "map out_amount outs = map dst_amount dsts \<and> list_all output_ok outs
    \<and> m = fold (\<lambda>dst a. a + dst_amount dst) dsts money \<and> (\<forall>out \<in> set outs. out_amount out \<noteq> 0)"
  using assms(1)
proof (induction dsts arbitrary: n money outs)
  case (Cons dst dsts)
  obtain k outs' where o: "eph_key (dst_addr dst) n = Some k" "0 < dst_amount dst"
    "construct_outputs eph_key dsts (n + 1) (money + dst_amount dst) = Some (outs', m)"
    "outs = \<lparr>out_amount = dst_amount dst, out_target = KeyOutput k\<rparr> # outs'"
    using Cons.prems by (auto split: if_splits option.splits)
  then show ?case using Cons.IH [OF o(3)] assms(2) [OF o(1)] by (auto simp: output_ok_def word_gt_0)
qed simp

lemma inputs_of_sources:
  assumes "list_all2 input_of srcs ins"
  shows "map input_amount ins = map src_amount srcs"
    and "list_all supported_input ins"
    and "(\<forall>src \<in> set srcs. length (src_outputs src) < 18446744073709551616) \<Longrightarrow> list_all input_ok ins"
    and "list_all2 (\<lambda>i src. getSignaturesCount i = length (src_outputs src)) ins srcs"
  using assms by (induction rule: list_all2_induct) (auto simp: input_of_def)

lemma sum_list_insort: "sum_list (map f (insort_key k x xs)) = f x + (sum_list (map f xs) :: nat)"
  by (induction xs) auto

lemma sum_list_sort: "sum_list (map f (sort_key k xs)) = (sum_list (map f xs) :: nat)"
  by (induction xs) (auto simp: sum_list_insort)



end
