(* ===== verification/Currency.thy ===== *)
theory Currency
  imports FormatUtils Difficulty
begin

text \<open>
  \<open>src/cryptonote/core/currency.cpp\<close>: the monetary rules. The currency is a record of its parameters,
  with the values of \<open>CryptoNoteConfig.h\<close> that \<open>CurrencyBuilder\<close> installs. \<open>size_t\<close> is 64 bits.
\<close>

section \<open>Definitions\<close>

record currency =
  m_maxBlockHeight :: u64
  m_maxBlockBlobSize :: u64
  m_maxTxSize :: u64
  m_publicAddressBase58Prefix :: u64
  m_minedMoneyUnlockWindow :: u64
  m_timestampCheckWindow :: u64
  m_blockFutureTimeLimit :: u64
  m_moneySupply :: u64
  m_emissionSpeedFactor :: u32
  m_rewardBlocksWindow :: u64
  m_blockGrantedFullRewardZone :: u64
  m_minerTxBlobReservedSize :: u64
  m_numberOfDecimalPlaces :: u64
  m_coin :: u64
  m_mininumFee :: u64
  m_defaultDustThreshold :: u64
  m_difficultyTarget :: u64
  m_difficultyWindow :: u64
  m_difficultyLag :: u64
  m_difficultyCut :: u64
  m_maxBlockSizeInitial :: u64
  m_maxBlockSizeGrowthSpeedNumerator :: u64
  m_maxBlockSizeGrowthSpeedDenominator :: u64
  m_lockedTxAllowedDeltaSeconds :: u64
  m_lockedTxAllowedDeltaBlocks :: u64
  m_mempoolTxLiveTime :: u64
  m_mempoolTxFromAltBlockLiveTime :: u64
  m_numberOfPeriodsToForgetTxDeletedFromPool :: u64
  m_fusionTxMaxSize :: u64
  m_fusionTxMinInputCount :: u64
  m_fusionTxMinInOutCountRatio :: u64

text \<open>The builder's checked setters: \<open>invalid_argument\<close> is \<open>OutOfRange\<close>.\<close>

definition emissionSpeedFactor :: "u32 \<Rightarrow> currency \<Rightarrow> exn + currency" where
  "emissionSpeedFactor val cur =
     (if val \<le> 0 \<or> 64 < val then Inl OutOfRange else Inr (cur\<lparr>m_emissionSpeedFactor := val\<rparr>))"

definition numberOfDecimalPlaces :: "u64 \<Rightarrow> currency \<Rightarrow> currency" where
  "numberOfDecimalPlaces val cur =
     cur\<lparr>m_numberOfDecimalPlaces := val, m_coin := ((\<lambda>coin. coin * 10) ^^ unat val) 1\<rparr>"

definition difficultyWindow :: "u64 \<Rightarrow> currency \<Rightarrow> exn + currency" where
  "difficultyWindow val cur =
     (if val < 2 then Inl OutOfRange else Inr (cur\<lparr>m_difficultyWindow := val\<rparr>))"

text \<open>The parameters of \<open>CryptoNoteConfig.h\<close>, as the constructor of \<open>CurrencyBuilder\<close> sets them.\<close>

definition default_currency :: currency where
  "default_currency =
     \<lparr>m_maxBlockHeight = 500000000, m_maxBlockBlobSize = 500000000, m_maxTxSize = 1000000000,
      m_publicAddressBase58Prefix = 0x3d, m_minedMoneyUnlockWindow = 60, m_timestampCheckWindow = 60,
      m_blockFutureTimeLimit = 60 * 60 * 2, m_moneySupply = 10000000000000000, m_emissionSpeedFactor = 18,
      m_rewardBlocksWindow = 100, m_blockGrantedFullRewardZone = 10000, m_minerTxBlobReservedSize = 600,
      m_numberOfDecimalPlaces = 8, m_coin = 100000000, m_mininumFee = 100, m_defaultDustThreshold = 100,
      m_difficultyTarget = 120, m_difficultyWindow = 720, m_difficultyLag = 15, m_difficultyCut = 60,
      m_maxBlockSizeInitial = 20 * 1024, m_maxBlockSizeGrowthSpeedNumerator = 100 * 1024,
      m_maxBlockSizeGrowthSpeedDenominator = 365 * 24 * 60 * 60 div 120,
      m_lockedTxAllowedDeltaSeconds = 120, m_lockedTxAllowedDeltaBlocks = 1,
      m_mempoolTxLiveTime = 60 * 60 * 24, m_mempoolTxFromAltBlockLiveTime = 60 * 60 * 24 * 7,
      m_numberOfPeriodsToForgetTxDeletedFromPool = 7, m_fusionTxMaxSize = 10000 * 30 div 100,
      m_fusionTxMinInputCount = 12, m_fusionTxMinInOutCountRatio = 4\<rparr>"

text \<open>
  \<open>m_moneySupply * 0.20\<close> is a product of \<open>double\<close>s, converted back by truncation. A positive integer is
  rounded to 53 significant bits, to nearest and to even in a tie; the literal is
  3602879701896397 / 2^54. Rounding commutes with the scaling by a power of two.
\<close>

fun bit_length :: "nat \<Rightarrow> nat" where
  "bit_length n = (if n = 0 then 0 else Suc (bit_length (n div 2)))"

declare bit_length.simps [simp del]

definition to_double :: "nat \<Rightarrow> nat" where
  "to_double n =
     (let k = bit_length n - 53; q = n div 2 ^ k; r = n mod 2 ^ k
      in (if 2 ^ k < 2 * r \<or> 2 * r = 2 ^ k \<and> odd q then q + 1 else q) * 2 ^ k)"

definition times_one_fifth :: "u64 \<Rightarrow> u64" where
  "times_one_fifth n = of_nat (to_double (to_double (unat n) * 3602879701896397) div 2 ^ 54)"

definition base_reward :: "currency \<Rightarrow> u64 \<Rightarrow> u64" where
  "base_reward cur alreadyGeneratedCoins =
     (let baseReward = drop_bit (unat (m_emissionSpeedFactor cur)) (m_moneySupply cur - alreadyGeneratedCoins);
          baseReward = (if alreadyGeneratedCoins = 0 then 1 else baseReward);
          baseReward = (if alreadyGeneratedCoins = 1 then times_one_fifth (m_moneySupply cur) else baseReward)
      in if m_moneySupply cur \<le> alreadyGeneratedCoins + baseReward then 0 else baseReward)"

text \<open>
  \<open>getBlockReward\<close>: \<open>Inr None\<close> is the result false, \<open>Inr (Some (reward, emissionChange))\<close> the result
  true. \<open>emissionChange\<close> is an \<open>int64_t\<close>, kept as the word it is stored in.
\<close>

definition getBlockReward :: "currency \<Rightarrow> u64 \<Rightarrow> u64 \<Rightarrow> u64 \<Rightarrow> u64 \<Rightarrow> exn + (u64 \<times> u64) option" where
  "getBlockReward cur medianSize currentBlockSize alreadyGeneratedCoins fee =
     (if \<not> alreadyGeneratedCoins \<le> m_moneySupply cur then Inl AssertFailed
      else if \<not> (0 < m_emissionSpeedFactor cur \<and> m_emissionSpeedFactor cur \<le> 64) then Inl AssertFailed
      else
        let baseReward = base_reward cur alreadyGeneratedCoins;
            medianSize = max medianSize (m_blockGrantedFullRewardZone cur)
        in if 2 * medianSize < currentBlockSize then Inr None
        else
          case get_penalized_amount baseReward medianSize currentBlockSize of
            Inl e \<Rightarrow> Inl e
          | Inr penalizedBaseReward \<Rightarrow>
              (case get_penalized_amount fee medianSize currentBlockSize of
                 Inl e \<Rightarrow> Inl e
               | Inr penalizedFee \<Rightarrow>
                   Inr (Some (penalizedBaseReward + penalizedFee, penalizedBaseReward - (fee - penalizedFee)))))"

definition maxBlockCumulativeSize :: "currency \<Rightarrow> u64 \<Rightarrow> exn + u64" where
  "maxBlockCumulativeSize cur height =
     (if \<not> height \<le> - 1 div m_maxBlockSizeGrowthSpeedNumerator cur then Inl AssertFailed
      else
        let maxSize = m_maxBlockSizeInitial cur +
              height * m_maxBlockSizeGrowthSpeedNumerator cur div m_maxBlockSizeGrowthSpeedDenominator cur
        in if \<not> m_maxBlockSizeInitial cur \<le> maxSize then Inl AssertFailed else Inr maxSize)"

text \<open>\<open>constructMinerTx\<close>. The merging loop folds the last amount into the one before it.\<close>

function merge_outs :: "nat \<Rightarrow> u64 list \<Rightarrow> u64 list" where
  "merge_outs maxOuts outAmounts =
     (if 1 \<le> maxOuts \<and> maxOuts < length outAmounts
      then merge_outs maxOuts
        (butlast (outAmounts[length outAmounts - 2 := outAmounts ! (length outAmounts - 2) + last outAmounts]))
      else outAmounts)"
  by pat_completeness auto
termination
  by (relation "measure (\<lambda>(_, xs). length xs)") auto

text \<open>\<open>derived_key n\<close> is the key derived for output \<open>n\<close>, if the curve operations succeed.\<close>

declare merge_outs.simps [simp del]

fun miner_outputs :: "(nat \<Rightarrow> public_key_t option) \<Rightarrow> u64 list \<Rightarrow> nat \<Rightarrow> transaction_output list option" where
  "miner_outputs derived_key [] no = Some []"
| "miner_outputs derived_key (a # as) no =
     (case derived_key no of
        None \<Rightarrow> None
      | Some k \<Rightarrow>
          (case miner_outputs derived_key as (no + 1) of
             None \<Rightarrow> None
           | Some outs \<Rightarrow> Some (\<lparr>out_amount = a, out_target = KeyOutput k\<rparr> # outs)))"

definition constructMinerTx ::
  "currency \<Rightarrow> u8 \<Rightarrow> public_key_t \<Rightarrow> (nat \<Rightarrow> public_key_t option) \<Rightarrow> u32 \<Rightarrow> u64 \<Rightarrow> u64 \<Rightarrow> u64 \<Rightarrow> u64
   \<Rightarrow> bytes \<Rightarrow> nat \<Rightarrow> transaction \<Rightarrow> exn + transaction option" where
  "constructMinerTx cur version txkey derived_key height medianSize alreadyGeneratedCoins currentBlockSize fee
     extraNonce maxOuts tx =
     (case (if extraNonce = [] then Some (addTransactionPublicKeyToExtra [] txkey)
            else addExtraNonceToTransactionExtra (addTransactionPublicKeyToExtra [] txkey) extraNonce) of
        None \<Rightarrow> Inr None
      | Some extra \<Rightarrow>
          (case getBlockReward cur medianSize currentBlockSize alreadyGeneratedCoins fee of
             Inl e \<Rightarrow> Inl e
           | Inr None \<Rightarrow> Inr None
           | Inr (Some (blockReward, _)) \<Rightarrow>
               if \<not> 1 \<le> maxOuts then Inr None
               else
                 let outAmounts = merge_outs maxOuts
                       (decompose_amount_into_digits blockReward (m_defaultDustThreshold cur))
                 in case miner_outputs derived_key outAmounts 0 of
                      None \<Rightarrow> Inr None
                    | Some outs \<Rightarrow>
                        if sum_list outAmounts \<noteq> blockReward then Inr None
                        else Inr (Some (tx\<lparr>tx_version := version,
                          unlockTime := ucast height + m_minedMoneyUnlockWindow cur,
                          tx_inputs := [BaseInput height], tx_outputs := outs, tx_extra := extra\<rparr>))))"

section \<open>Fusion transactions\<close>

fun fusion_input_sum :: "u64 \<Rightarrow> u64 list \<Rightarrow> u64 \<Rightarrow> u64 option" where
  "fusion_input_sum dust [] inputAmount = Some inputAmount"
| "fusion_input_sum dust (a # as) inputAmount =
     (if a < dust then None else fusion_input_sum dust as (inputAmount + a))"

definition isFusionAmounts :: "currency \<Rightarrow> u64 list \<Rightarrow> u64 list \<Rightarrow> u64 \<Rightarrow> bool" where
  "isFusionAmounts cur inputsAmounts outputsAmounts sz =
     (if m_fusionTxMaxSize cur < sz then False
      else if of_nat (length inputsAmounts) < m_fusionTxMinInputCount cur then False
      else if of_nat (length inputsAmounts) < of_nat (length outputsAmounts) * m_fusionTxMinInOutCountRatio cur then False
      else
        case fusion_input_sum (m_defaultDustThreshold cur) inputsAmounts 0 of
          None \<Rightarrow> False
        | Some inputAmount \<Rightarrow>
            sort (decomposeAmount inputAmount (m_defaultDustThreshold cur) []) = outputsAmounts)"

text \<open>
  On a transaction: the amounts of the inputs come from \<open>getInputsAmounts\<close>, and its assertion on the
  size holds by the definition of the size.
\<close>

definition isFusionTransaction :: "currency \<Rightarrow> transaction \<Rightarrow> u64 \<Rightarrow> bool" where
  "isFusionTransaction cur tx sz = isFusionAmounts cur (getInputsAmounts tx) (map out_amount (tx_outputs tx)) sz"

definition PRETTY_AMOUNTS :: "nat list" where
  "PRETTY_AMOUNTS =
     [1, 2, 3, 4, 5, 6, 7, 8, 9,
      10, 20, 30, 40, 50, 60, 70, 80, 90,
      100, 200, 300, 400, 500, 600, 700, 800, 900,
      1000, 2000, 3000, 4000, 5000, 6000, 7000, 8000, 9000,
      10000, 20000, 30000, 40000, 50000, 60000, 70000, 80000, 90000,
      100000, 200000, 300000, 400000, 500000, 600000, 700000, 800000, 900000,
      1000000, 2000000, 3000000, 4000000, 5000000, 6000000, 7000000, 8000000, 9000000,
      10000000, 20000000, 30000000, 40000000, 50000000, 60000000, 70000000, 80000000, 90000000,
      100000000, 200000000, 300000000, 400000000, 500000000, 600000000, 700000000, 800000000, 900000000,
      1000000000, 2000000000, 3000000000, 4000000000, 5000000000, 6000000000, 7000000000, 8000000000, 9000000000,
      10000000000, 20000000000, 30000000000, 40000000000, 50000000000, 60000000000, 70000000000, 80000000000, 90000000000,
      100000000000, 200000000000, 300000000000, 400000000000, 500000000000, 600000000000, 700000000000, 800000000000, 900000000000,
      1000000000000, 2000000000000, 3000000000000, 4000000000000, 5000000000000, 6000000000000, 7000000000000, 8000000000000, 9000000000000,
      10000000000000, 20000000000000, 30000000000000, 40000000000000, 50000000000000, 60000000000000, 70000000000000, 80000000000000, 90000000000000,
      100000000000000, 200000000000000, 300000000000000, 400000000000000, 500000000000000, 600000000000000, 700000000000000, 800000000000000, 900000000000000,
      1000000000000000, 2000000000000000, 3000000000000000, 4000000000000000, 5000000000000000, 6000000000000000, 7000000000000000, 8000000000000000, 9000000000000000,
      10000000000000000, 20000000000000000, 30000000000000000, 40000000000000000, 50000000000000000, 60000000000000000, 70000000000000000, 80000000000000000, 90000000000000000,
      100000000000000000, 200000000000000000, 300000000000000000, 400000000000000000, 500000000000000000, 600000000000000000, 700000000000000000, 800000000000000000, 900000000000000000,
      1000000000000000000, 2000000000000000000, 3000000000000000000, 4000000000000000000, 5000000000000000000, 6000000000000000000, 7000000000000000000, 8000000000000000000, 9000000000000000000,
      10000000000000000000]"

text \<open>\<open>std::lower_bound\<close> on a sorted sequence: the number of entries below the value.\<close>

definition lower_bound :: "nat list \<Rightarrow> nat \<Rightarrow> nat" where
  "lower_bound xs v = length (takeWhile (\<lambda>x. x < v) xs)"

definition isAmountApplicableInFusionTransactionInput :: "currency \<Rightarrow> u64 \<Rightarrow> u64 \<Rightarrow> u8 option" where
  "isAmountApplicableInFusionTransactionInput cur amount threshold =
     (if threshold \<le> amount then None
      else if amount < m_defaultDustThreshold cur then None
      else
        let it = lower_bound PRETTY_AMOUNTS (unat amount)
        in if it = length PRETTY_AMOUNTS \<or> unat amount \<noteq> PRETTY_AMOUNTS ! it then None
           else Some (of_nat (it div 9)))"

section \<open>Amounts as text\<close>

definition digit_char :: "nat \<Rightarrow> char" where
  "digit_char d = char_of (48 + d)"

definition isdigit :: "char \<Rightarrow> bool" where
  "isdigit c \<longleftrightarrow> 48 \<le> (of_char c :: nat) \<and> of_char c \<le> (57 :: nat)"

text \<open>\<open>std::to_string\<close> of an unsigned integer.\<close>

fun to_string :: "nat \<Rightarrow> string" where
  "to_string n = (if n < 10 then [digit_char n] else to_string (n div 10) @ [digit_char (n mod 10)])"

declare to_string.simps [simp del]

text \<open>
  \<open>operator>>\<close> of a string stream into a \<open>uint64_t\<close>, on a nonempty string of digits (the only strings
  \<open>parseAmount\<close> passes): the value, or failure when it does not fit.
\<close>

definition digits_value :: "string \<Rightarrow> nat" where
  "digits_value s = foldl (\<lambda>n c. n * 10 + (of_char c - 48)) 0 s"

definition from_string :: "string \<Rightarrow> u64 option" where
  "from_string s = (if digits_value s < 2 ^ 64 then Some (of_nat (digits_value s)) else None)"

definition formatAmount :: "currency \<Rightarrow> u64 \<Rightarrow> string" where
  "formatAmount cur amount =
     (let places = unat (m_numberOfDecimalPlaces cur);
          s = to_string (unat amount);
          s = (if length s < places + 1 then replicate (places + 1 - length s) (CHR ''0'') @ s else s)
      in take (length s - places) s @ ''.'' @ drop (length s - places) s)"

text \<open>The overload for \<open>int64_t\<close>.\<close>

definition formatSignedAmount :: "currency \<Rightarrow> u64 \<Rightarrow> string" where
  "formatSignedAmount cur amount =
     (let s = formatAmount cur (of_int \<bar>sint amount\<bar>) in if sint amount < 0 then ''-'' @ s else s)"

definition isspace :: "char \<Rightarrow> bool" where
  "isspace c \<longleftrightarrow> (of_char c :: nat) \<in> {9, 10, 11, 12, 13, 32}"

definition trim :: "string \<Rightarrow> string" where
  "trim s = rev (dropWhile isspace (rev (dropWhile isspace s)))"

text \<open>The loop that erases trailing zeros of a fraction that is too long.\<close>

fun drop_zeros :: "nat \<Rightarrow> string \<Rightarrow> nat \<Rightarrow> string \<times> nat" where
  "drop_zeros places s 0 = (s, 0)"
| "drop_zeros places s (Suc fractionSize) =
     (if places < Suc fractionSize \<and> CHR ''0'' = last s then drop_zeros places (butlast s) fractionSize
      else (s, Suc fractionSize))"

definition parseAmount :: "currency \<Rightarrow> string \<Rightarrow> u64 option" where
  "parseAmount cur str =
     (let places = unat (m_numberOfDecimalPlaces cur);
          strAmount = trim str;
          pointIndex = length (takeWhile (\<lambda>c. c \<noteq> CHR ''.'') strAmount);
          r = (if pointIndex < length strAmount then
                 let (s, fractionSize) = drop_zeros places strAmount (length strAmount - pointIndex - 1)
                 in if places < fractionSize then None
                    else Some (take pointIndex s @ drop (pointIndex + 1) s, fractionSize)
               else Some (strAmount, 0))
      in case r of
           None \<Rightarrow> None
         | Some (s, fractionSize) \<Rightarrow>
             if s = [] then None
             else if \<not> list_all isdigit s then None
             else from_string (if fractionSize < places then s @ replicate (places - fractionSize) (CHR ''0'') else s))"

section \<open>Difficulty and sizes\<close>

definition nextDifficulty :: "currency \<Rightarrow> u64 list \<Rightarrow> u64 list \<Rightarrow> exn + u64" where
  "nextDifficulty cur timestamps cumulativeDifficulties =
     next_difficulty timestamps (of_nat (length timestamps)) cumulativeDifficulties
       \<lparr>dc_target = ucast (m_difficultyTarget cur), dc_cut = ucast (m_difficultyCut cur),
        dc_lag = ucast (m_difficultyLag cur), dc_window = ucast (m_difficultyWindow cur)\<rparr>"

definition getApproximateMaximumInputCount :: "u64 \<Rightarrow> u64 \<Rightarrow> u64 \<Rightarrow> u64" where
  "getApproximateMaximumInputCount transactionSize outputCount mixinCount =
     (let outputsSize = outputCount * (1 + 32 + 10);
          headerSize = 1 + 8 + 1 + 32;
          inputSize = 1 + 10 + 32 + 64 + 1 + 4 + mixinCount * (4 + 64)
      in (transactionSize - headerSize - outputsSize) div inputSize)"

text \<open>\<open>math::medianValue\<close> of \<open>src/common/math.hpp\<close> on 64-bit values.\<close>

definition medianValue :: "u64 list \<Rightarrow> u64" where
  "medianValue v =
     (if v = [] then 0
      else if length v = 1 then v ! 0
      else
        let n = length v div 2; v = sort v
        in if odd (length v) then v ! n else (v ! (n - 1) + v ! n) div 2)"

section \<open>Emission\<close>

lemma default_currency_values [simp]:
  "m_moneySupply default_currency = 10000000000000000"
  "m_emissionSpeedFactor default_currency = 18"
  "m_blockGrantedFullRewardZone default_currency = 10000"
  "m_minedMoneyUnlockWindow default_currency = 60"
  "m_numberOfDecimalPlaces default_currency = 8"
  "m_defaultDustThreshold default_currency = 100"
  "m_fusionTxMaxSize default_currency = 3000"
  "m_fusionTxMinInputCount default_currency = 12"
  "m_fusionTxMinInOutCountRatio default_currency = 4"
  by (simp_all add: default_currency_def)

lemma bit_length_pos: "n \<noteq> 0 \<Longrightarrow> 0 < bit_length n"
  by (subst bit_length.simps) simp

lemma bit_length_lower: "n \<noteq> 0 \<Longrightarrow> 2 ^ (bit_length n - 1) \<le> n"
proof (induction n rule: bit_length.induct)
  case (1 n)
  show ?case
  proof (cases "n div 2 = 0")
    case True
    then have "bit_length n = 1" using 1(2) by (subst bit_length.simps) (simp add: bit_length.simps [of 0])
    then show ?thesis using 1(2) by simp
  next
    case False
    have b: "bit_length n - 1 = Suc (bit_length (n div 2) - 1)"
      using bit_length_pos [OF False] 1(2) by (subst bit_length.simps) simp
    have "2 * 2 ^ (bit_length (n div 2) - 1) \<le> 2 * (n div 2)" using 1(1) [OF 1(2) False] by simp
    then show ?thesis unfolding b by simp
  qed
qed

lemma to_double_le: "to_double n \<le> 2 * n"
proof -
  define k where "k = bit_length n - 53"
  define q where "q = n div 2 ^ k"
  have q: "q * 2 ^ k \<le> n" by (simp add: q_def)
  have "to_double n = q * 2 ^ k \<or> to_double n = (q + 1) * 2 ^ k \<and> k \<noteq> 0"
    by (auto simp: to_double_def Let_def k_def q_def)
  then show ?thesis
  proof
    assume t: "to_double n = (q + 1) * 2 ^ k \<and> k \<noteq> 0"
    then have "n \<noteq> 0" using bit_length.simps [of 0] by (cases "n = 0") (simp_all add: k_def)
    then have "2 ^ (bit_length n - 1) \<le> n" by (rule bit_length_lower)
    moreover have "(2 :: nat) ^ k \<le> 2 ^ (bit_length n - 1)" by (rule power_increasing) (simp_all add: k_def)
    ultimately have "2 ^ k \<le> n" by (rule le_trans [rotated])
    then show ?thesis using t q by (simp add: add_mult_distrib)
  qed (use q in simp)
qed

lemma times_one_fifth_less:
  assumes "n \<noteq> 0"
  shows "unat (times_one_fifth n) < unat n"
proof -
  define d where "d = to_double (to_double (unat n) * 3602879701896397)"
  have "d \<le> 4 * unat n * 3602879701896397"
    using to_double_le [of "to_double (unat n) * 3602879701896397"] to_double_le [of "unat n"] by (simp add: d_def)
  also have "\<dots> < unat n * 18014398509481984" using assms by (simp add: unat_gt_0)
  finally have "d div 18014398509481984 < unat n" by (simp add: less_mult_imp_div_less)
  moreover from this have "unat (of_nat (d div 18014398509481984) :: u64) = d div 18014398509481984"
    using unat_lt64 [of n] by (simp add: unat_of_nat_u64)
  ultimately show ?thesis by (simp add: times_one_fifth_def d_def)
qed

lemma base_reward_bound:
  assumes "a \<le> m_moneySupply cur"
  shows "unat a + unat (base_reward cur a) \<le> unat (m_moneySupply cur)"
proof -
  define s where "s = m_moneySupply cur"
  define b where "b = (if a = 1 then times_one_fifth s else if a = 0 then 1 else
    drop_bit (unat (m_emissionSpeedFactor cur)) (s - a))"
  have le: "unat a \<le> unat s" using assms by (simp add: s_def word_le_nat_alt)
  have base: "base_reward cur a = (if s \<le> a + b then 0 else b)"
    by (auto simp: base_reward_def s_def b_def Let_def)
  have "unat a + unat b \<le> unat s \<or> a = 0 \<and> b = 1"
  proof (cases "a = 1")
    case True
    then have "s \<noteq> 0" using le by auto
    then show ?thesis using times_one_fifth_less [of s] True by (simp add: b_def)
  next
    case False
    have "unat (drop_bit (unat (m_emissionSpeedFactor cur)) (s - a)) \<le> unat (s - a)"
      unfolding unat_drop_bit_eq by (simp add: drop_bit_eq_div)
    also have "unat (s - a) = unat s - unat a" using assms by (simp add: s_def unat_sub)
    finally show ?thesis using False le by (auto simp: b_def)
  qed
  then have "unat (a + b) = unat a + unat b"
    using unat_lt64 [of s] by (auto simp: unat_word_ariths)
  then show ?thesis using le unfolding base s_def [symmetric] by (auto simp: word_le_nat_alt)
qed

text \<open>The two penalised amounts, as naturals.\<close>

lemma getBlockReward_value:
  fixes fee :: u64
  assumes "a \<le> m_moneySupply cur" "0 < m_emissionSpeedFactor cur" "m_emissionSpeedFactor cur \<le> 64"
    and "unat (max m (m_blockGrantedFullRewardZone cur)) < 4294967296" "unat c < 4294967296"
  defines "med \<equiv> unat (max m (m_blockGrantedFullRewardZone cur))"
  defines "pb \<equiv> of_nat (penalized (unat (base_reward cur a)) med (unat c)) :: u64"
    and "pf \<equiv> of_nat (penalized (unat fee) med (unat c)) :: u64"
  shows "getBlockReward cur m c a fee =
    (if 2 * med < unat c then Inr None else Inr (Some (pb + pf, pb - (fee - pf))))"
proof -
  define x where "x = max m (m_blockGrantedFullRewardZone cur)"
  have x: "unat x = med" "med < 4294967296" using assms(4) by (simp_all add: med_def x_def)
  have "unat (2 * x) = 2 * med" using x by (simp add: unat_word_ariths)
  then have big: "2 * x < c \<longleftrightarrow> 2 * med < unat c" by (simp add: word_less_nat_alt)
  show ?thesis
  proof (cases "2 * med < unat c")
    case True
    then show ?thesis using assms(1-3) big by (simp add: getBlockReward_def x_def Let_def)
  next
    case False
    then have "get_penalized_amount y x c = Inr (of_nat (penalized (unat y) med (unat c)))" for y
      using get_penalized_amount_value [of c x y] x assms(5) by simp
    then show ?thesis using assms(1-3) big False
      by (simp add: getBlockReward_def x_def pb_def pf_def Let_def)
  qed
qed

lemma unat_of_nat_penalized:
  assumes "c \<le> 2 * med"
  shows "unat (of_nat (penalized (unat (y :: u64)) med c) :: u64) = penalized (unat y) med c"
  using penalized_le [OF assms, of "unat y"] unat_lt64 [of y] by (simp add: unat_of_nat_u64)

text \<open>
  C10: \<open>getBlockReward\<close> refuses exactly the blocks above twice the median, and otherwise pays at most the
  remaining supply: the coins in circulation grow by exactly the reward minus the fees, without
  wrap-around, and never beyond the money supply. The fees of a block are coins already in circulation.
\<close>

theorem block_reward_emission:
  assumes "a \<le> m_moneySupply cur" "0 < m_emissionSpeedFactor cur" "m_emissionSpeedFactor cur \<le> 64"
    and "unat (max m (m_blockGrantedFullRewardZone cur)) < 2 ^ 32" "unat c < 2 ^ 32" "fee \<le> a"
  shows "if 2 * unat (max m (m_blockGrantedFullRewardZone cur)) < unat c
    then getBlockReward cur m c a fee = Inr None
    else \<exists>reward change. getBlockReward cur m c a fee = Inr (Some (reward, change))
      \<and> unat (a + change) + unat fee = unat a + unat reward \<and> a + change \<le> m_moneySupply cur"
proof (cases "2 * unat (max m (m_blockGrantedFullRewardZone cur)) < unat c")
  case True
  then show ?thesis using getBlockReward_value [of a cur m c] assms by simp
next
  case False
  define med where "med = unat (max m (m_blockGrantedFullRewardZone cur))"
  define pb :: u64 where "pb = of_nat (penalized (unat (base_reward cur a)) med (unat c))"
  define pf :: u64 where "pf = of_nat (penalized (unat fee) med (unat c))"
  have small: "unat c \<le> 2 * med" using False by (simp add: med_def)
  have r: "getBlockReward cur m c a fee = Inr (Some (pb + pf, pb - (fee - pf)))"
    using getBlockReward_value [of a cur m c] assms False by (simp add: pb_def pf_def med_def)
  have pb: "unat pb \<le> unat (base_reward cur a)" and pf: "unat pf \<le> unat fee"
    using penalized_le [OF small] by (simp_all add: pb_def pf_def unat_of_nat_penalized [OF small])
  have le: "unat a + unat pb \<le> unat (m_moneySupply cur)" "unat fee \<le> unat a"
    using base_reward_bound [OF assms(1)] pb assms(6) by (simp_all add: word_le_nat_alt)
  have bound: "unat (m_moneySupply cur) < 18446744073709551616" by (simp add: unat_bounds)
  have rew: "unat (pb + pf) = unat pb + unat pf"
    using le pf bound by (simp add: unat_word_ariths)
  define d where "d = a - fee"
  have d: "unat d = unat a - unat fee" using assms(6) by (simp add: d_def unat_sub)
  have "unat (d + (pb + pf)) = unat a - unat fee + (unat pb + unat pf)"
    using le pf bound rew d by (simp add: unat_plus_if_size word_size)
  moreover have e: "a + (pb - (fee - pf)) = d + (pb + pf)" by (simp add: d_def)
  ultimately have "unat (a + (pb - (fee - pf))) = unat a - unat fee + (unat pb + unat pf)" unfolding e by simp
  then have "unat (a + (pb - (fee - pf))) + unat fee = unat a + unat (pb + pf)
      \<and> a + (pb - (fee - pf)) \<le> m_moneySupply cur"
    using le pf rew by (simp add: word_le_nat_alt)
  then show ?thesis using r False by auto
qed

theorem block_reward_emission_witness:
  "\<exists>reward change. getBlockReward default_currency 8000 15000 1000000 500 = Inr (Some (reward, change))
    \<and> unat (1000000 + change) + 500 = 1000000 + unat reward"
  using block_reward_emission [of 1000000 default_currency 8000 15000 500]
  by auto

section \<open>The miner transaction\<close>

lemma merge_step:
  assumes "1 < length xs"
  defines "ys \<equiv> butlast (xs[length xs - 2 := xs ! (length xs - 2) + last xs])"
  shows "\<exists>zs x y. xs = zs @ [x, y] \<and> ys = zs @ [x + y]"
proof -
  obtain ws y where xs: "xs = ws @ [y]" using assms(1) by (cases xs rule: rev_cases) auto
  then obtain zs x where "ws = zs @ [x]" using assms(1) by (cases ws rule: rev_cases) auto
  then have "xs = zs @ [x, y]" using xs by simp
  then show ?thesis by (auto simp: ys_def list_update_append nth_append butlast_append)
qed

lemma merge_outs_sound:
  assumes "1 \<le> n" "amount_sum xs < 18446744073709551616" "0 \<notin> set xs"
  shows "length (merge_outs n xs) \<le> n \<and> amount_sum (merge_outs n xs) = amount_sum xs
    \<and> 0 \<notin> set (merge_outs n xs)"
  using assms
proof (induction n xs rule: merge_outs.induct)
  case (1 n xs)
  show ?case
  proof (cases "n < length xs")
    case False
    then show ?thesis using 1(2-) by (simp add: merge_outs.simps [of n xs])
  next
    case True
    define ys where "ys = butlast (xs[length xs - 2 := xs ! (length xs - 2) + last xs])"
    have "1 < length xs" using True 1(2) by simp
    then obtain zs x y where xs: "xs = zs @ [x, y]" and ys: "ys = zs @ [x + y]"
      using merge_step unfolding ys_def by blast
    have xy: "unat (x + y) = unat x + unat y" using 1(3) xs by (simp add: unat_word_ariths)
    have "amount_sum ys = amount_sum xs" by (simp add: xs ys xy)
    moreover have "0 \<notin> set ys"
      using 1(4) xy by (auto simp: xs ys simp flip: unat_eq_zero)
    moreover have "merge_outs n xs = merge_outs n ys"
      using True 1(2) by (simp add: merge_outs.simps [of n xs] ys_def)
    ultimately show ?thesis using 1(1) [folded ys_def] True 1(2,3) by simp
  qed
qed

lemma miner_outputs_total:
  assumes "\<And>n. \<exists>k. key n = Some k \<and> length k = 32"
  shows "\<exists>outs. miner_outputs key as n = Some outs \<and> map out_amount outs = as \<and> list_all output_ok outs"
proof (induction as arbitrary: n)
  case (Cons a as)
  obtain k where "key n = Some k" "length k = 32" using assms by blast
  moreover obtain outs where "miner_outputs key as (n + 1) = Some outs" "map out_amount outs = as"
    "list_all output_ok outs" using Cons by blast
  ultimately show ?case by (simp add: output_ok_def [of "\<lparr>out_amount = a, out_target = KeyOutput k\<rparr>"])
qed simp

lemma unat_sum_list_u64: "amount_sum xs < 18446744073709551616 \<Longrightarrow> unat (sum_list xs :: u64) = amount_sum xs"
  by (induction xs) (auto simp: unat_word_ariths)

text \<open>
  C20: whenever the block size gives a reward, \<open>constructMinerTx\<close> succeeds and its transaction has the base
  input of the height, the lock of mined money, at most \<open>maxOuts\<close> outputs, none of them empty, and
  together exactly the reward. The derived keys are assumed to exist and to have 32 bytes.
\<close>

theorem miner_tx_correct:
  assumes "getBlockReward cur medianSize sz already fee = Inr (Some (reward, change))"
    and "length txkey = 32" "\<And>n. \<exists>k. derived_key n = Some k \<and> length k = 32"
    and "length extraNonce \<le> 255" "1 \<le> maxOuts" "maxOuts < 2 ^ 64"
  shows "\<exists>tx'. constructMinerTx cur version txkey derived_key height medianSize already sz fee extraNonce maxOuts tx
      = Inr (Some tx') \<and> prefix_ok tx' \<and> tx_inputs tx' = [BaseInput height]
    \<and> unlockTime tx' = ucast height + m_minedMoneyUnlockWindow cur
    \<and> length (tx_outputs tx') \<le> maxOuts \<and> sum_outputs tx' = unat reward
    \<and> (\<forall>out \<in> set (tx_outputs tx'). out_amount out \<noteq> 0) \<and> signatures tx' = signatures tx"
proof -
  define as where "as = merge_outs maxOuts (decompose_amount_into_digits reward (m_defaultDustThreshold cur))"
  have as: "length as \<le> maxOuts" "amount_sum as = unat reward" "0 \<notin> set as"
    using merge_outs_sound [OF assms(5), of "decompose_amount_into_digits reward (m_defaultDustThreshold cur)"]
      decompose_total [of reward "m_defaultDustThreshold cur"]
    by (simp_all add: as_def unat_bounds)
  have "unat (sum_list as) = unat reward" using unat_sum_list_u64 [of as] as(2) by (simp add: unat_bounds)
  then have sum: "sum_list as = reward" by (simp add: word_unat_eq_iff)
  have "\<exists>extra. length extra \<le> 290
    \<and> (if extraNonce = [] then Some (addTransactionPublicKeyToExtra [] txkey)
      else addExtraNonceToTransactionExtra (addTransactionPublicKeyToExtra [] txkey) extraNonce) = Some extra"
    using assms(2,4)
    by (simp add: addTransactionPublicKeyToExtra_def addExtraNonceToTransactionExtra_def TX_EXTRA_NONCE_MAX_COUNT_def)
  then obtain extra where extra: "length extra \<le> 290"
    "(if extraNonce = [] then Some (addTransactionPublicKeyToExtra [] txkey)
      else addExtraNonceToTransactionExtra (addTransactionPublicKeyToExtra [] txkey) extraNonce) = Some extra"
    by blast
  obtain outs where outs: "miner_outputs derived_key as 0 = Some outs" "map out_amount outs = as"
    "list_all output_ok outs"
    using miner_outputs_total [of derived_key as 0] assms(3) by blast
  have len: "length outs \<le> maxOuts" using as(1) outs(2) by (metis length_map)
  have "set as = out_amount ` set outs" using outs(2) by auto
  then have nz: "\<forall>out \<in> set outs. out_amount out \<noteq> 0" using as(3) by auto
  have tot: "sum_list (map (unat \<circ> out_amount) outs) = unat reward" using as(2) outs(2) by auto
  show ?thesis
    using assms(1,5,6) extra outs(1,3) sum len nz tot
    by (simp add: constructMinerTx_def as_def [symmetric] prefix_ok_def sum_outputs_def)
qed

theorem miner_tx_correct_witness:
  "\<exists>tx'. constructMinerTx default_currency 1 (replicate 32 1) (\<lambda>n. Some (replicate 32 2)) 0 0 0 0 0 [] 1
      \<lparr>tx_version = 0, unlockTime = 0, tx_inputs = [], tx_outputs = [], tx_extra = [], signatures = []\<rparr>
      = Inr (Some tx') \<and> sum_outputs tx' = 1 \<and> unlockTime tx' = 60"
proof -
  have r: "getBlockReward default_currency 0 0 0 0 = Inr (Some (1, 1))"
    by (simp add: getBlockReward_def base_reward_def get_penalized_amount_def word_le_nat_alt)
  show ?thesis
    using miner_tx_correct [OF r, of "replicate 32 1" "\<lambda>n. Some (replicate 32 2)" "[]" 1 1 0
        "\<lparr>tx_version = 0, unlockTime = 0, tx_inputs = [], tx_outputs = [], tx_extra = [], signatures = []\<rparr>"]
    by auto
qed

section \<open>Fusion\<close>

lemma fusion_input_sum_value:
  "fusion_input_sum dust as m = Some s \<Longrightarrow> s = m + sum_list as \<and> (\<forall>a \<in> set as. dust \<le> a)"
  by (induction as arbitrary: m) (fastforce split: if_splits simp: algebra_simps)+

lemma inputs_amounts_sum: "amount_sum (getInputsAmounts_list ins) = sum_list (map (unat \<circ> input_amount) ins)"
  by (induction ins) (auto split: transaction_input.splits)

lemma amount_sum_sort: "amount_sum (sort xs) = amount_sum xs"
  using sum_list_sort [of unat "\<lambda>x. x" xs] by simp

text \<open>
  A transaction recognised as a fusion transaction moves all its money: its outputs are the sorted
  decomposition of the sum of its inputs, so it pays no fee.
\<close>

lemma fusion_pays_no_fee:
  assumes "isFusionTransaction cur tx sz" "check_money_overflow tx"
  shows "sum_outputs tx = sum_inputs tx \<and> get_tx_fee tx = Some 0 \<and> sorted (map out_amount (tx_outputs tx))
    \<and> sz \<le> m_fusionTxMaxSize cur \<and> (\<forall>a \<in> set (getInputsAmounts tx). m_defaultDustThreshold cur \<le> a)"
proof -
  obtain s where s: "fusion_input_sum (m_defaultDustThreshold cur) (getInputsAmounts tx) 0 = Some s"
    and o: "sort (decomposeAmount s (m_defaultDustThreshold cur) []) = map out_amount (tx_outputs tx)"
    and sz: "sz \<le> m_fusionTxMaxSize cur"
    using assms(1) by (auto simp: isFusionTransaction_def isFusionAmounts_def split: if_splits option.splits)
  note v = fusion_input_sum_value [OF s]
  have si: "amount_sum (getInputsAmounts tx) = sum_inputs tx"
    by (simp add: getInputsAmounts_def inputs_amounts_sum sum_inputs_def)
  have "sum_inputs tx < 18446744073709551616"
    using assms(2) by (simp add: check_money_overflow_def check_inputs_overflow_iff)
  then have us: "unat s = sum_inputs tx" using v unat_sum_list_u64 [of "getInputsAmounts tx"] si by simp
  have "amount_sum (map out_amount (tx_outputs tx)) = unat s"
    unfolding o [symmetric] amount_sum_sort by (simp add: decomposeAmount_def decompose_total)
  then have so: "sum_outputs tx = sum_inputs tx" by (simp add: us sum_outputs_def)
  then have "get_tx_fee tx = Some 0" using get_tx_fee_iff [OF assms(2), of 0] by simp
  moreover have "sorted (map out_amount (tx_outputs tx))" unfolding o [symmetric] by simp
  ultimately show ?thesis using so sz v by blast
qed

section \<open>Text\<close>

lemma of_char_digit: "d < 10 \<Longrightarrow> (of_char (digit_char d) :: nat) = 48 + d"
  by (simp add: digit_char_def)

lemma isdigit_digit_char: "d < 10 \<Longrightarrow> isdigit (digit_char d)"
  by (simp add: isdigit_def of_char_digit)

lemma isdigit_zero [simp]: "isdigit (CHR ''0'')"
  by (simp add: isdigit_def)

lemma isdigit_not_point: "isdigit c \<Longrightarrow> c \<noteq> CHR ''.''"
  by (auto simp: isdigit_def)

lemma isdigit_not_space: "isdigit c \<Longrightarrow> \<not> isspace c"
  by (auto simp: isdigit_def isspace_def)

lemma digits_value_snoc: "digits_value (s @ [c]) = digits_value s * 10 + (of_char c - 48)"
  by (simp add: digits_value_def)

lemma digits_value_zeros: "digits_value (replicate k (CHR ''0'') @ s) = digits_value s"
  by (induction k) (simp_all add: digits_value_def)

lemma to_string_sound: "digits_value (to_string n) = n \<and> list_all isdigit (to_string n) \<and> to_string n \<noteq> []"
proof (induction n rule: to_string.induct)
  case (1 n)
  show ?case
  proof (cases "n < 10")
    case True
    then show ?thesis
      by (simp add: to_string.simps [of n] isdigit_digit_char) (simp add: digits_value_def of_char_digit)
  next
    case False
    then show ?thesis using 1
      by (simp add: to_string.simps [of n] digits_value_snoc of_char_digit isdigit_digit_char)
  qed
qed

lemma trim_id: "s \<noteq> [] \<Longrightarrow> \<not> isspace (hd s) \<Longrightarrow> \<not> isspace (last s) \<Longrightarrow> trim s = s"
proof -
  assume s: "s \<noteq> []" "\<not> isspace (hd s)" "\<not> isspace (last s)"
  have "dropWhile isspace s = s" using s by (cases s) simp_all
  moreover have "dropWhile isspace (rev s) = rev s" using s by (cases "rev s") (auto simp: last_rev simp flip: hd_rev)
  ultimately show ?thesis by (simp add: trim_def)
qed

lemma drop_zeros_exact: "drop_zeros n s n = (s, n)"
  by (cases n) simp_all

lemma parse_with_point:
  assumes "list_all isdigit s" "unat (m_numberOfDecimalPlaces cur) < length s"
  defines "i \<equiv> length s - unat (m_numberOfDecimalPlaces cur)"
  shows "parseAmount cur (take i s @ ''.'' @ drop i s) = from_string s"
proof -
  define n where "n = unat (m_numberOfDecimalPlaces cur)"
  define a where "a = take i s"
  define b where "b = drop i s"
  have s: "s = a @ b" by (simp add: a_def b_def)
  have ab: "a \<noteq> []" "list_all isdigit a" "list_all isdigit b" "length b = n" "length a = i"
    using assms(1,2) by (simp_all add: a_def b_def i_def n_def list_all_iff) (auto dest: in_set_takeD in_set_dropD)
  have "\<not> isspace (last (a @ ''.'' @ b))"
  proof (cases "b = []")
    case True
    then show ?thesis by (simp add: isspace_def)
  next
    case False
    then show ?thesis using ab(3) isdigit_not_space [of "last b"] by (simp add: list_all_iff)
  qed
  moreover have "\<not> isspace (hd (a @ ''.'' @ b))"
    using ab isdigit_not_space [of "hd a"] by (simp add: list_all_iff)
  ultimately have t: "trim (a @ ''.'' @ b) = a @ ''.'' @ b" by (intro trim_id) simp_all
  have "takeWhile (\<lambda>c. c \<noteq> CHR ''.'') (a @ ''.'' @ b) = a"
    using ab(2) isdigit_not_point by (auto simp: list_all_iff takeWhile_append)
  then have "parseAmount cur (a @ ''.'' @ b) = from_string (a @ b)"
    using t ab assms(1) by (simp add: parseAmount_def n_def [symmetric] drop_zeros_exact)
  then show ?thesis by (simp only: a_def b_def append_take_drop_id)
qed

text \<open>
  C31: the text of an amount has exactly the currency's number of digits behind the point, and
  \<open>parseAmount\<close> reads it back.
\<close>

theorem amount_text_roundtrip:
  "parseAmount cur (formatAmount cur amount) = Some amount
   \<and> (\<exists>whole frac. formatAmount cur amount = whole @ ''.'' @ frac \<and> whole \<noteq> []
        \<and> list_all isdigit (whole @ frac) \<and> length frac = unat (m_numberOfDecimalPlaces cur))"
proof -
  define n where "n = unat (m_numberOfDecimalPlaces cur)"
  define t where "t = to_string (unat amount)"
  define s where "s = (if length t < n + 1 then replicate (n + 1 - length t) (CHR ''0'') @ t else t)"
  have t: "digits_value t = unat amount" "list_all isdigit t" "t \<noteq> []"
    using to_string_sound [of "unat amount"] by (simp_all add: t_def)
  have s: "digits_value s = unat amount" "list_all isdigit s" "n < length s"
    using t by (simp_all add: s_def digits_value_zeros) (auto simp: list_all_iff)
  have f: "formatAmount cur amount = take (length s - n) s @ ''.'' @ drop (length s - n) s"
    unfolding formatAmount_def Let_def n_def [symmetric] t_def [symmetric] s_def [symmetric] by (rule refl)
  have "parseAmount cur (formatAmount cur amount) = from_string s"
    unfolding f using parse_with_point [of s cur] s by (simp add: n_def)
  moreover have "from_string s = Some amount" using s(1) by (simp add: from_string_def unat_bounds)
  moreover have "\<exists>whole frac. formatAmount cur amount = whole @ ''.'' @ frac \<and> whole \<noteq> []
      \<and> list_all isdigit (whole @ frac) \<and> length frac = n"
    unfolding f using s(2,3)
    by (intro exI [of _ "take (length s - n) s"] exI [of _ "drop (length s - n) s"]) auto
  ultimately show ?thesis by (simp add: n_def)
qed

section \<open>Pretty amounts\<close>

lemma PRETTY_AMOUNTS_formula: "PRETTY_AMOUNTS = map (\<lambda>i. (i mod 9 + 1) * 10 ^ (i div 9)) [0..<172]"
  by (simp add: PRETTY_AMOUNTS_def upt_conv_Cons)

lemma PRETTY_AMOUNTS_nth: "i < 172 \<Longrightarrow> PRETTY_AMOUNTS ! i = (i mod 9 + 1) * 10 ^ (i div 9)"
  and length_PRETTY_AMOUNTS [simp]: "length PRETTY_AMOUNTS = 172"
  by (simp_all add: PRETTY_AMOUNTS_formula)

lemma PRETTY_AMOUNTS_sorted: "sorted_wrt (<) PRETTY_AMOUNTS"
  by (simp add: PRETTY_AMOUNTS_def sorted_wrt2 del: sorted_wrt.simps(2)) simp

lemma lower_bound_nth:
  assumes "sorted_wrt (<) xs" "i < length xs"
  shows "lower_bound xs (xs ! i) = i"
proof -
  have "takeWhile (\<lambda>x. x < xs ! i) xs = take i xs"
    using assms by (intro takeWhile_eq_take_P_nth) (auto simp: sorted_wrt_iff_nth_less)
  then show ?thesis using assms(2) by (simp add: lower_bound_def)
qed

lemma pretty_range:
  assumes "1 \<le> d" "d \<le> 9" "unat (amount :: u64) = d * 10 ^ k"
  shows "9 * k + (d - 1) < 172"
proof -
  have lt: "d * 10 ^ k < 18446744073709551616" using unat_lt64 [of amount] assms(3) by simp
  have "k < 20"
  proof (rule ccontr)
    assume "\<not> k < 20"
    then have "(10 :: nat) ^ 20 \<le> 10 ^ k" by (intro power_increasing) simp_all
    also have "\<dots> \<le> d * 10 ^ k" using assms(1) by simp
    finally show False using lt by simp
  qed
  moreover have "d = 1" if "k = 19" using lt assms(1,2) that by simp
  ultimately show ?thesis using assms(2) by (cases "k = 19") simp_all
qed

text \<open>
  An amount may be an input of a fusion transaction exactly when it lies between the dust threshold
  and the given threshold and is a digit times a power of ten, the power that is returned.
\<close>

lemma applicable_iff_pretty:
  "isAmountApplicableInFusionTransactionInput cur amount threshold = Some p \<longleftrightarrow>
     amount < threshold \<and> m_defaultDustThreshold cur \<le> amount
     \<and> (\<exists>d. 1 \<le> d \<and> d \<le> 9 \<and> unat amount = d * 10 ^ unat p)"
proof -
  have iff: "isAmountApplicableInFusionTransactionInput cur amount threshold = Some p \<longleftrightarrow>
      amount < threshold \<and> m_defaultDustThreshold cur \<le> amount
      \<and> (\<exists>i < 172. unat amount = PRETTY_AMOUNTS ! i \<and> p = of_nat (i div 9))"
  proof -
    have "(\<exists>i < 172. unat amount = PRETTY_AMOUNTS ! i \<and> p = of_nat (i div 9)) \<longleftrightarrow>
        (let it = lower_bound PRETTY_AMOUNTS (unat amount)
         in it \<noteq> 172 \<and> unat amount = PRETTY_AMOUNTS ! it \<and> p = of_nat (it div 9))"
    proof -
      have "lower_bound PRETTY_AMOUNTS (unat amount) \<le> 172"
        using length_takeWhile_le [of _ PRETTY_AMOUNTS] by (simp add: lower_bound_def)
      moreover have "i < 172 \<Longrightarrow> unat amount = PRETTY_AMOUNTS ! i \<Longrightarrow> lower_bound PRETTY_AMOUNTS (unat amount) = i" for i
        using lower_bound_nth [OF PRETTY_AMOUNTS_sorted, of i] by simp
      ultimately show ?thesis unfolding Let_def by (metis le_neq_implies_less less_irrefl)
    qed
    then show ?thesis
      by (auto simp: isAmountApplicableInFusionTransactionInput_def Let_def not_less not_le)
  qed
  have "(\<exists>i < 172. unat amount = PRETTY_AMOUNTS ! i \<and> p = of_nat (i div 9)) \<longleftrightarrow>
      (\<exists>d. 1 \<le> d \<and> d \<le> 9 \<and> unat amount = d * 10 ^ unat p)"
  proof
    assume "\<exists>i < 172. unat amount = PRETTY_AMOUNTS ! i \<and> p = of_nat (i div 9)"
    then obtain i where i: "i < 172" "unat amount = (i mod 9 + 1) * 10 ^ (i div 9)" "p = of_nat (i div 9)"
      by (auto simp: PRETTY_AMOUNTS_nth)
    have "unat p = i div 9" using i(1,3) by (simp add: unat_of_nat_u8)
    then show "\<exists>d. 1 \<le> d \<and> d \<le> 9 \<and> unat amount = d * 10 ^ unat p"
      using i(2) by (intro exI [of _ "i mod 9 + 1"]) simp
  next
    assume "\<exists>d. 1 \<le> d \<and> d \<le> 9 \<and> unat amount = d * 10 ^ unat p"
    then obtain d where d: "1 \<le> d" "d \<le> 9" "unat amount = d * 10 ^ unat p" by blast
    define i where "i = 9 * unat p + (d - 1)"
    have i: "i div 9 = unat p" "i mod 9 + 1 = d"
      using d(1,2) by (cases d; simp add: i_def)+
    have "i < 172" using pretty_range [OF d] by (simp add: i_def)
    moreover have "unat amount = PRETTY_AMOUNTS ! i" using PRETTY_AMOUNTS_nth [OF calculation] d(3) by (simp only: i)
    moreover have "p = of_nat (i div 9)" by (simp add: i)
    ultimately show "\<exists>i < 172. unat amount = PRETTY_AMOUNTS ! i \<and> p = of_nat (i div 9)" by blast
  qed
  then show ?thesis using iff by blast
qed

end
