(* ===== verification/Indices.thy ===== *)
theory Indices
  imports TxExtra TxStream "HOL-Library.Multiset"
begin

text \<open>
  The indices of \<open>src/cryptonote/core/blockchain/indexing\<close>: multimaps from payment ids, timestamps and
  heights to hashes, and the running count of transactions. A multimap is the list of its entries in
  iteration order.
\<close>

section \<open>Definitions\<close>

text \<open>\<open>std::multimap::emplace\<close>: behind every entry with the same key.\<close>

fun mm_emplace :: "'k :: linorder \<Rightarrow> 'v \<Rightarrow> ('k \<times> 'v) list \<Rightarrow> ('k \<times> 'v) list" where
  "mm_emplace k v [] = [(k, v)]"
| "mm_emplace k v ((k', v') # xs) = (if k < k' then (k, v) # (k', v') # xs else (k', v') # mm_emplace k v xs)"

text \<open>The loop over \<open>equal_range\<close> that erases the first entry with the given value.\<close>

fun mm_erase :: "'k \<Rightarrow> 'v \<Rightarrow> ('k \<times> 'v) list \<Rightarrow> bool \<times> ('k \<times> 'v) list" where
  "mm_erase k v [] = (False, [])"
| "mm_erase k v ((k', v') # xs) =
     (if k = k' \<and> v = v' then (True, xs)
      else let (found, xs) = mm_erase k v xs in (found, (k', v') # xs))"

text \<open>The loop over \<open>equal_range\<close> that collects the values.\<close>

definition mm_equal_range :: "'k \<Rightarrow> ('k \<times> 'v) list \<Rightarrow> 'v list" where
  "mm_equal_range k xs = map snd (filter (\<lambda>e. fst e = k) xs)"

text \<open>\<open>PaymentIdIndex\<close>, with \<open>BlockchainExplorerDataBuilder::getPaymentId\<close>, which ignores the parser's result.\<close>

type_synonym payment_index = "(hash_t \<times> hash_t) list"

definition getPaymentId :: "transaction \<Rightarrow> hash_t option" where
  "getPaymentId tx =
     (case find_nonce (snd (parseTransactionExtra (tx_extra tx))) of
        None \<Rightarrow> None
      | Some n \<Rightarrow> getPaymentIdFromTransactionExtraNonce n)"

definition payment_add :: "transaction \<Rightarrow> payment_index \<Rightarrow> bool \<times> payment_index" where
  "payment_add tx index =
     (case getPaymentId tx of None \<Rightarrow> (False, index) | Some p \<Rightarrow> (True, (p, tx_hash tx) # index))"

definition payment_remove :: "transaction \<Rightarrow> payment_index \<Rightarrow> bool \<times> payment_index" where
  "payment_remove tx index =
     (case getPaymentId tx of None \<Rightarrow> (False, index) | Some p \<Rightarrow> mm_erase p (tx_hash tx) index)"

definition payment_find :: "hash_t \<Rightarrow> payment_index \<Rightarrow> bool \<times> hash_t list" where
  "payment_find p index = (let hs = mm_equal_range p index in (hs \<noteq> [], hs))"

text \<open>\<open>TimestampBlocksIndex\<close> and \<open>TimestampTransactionsIndex\<close>, which have the same bodies.\<close>

type_synonym timestamp_index = "(u64 \<times> hash_t) list"

definition timestamp_add :: "u64 \<Rightarrow> hash_t \<Rightarrow> timestamp_index \<Rightarrow> timestamp_index" where
  "timestamp_add t h index = mm_emplace t h index"

definition timestamp_remove :: "u64 \<Rightarrow> hash_t \<Rightarrow> timestamp_index \<Rightarrow> bool \<times> timestamp_index" where
  "timestamp_remove t h index = mm_erase t h index"

text \<open>
  \<open>find\<close> walks from \<open>lower_bound\<close> of the beginning to \<open>upper_bound\<close> of the end, and returns the number of
  entries in the range and the first ones up to the limit; \<open>None\<close> is a refusal before any output is set.
\<close>

definition timestamp_find :: "u64 \<Rightarrow> u64 \<Rightarrow> u64 \<Rightarrow> timestamp_index \<Rightarrow> (bool \<times> hash_t list \<times> u32) option" where
  "timestamp_find timestampBegin timestampEnd limit index =
     (if timestampEnd < timestampBegin then None
      else
        let range = takeWhile (\<lambda>e. fst e \<le> timestampEnd) (dropWhile (\<lambda>e. fst e < timestampBegin) index);
            hashes = map snd (take (unat limit) range)
        in Some (hashes \<noteq> [], hashes, of_nat (length range)))"

text \<open>\<open>boost::get<base_input_t>(block.baseTransaction.inputs.front()).blockIndex\<close>: anything else throws.\<close>

definition base_height :: "block \<Rightarrow> exn + u32" where
  "base_height b =
     (case tx_inputs (baseTransaction b) of BaseInput h # _ \<Rightarrow> Inr h | _ \<Rightarrow> Inl OutOfRange)"

text \<open>\<open>OrphanBlocksIndex\<close>; \<open>hash\<close> stands for \<open>Block::getHash\<close>.\<close>

type_synonym orphan_index = "(u32 \<times> hash_t) list"

definition orphan_add :: "hash_t \<Rightarrow> u32 \<Rightarrow> orphan_index \<Rightarrow> orphan_index" where
  "orphan_add blockHash blockHeight index = (blockHeight, blockHash) # index"

definition orphan_remove :: "hash_t \<Rightarrow> u32 \<Rightarrow> orphan_index \<Rightarrow> bool \<times> orphan_index" where
  "orphan_remove blockHash blockHeight index = mm_erase blockHeight blockHash index"

definition orphan_find :: "u32 \<Rightarrow> orphan_index \<Rightarrow> bool \<times> hash_t list" where
  "orphan_find blockHeight index = (let hs = mm_equal_range blockHeight index in (hs \<noteq> [], hs))"

text \<open>\<open>GeneratedTransactionsIndex\<close>. The \<open>unordered_map\<close> has one entry for each key.\<close>

record generated_index =
  gi_index :: "(u32 \<times> u64) list"
  lastGeneratedTxNumber :: u64

definition generated_new :: generated_index where
  "generated_new = \<lparr>gi_index = [], lastGeneratedTxNumber = 0\<rparr>"

definition generated_add :: "block \<Rightarrow> generated_index \<Rightarrow> exn + bool \<times> generated_index" where
  "generated_add b g =
     (case base_height b of
        Inl e \<Rightarrow> Inl e
      | Inr blockHeight \<Rightarrow>
          if of_nat (length (gi_index g)) \<noteq> (ucast blockHeight :: u64) then Inr (False, g)
          else if map_of (gi_index g) blockHeight \<noteq> None then Inr (False, g)
          else
            let n = lastGeneratedTxNumber g + of_nat (length (transactionHashes b)) + 1
            in Inr (True, \<lparr>gi_index = (blockHeight, n) # gi_index g, lastGeneratedTxNumber = n\<rparr>))"

definition generated_remove :: "block \<Rightarrow> generated_index \<Rightarrow> exn + bool \<times> generated_index" where
  "generated_remove b g =
     (case base_height b of
        Inl e \<Rightarrow> Inl e
      | Inr blockHeight \<Rightarrow>
          if (ucast blockHeight :: u64) \<noteq> of_nat (length (gi_index g)) - 1 then Inr (False, g)
          else if map_of (gi_index g) blockHeight = None then Inl AssertFailed
          else
            let index = filter (\<lambda>e. fst e \<noteq> blockHeight) (gi_index g)
            in if blockHeight \<noteq> 0 then
                 (case map_of index (blockHeight - 1) of
                    None \<Rightarrow> Inl AssertFailed
                  | Some n \<Rightarrow> Inr (True, \<lparr>gi_index = index, lastGeneratedTxNumber = n\<rparr>))
               else Inr (True, \<lparr>gi_index = index, lastGeneratedTxNumber = 0\<rparr>))"

definition generated_find :: "u32 \<Rightarrow> generated_index \<Rightarrow> u64 option" where
  "generated_find blockHeight g = map_of (gi_index g) blockHeight"

definition generated_clear :: "generated_index \<Rightarrow> generated_index" where
  "generated_clear g = g\<lparr>gi_index := []\<rparr>"

section \<open>Multimaps\<close>

text \<open>What the clients of a multimap index rely on.\<close>

locale multimap_index =
  fixes ok :: "('k \<times> 'v) list \<Rightarrow> bool"
    and add :: "'k \<Rightarrow> 'v \<Rightarrow> ('k \<times> 'v) list \<Rightarrow> ('k \<times> 'v) list"
    and remove :: "'k \<Rightarrow> 'v \<Rightarrow> ('k \<times> 'v) list \<Rightarrow> bool \<times> ('k \<times> 'v) list"
  assumes add_ok: "ok xs \<Longrightarrow> ok (add k v xs)"
    and add_mset: "mset (add k v xs) = add_mset (k, v) (mset xs)"
    and remove_ok: "ok xs \<Longrightarrow> ok (snd (remove k v xs))"
    and remove_mset: "mset (snd (remove k v xs)) = mset xs - {#(k, v)#}"
    and remove_found: "fst (remove k v xs) \<longleftrightarrow> (k, v) \<in> set xs"
begin

lemma remove_added: "fst (remove k v (add k v xs)) \<and> mset (snd (remove k v (add k v xs))) = mset xs"
  by (metis add_mset add_mset_remove_trivial remove_found remove_mset set_mset_mset union_single_eq_member)

lemma set_add: "set (add k v xs) = insert (k, v) (set xs)"
  by (metis add_mset set_mset_add_mset_insert set_mset_mset)

lemma remove_absent: "(k, v) \<notin> set xs \<Longrightarrow> mset (snd (remove k v xs)) = mset xs"
  by (simp add: remove_mset diff_single_trivial)

end

lemma mset_mm_emplace: "mset (mm_emplace k v xs) = add_mset (k, v) (mset xs)"
  by (induction k v xs rule: mm_emplace.induct) auto

lemma sorted_mm_emplace: "sorted (map fst xs) \<Longrightarrow> sorted (map fst (mm_emplace k v xs))"
proof (induction k v xs rule: mm_emplace.induct)
  case (2 k v k' v' xs)
  have "set (map fst (mm_emplace k v xs)) = insert k (fst ` set xs)"
    using arg_cong [OF mset_mm_emplace, of set_mset k v xs] by simp
  then show ?case using 2 by (fastforce simp: less_imp_le)
qed simp

lemma mm_erase_remove1: "mm_erase k v xs = ((k, v) \<in> set xs, remove1 (k, v) xs)"
  by (induction k v xs rule: mm_erase.induct) auto

interpretation timestamps: multimap_index "\<lambda>xs. sorted (map fst xs)" timestamp_add timestamp_remove
  by unfold_locales
    (auto simp: timestamp_add_def timestamp_remove_def mset_mm_emplace sorted_mm_emplace mm_erase_remove1 sorted_map_remove1)

interpretation orphans: multimap_index "\<lambda>_. True" "\<lambda>k v. orphan_add v k" "\<lambda>k v. orphan_remove v k"
  by unfold_locales (auto simp: orphan_add_def orphan_remove_def mm_erase_remove1)

lemma sorted_range:
  assumes "sorted (map fst xs)"
  shows "takeWhile (\<lambda>e. fst e \<le> hi) (dropWhile (\<lambda>e. fst e < lo) xs) = filter (\<lambda>e. lo \<le> fst e \<and> fst e \<le> hi) xs"
  using assms
proof (induction xs)
  case (Cons x xs)
  have tw: "takeWhile (\<lambda>e. fst e \<le> hi) ys = filter (\<lambda>e. fst e \<le> hi) ys" if "sorted (map fst ys)" for ys
    using that by (induction ys) (auto intro!: filter_False [symmetric] dest: order_trans)
  show ?case
  proof (cases "fst x < lo")
    case True
    then show ?thesis using Cons by auto
  next
    case False
    then have "\<forall>y \<in> set (x # xs). lo \<le> fst y" using Cons.prems by (auto dest: order_trans)
    then have "filter (\<lambda>e. lo \<le> fst e \<and> fst e \<le> hi) (x # xs) = filter (\<lambda>e. fst e \<le> hi) (x # xs)"
      by (intro filter_cong) auto
    then show ?thesis using tw [OF Cons.prems] False by simp
  qed
qed simp

text \<open>The index as a function of the entries added so far.\<close>

fun timestamps_of :: "(u64 \<times> hash_t) list \<Rightarrow> timestamp_index" where
  "timestamps_of [] = []"
| "timestamps_of ((t, h) # es) = timestamp_add t h (timestamps_of es)"

lemma timestamps_of_sound: "sorted (map fst (timestamps_of es)) \<and> mset (timestamps_of es) = mset es"
  by (induction es rule: timestamps_of.induct) (auto simp: timestamps.add_ok timestamps.add_mset)

text \<open>
  C32: over entries added in any order, \<open>find\<close> counts exactly the entries between the two timestamps and
  returns the oldest of them, up to the limit.
\<close>

theorem timestamp_find_exact:
  assumes "timestampBegin \<le> timestampEnd"
  shows "\<exists>range. timestamp_find timestampBegin timestampEnd limit (timestamps_of es)
      = Some (range \<noteq> [] \<and> limit \<noteq> 0, map snd (take (unat limit) range), of_nat (length range))
    \<and> mset range = filter_mset (\<lambda>e. timestampBegin \<le> fst e \<and> fst e \<le> timestampEnd) (mset es)
    \<and> sorted (map fst range)"
proof -
  define range where "range = filter (\<lambda>e. timestampBegin \<le> fst e \<and> fst e \<le> timestampEnd) (timestamps_of es)"
  have "timestamp_find timestampBegin timestampEnd limit (timestamps_of es)
      = Some (range \<noteq> [] \<and> limit \<noteq> 0, map snd (take (unat limit) range), of_nat (length range))"
    using assms timestamps_of_sound [of es]
    by (auto simp: timestamp_find_def sorted_range range_def Let_def unat_eq_zero)
  moreover have "mset range = filter_mset (\<lambda>e. timestampBegin \<le> fst e \<and> fst e \<le> timestampEnd) (mset es)"
    using timestamps_of_sound [of es] by (simp add: range_def)
  moreover have "sorted (map fst range)"
    using timestamps_of_sound [of es] by (simp add: range_def sorted_filter)
  ultimately show ?thesis by blast
qed

theorem timestamp_find_exact_witness:
  "timestamp_find 5 7 1 (timestamps_of [(6, [1]), (9, [2]), (5, [3])]) = Some (True, [[3]], 2)"
proof -
  obtain range where r: "timestamp_find 5 7 1 (timestamps_of [(6, [1]), (9, [2]), (5, [3])])
      = Some (range \<noteq> [], map snd (take 1 range), of_nat (length range))"
    and m: "mset range = {#(6 :: u64, [1]), (5, [3])#}" and s: "sorted (map fst range)"
    using timestamp_find_exact [of 5 7 1 "[(6, [1]), (9, [2]), (5, [3])]"] by auto
  have "range = [(5, [3]), (6, [1])]"
  proof -
    have "length range = 2" using arg_cong [OF m, of size] by simp
    then obtain a b where ab: "range = [a, b]" by (auto simp: length_Suc_conv numeral_2_eq_2)
    then show ?thesis using m s by (auto simp: add_eq_conv_ex)
  qed
  then show ?thesis using r by simp
qed

section \<open>The count of generated transactions\<close>

text \<open>The index over blocks with \<open>ns\<close> transactions beside the miner's.\<close>

definition generated_of :: "nat list \<Rightarrow> generated_index" where
  "generated_of ns =
     \<lparr>gi_index = rev (map (\<lambda>h. (of_nat h, of_nat (sum_list (map Suc (take (Suc h) ns))))) [0..<length ns]),
      lastGeneratedTxNumber = of_nat (sum_list (map Suc ns))\<rparr>"

lemma generated_of_snoc:
  "generated_of (ns @ [n]) =
     \<lparr>gi_index = (of_nat (length ns), lastGeneratedTxNumber (generated_of ns) + of_nat n + 1) # gi_index (generated_of ns),
      lastGeneratedTxNumber = lastGeneratedTxNumber (generated_of ns) + of_nat n + 1\<rparr>"
  by (simp add: generated_of_def algebra_simps)

lemma lastGeneratedTxNumber_of: "lastGeneratedTxNumber (generated_of ns) = of_nat (sum_list (map Suc ns))"
  by (simp add: generated_of_def)

lemma generated_of_lookup:
  assumes "length ns < 4294967296"
  shows "map_of (gi_index (generated_of ns)) h =
    (if unat h < length ns then Some (of_nat (sum_list (map Suc (take (Suc (unat h)) ns)))) else None)"
  using assms
proof (induction ns rule: rev_induct)
  case Nil
  then show ?case by (simp add: generated_of_def)
next
  case (snoc n ns)
  have "h = of_nat (length ns) \<longleftrightarrow> unat h = length ns"
    using snoc.prems by (simp add: word_unat_eq_iff unat_of_nat_u32)
  then show ?case using snoc by (auto simp: generated_of_snoc lastGeneratedTxNumber_of algebra_simps)
qed

lemma generated_of_length: "length (gi_index (generated_of ns)) = length ns"
  by (simp add: generated_of_def)

lemma generated_height:
  assumes "length (ns :: nat list) < 4294967295"
  shows "unat (of_nat (length ns) :: u32) = length ns" and "(ucast (of_nat (length ns) :: u32) :: u64) = of_nat (length ns)"
  using assms by (simp_all add: unat_of_nat_u32 word_unat_eq_iff [where 'a = 64])

lemma generated_add_of:
  assumes "length ns < 4294967295" and "base_height b = Inr (of_nat (length ns))"
  shows "generated_add b (generated_of ns) = Inr (True, generated_of (ns @ [length (transactionHashes b)]))"
  using assms generated_of_lookup [of ns] generated_height [OF assms(1)]
  by (simp add: generated_add_def generated_of_length generated_of_snoc Let_def)

lemma generated_remove_of:
  assumes "length ns < 4294967295" and "base_height b = Inr (of_nat (length ns))"
  shows "generated_remove b (generated_of (ns @ [n])) = Inr (True, generated_of ns)"
proof -
  let ?h = "of_nat (length ns) :: u32"
  note h = generated_height [OF assms(1)] and lk = generated_of_lookup [of ns]
  have idx: "filter (\<lambda>e. fst e \<noteq> ?h) (gi_index (generated_of ns)) = gi_index (generated_of ns)"
  proof -
    have "?h \<notin> fst ` set (gi_index (generated_of ns))"
      using lk [of ?h] assms(1) h(1) by (simp add: map_of_eq_None_iff)
    then show ?thesis by (intro filter_True) force
  qed
  have prev: "map_of (gi_index (generated_of ns)) (?h - 1) = Some (lastGeneratedTxNumber (generated_of ns))" if "ns \<noteq> []"
  proof -
    have "unat (?h - 1) = length ns - 1" using that assms(1) h(1)
      by (simp add: unat_sub word_le_nat_alt Suc_le_eq)
    then show ?thesis using lk [of "?h - 1"] that assms(1) by (simp add: generated_of_def)
  qed
  have "?h = 0 \<longleftrightarrow> ns = []" using h(1) by (auto simp: word_unat_eq_iff)
  then show ?thesis using h prev generated_of_length [of ns] idx
    by (cases "ns = []") (simp_all add: generated_remove_def assms(2) generated_of_snoc Let_def, simp add: generated_of_def)
qed

text \<open>
  C33: \<open>GeneratedTransactionsIndex\<close> implements the list of transaction counts of the blocks: adding the
  block of the next height appends its count, removing the last block takes it back, and a lookup gives
  the number of transactions up to the height, miner transactions included.
\<close>

theorem generated_index_refines:
  assumes "length ns < 4294967295" "base_height b = Inr (of_nat (length ns))"
  defines "n \<equiv> length (transactionHashes b)"
  shows "generated_add b (generated_of ns) = Inr (True, generated_of (ns @ [n]))
    \<and> generated_remove b (generated_of (ns @ [n])) = Inr (True, generated_of ns)
    \<and> generated_find h (generated_of ns) =
        (if unat h < length ns then Some (of_nat (sum_list (map Suc (take (Suc (unat h)) ns)))) else None)"
  using assms generated_of_lookup [of ns]
  by (simp add: generated_add_of generated_remove_of generated_find_def n_def)

theorem generated_index_refines_witness:
  "generated_add \<lparr>majorVersion = 1, minorVersion = 0, nonce = 0, timestamp = 0, previousBlockHash = [],
      baseTransaction = \<lparr>tx_version = 1, unlockTime = 0, tx_inputs = [BaseInput 2], tx_outputs = [], tx_extra = [],
        signatures = []\<rparr>, transactionHashes = [[1], [2], [3]]\<rparr> (generated_of [0, 4])
    = Inr (True, generated_of [0, 4, 3])"
proof -
  let ?b = "\<lparr>majorVersion = 1, minorVersion = 0, nonce = 0, timestamp = 0, previousBlockHash = [],
      baseTransaction = \<lparr>tx_version = 1, unlockTime = 0, tx_inputs = [BaseInput 2], tx_outputs = [], tx_extra = [],
        signatures = []\<rparr>, transactionHashes = [[1], [2], [3]]\<rparr>"
  have "base_height ?b = Inr (of_nat (length [0 :: nat, 4]))" by (simp add: base_height_def)
  from generated_index_refines [OF _ this] show ?thesis by (simp add: numeral_3_eq_3)
qed

text \<open>\<open>clear\<close> forgets the entries but not the running count, so the index is wrong when it is filled again.\<close>

lemma generated_clear_keeps_count:
  assumes "base_height b = Inr 0"
  shows "\<exists>g. generated_add b (generated_clear (generated_of ns)) = Inr (True, g)
    \<and> generated_find 0 g = Some (of_nat (sum_list (map Suc ns) + Suc (length (transactionHashes b))))"
  using assms
  by (simp add: generated_add_def generated_clear_def generated_find_def lastGeneratedTxNumber_of Let_def algebra_simps)

end
