(* ===== verification/TxPool.thy ===== *)
theory TxPool
  imports Currency Indices Complex_Main "HOL-Library.Product_Lexorder"
begin

text \<open>
  \<open>src/cryptonote/core/tx_memory_pool.cpp\<close>: the pool of unconfirmed transactions with its record of spent
  key images and multisignature outputs, and the choice of transactions for a block.
\<close>

section \<open>Definitions\<close>

text \<open>
  The node behind \<open>ITransactionValidator\<close>, as the pool sees it. The first field is the two-argument
  \<open>checkTransactionInputs\<close>, the second the one that also updates the last failed block.
\<close>

record validator =
  v_checkInputs :: "transaction \<Rightarrow> bool \<times> block_info"
  v_recheckInputs :: "transaction \<Rightarrow> transaction_check_info \<Rightarrow> bool \<times> transaction_check_info"
  v_haveSpentKeyImages :: "transaction \<Rightarrow> bool"
  v_checkTransactionSize :: "u64 \<Rightarrow> bool"

record tx_verification_context =
  m_should_be_relayed :: bool
  m_verifivation_failed :: bool
  m_verifivation_impossible :: bool
  m_added_to_pool :: bool
  m_tx_fee_too_small :: bool

text \<open>\<open>m_transactions\<close> is listed in the order of its fee index; its ids are unique.\<close>

record tx_pool =
  m_transactions :: "transaction_details list"
  m_spent_key_images :: "key_image_t \<rightharpoonup> hash_t set"
  m_spentOutputs :: "(u64 \<times> u64) set"
  m_recentlyDeletedTransactions :: "hash_t \<rightharpoonup> u64"
  m_paymentIdIndex :: payment_index
  m_timestampIndex :: timestamp_index
  m_lastWorkedTime :: u64

definition empty_pool :: tx_pool where
  "empty_pool = \<lparr>m_transactions = [], m_spent_key_images = Map.empty, m_spentOutputs = {},
     m_recentlyDeletedTransactions = Map.empty, m_paymentIdIndex = [], m_timestampIndex = [], m_lastWorkedTime = 0\<rparr>"

text \<open>\<open>transaction_priority_comparator_t\<close>; \<open>receiveTime\<close> is a signed \<open>time_t\<close>.\<close>

definition priority_less :: "transaction_details \<Rightarrow> transaction_details \<Rightarrow> bool" where
  "priority_less lhs rhs =
     (let (lhs_lo, lhs_hi) = mul128 (td_fee lhs) (blobSize rhs);
          (rhs_lo, rhs_hi) = mul128 (td_fee rhs) (blobSize lhs)
      in rhs_hi < lhs_hi
         \<or> lhs_hi = rhs_hi \<and> rhs_lo < lhs_lo
         \<or> lhs_hi = rhs_hi \<and> lhs_lo = rhs_lo \<and> blobSize lhs < blobSize rhs
         \<or> lhs_hi = rhs_hi \<and> lhs_lo = rhs_lo \<and> blobSize lhs = blobSize rhs
           \<and> sint (receiveTime lhs) < sint (receiveTime rhs))"

text \<open>Insertion into the ordered index: behind the entries the new one does not precede.\<close>

fun fee_insert :: "transaction_details \<Rightarrow> transaction_details list \<Rightarrow> transaction_details list" where
  "fee_insert td [] = [td]"
| "fee_insert td (x # xs) = (if priority_less td x then td # x # xs else x # fee_insert td xs)"

fun addTransactionInputs :: "hash_t \<Rightarrow> bool \<Rightarrow> transaction_input list \<Rightarrow> tx_pool \<Rightarrow> exn + bool \<times> tx_pool" where
  "addTransactionInputs tx_id kept [] p = Inr (True, p)"
| "addTransactionInputs tx_id kept (BaseInput _ # ins) p = addTransactionInputs tx_id kept ins p"
| "addTransactionInputs tx_id kept (KeyInput _ _ img # ins) p =
     (let image_set = (case m_spent_key_images p img of None \<Rightarrow> {} | Some s \<Rightarrow> s)
      in if \<not> (kept \<or> image_set = {}) \<or> tx_id \<in> image_set
         then Inr (False, p\<lparr>m_spent_key_images := (m_spent_key_images p)(img \<mapsto> image_set)\<rparr>)
         else addTransactionInputs tx_id kept ins
           (p\<lparr>m_spent_key_images := (m_spent_key_images p)(img \<mapsto> insert tx_id image_set)\<rparr>))"
| "addTransactionInputs tx_id kept (MultisigInput a _ i # ins) p =
     (if \<not> kept then
        if (a, ucast i) \<in> m_spentOutputs p then Inl AssertFailed
        else addTransactionInputs tx_id kept ins (p\<lparr>m_spentOutputs := insert (a, ucast i) (m_spentOutputs p)\<rparr>)
      else addTransactionInputs tx_id kept ins p)"

fun removeTransactionInputs :: "hash_t \<Rightarrow> bool \<Rightarrow> transaction_input list \<Rightarrow> tx_pool \<Rightarrow> exn + bool \<times> tx_pool" where
  "removeTransactionInputs tx_id kept [] p = Inr (True, p)"
| "removeTransactionInputs tx_id kept (BaseInput _ # ins) p = removeTransactionInputs tx_id kept ins p"
| "removeTransactionInputs tx_id kept (KeyInput _ _ img # ins) p =
     (case m_spent_key_images p img of
        None \<Rightarrow> Inr (False, p)
      | Some image_set \<Rightarrow>
          if image_set = {} then Inr (False, p)
          else if tx_id \<notin> image_set then Inr (False, p)
          else removeTransactionInputs tx_id kept ins
            (p\<lparr>m_spent_key_images := (m_spent_key_images p)(img :=
                 if image_set - {tx_id} = {} then None else Some (image_set - {tx_id}))\<rparr>))"
| "removeTransactionInputs tx_id kept (MultisigInput a _ i # ins) p =
     (if \<not> kept then
        if (a, ucast i) \<notin> m_spentOutputs p then Inl AssertFailed
        else removeTransactionInputs tx_id kept ins (p\<lparr>m_spentOutputs := m_spentOutputs p - {(a, ucast i)}\<rparr>)
      else removeTransactionInputs tx_id kept ins p)"

fun haveSpentInput :: "tx_pool \<Rightarrow> transaction_input \<Rightarrow> bool" where
  "haveSpentInput p (BaseInput _) = False"
| "haveSpentInput p (KeyInput _ _ img) \<longleftrightarrow> m_spent_key_images p img \<noteq> None"
| "haveSpentInput p (MultisigInput a _ i) \<longleftrightarrow> (a, ucast i) \<in> m_spentOutputs p"

definition haveSpentInputs :: "tx_pool \<Rightarrow> transaction \<Rightarrow> bool" where
  "haveSpentInputs p tx \<longleftrightarrow> list_ex (haveSpentInput p) (tx_inputs tx)"

definition have_tx :: "tx_pool \<Rightarrow> hash_t \<Rightarrow> bool" where
  "have_tx p tx_id \<longleftrightarrow> tx_id \<in> set (map td_id (m_transactions p))"

text \<open>
  The container takes \<open>txd\<close> by move, so the transaction that is passed to the payment index afterwards
  has lost its vectors.
\<close>

definition moved_from :: "transaction \<Rightarrow> transaction" where
  "moved_from tx = tx\<lparr>tx_inputs := [], tx_outputs := [], tx_extra := [], signatures := []\<rparr>"

definition pool_insert :: "transaction_details \<Rightarrow> tx_pool \<Rightarrow> tx_pool" where
  "pool_insert txd p =
     p\<lparr>m_transactions := fee_insert txd (m_transactions p),
       m_paymentIdIndex := snd (payment_add (moved_from (td_tx txd)) (m_paymentIdIndex p)),
       m_timestampIndex := timestamp_add (receiveTime txd) (td_id txd) (m_timestampIndex p)\<rparr>"

text \<open>\<open>add_tx\<close>: the result, the verification context and the pool.\<close>

definition add_tx ::
  "currency \<Rightarrow> validator \<Rightarrow> u64 \<Rightarrow> transaction \<Rightarrow> hash_t \<Rightarrow> u64 \<Rightarrow> bool \<Rightarrow> tx_verification_context \<Rightarrow> tx_pool
   \<Rightarrow> exn + bool \<times> tx_verification_context \<times> tx_pool" where
  "add_tx cur V now tx tx_id sz kept tvc p =
     (let failed = tvc\<lparr>m_verifivation_failed := True\<rparr>;
          inputs_amount = get_inputs_money_amount tx;
          outputs_amount = get_outs_money_amount tx;
          fee = inputs_amount - outputs_amount;
          fusion = (fee = 0 \<and> isFusionTransaction cur tx sz);
          (inputsValid, maxUsedBlock) = v_checkInputs V tx;
          tvc1 = (if inputsValid then tvc else tvc\<lparr>m_verifivation_impossible := True\<rparr>);
          txd = \<lparr>maxUsedBlock = (if inputsValid then maxUsedBlock else block_info_clear),
                 lastFailedBlock = block_info_clear, td_id = tx_id, td_tx = tx, blobSize = sz, td_fee = fee,
                 keptByBlock = kept, receiveTime = now\<rparr>
      in if \<not> check_inputs_types_supported tx then Inr (False, failed, p)
         else if inputs_amount < outputs_amount then Inr (False, failed, p)
         else if \<not> kept \<and> \<not> fusion \<and> fee < m_mininumFee cur
           then Inr (False, failed\<lparr>m_tx_fee_too_small := True\<rparr>, p)
         else if \<not> kept \<and> haveSpentInputs p tx then Inr (False, failed, p)
         else if \<not> kept \<and> \<not> inputsValid then Inr (False, failed, p)
         else if \<not> kept \<and> \<not> v_checkTransactionSize V sz then Inr (False, failed, p)
         else if \<not> kept \<and> m_recentlyDeletedTransactions p tx_id \<noteq> None
           then Inr (True, tvc1\<lparr>m_verifivation_failed := False, m_should_be_relayed := False, m_added_to_pool := False\<rparr>, p)
         else if have_tx p tx_id then Inr (False, tvc1, p)
         else
           let tvc2 = tvc1\<lparr>m_added_to_pool := True, m_should_be_relayed := inputsValid \<and> (0 < fee \<or> fusion),
                           m_verifivation_failed := True\<rparr>
           in case addTransactionInputs tx_id kept (tx_inputs tx) (pool_insert txd p) of
                Inl e \<Rightarrow> Inl e
              | Inr (False, p) \<Rightarrow> Inr (False, tvc2, p)
              | Inr (True, p) \<Rightarrow> Inr (True, tvc2\<lparr>m_verifivation_failed := False\<rparr>, p))"

definition removeTransaction :: "transaction_details \<Rightarrow> tx_pool \<Rightarrow> exn + tx_pool" where
  "removeTransaction td p =
     (case removeTransactionInputs (td_id td) (keptByBlock td) (tx_inputs (td_tx td)) p of
        Inl e \<Rightarrow> Inl e
      | Inr (_, p) \<Rightarrow> Inr (p\<lparr>
          m_paymentIdIndex := snd (payment_remove (td_tx td) (m_paymentIdIndex p)),
          m_timestampIndex := snd (timestamp_remove (receiveTime td) (td_id td) (m_timestampIndex p)),
          m_transactions := filter (\<lambda>x. td_id x \<noteq> td_id td) (m_transactions p)\<rparr>))"

definition take_tx :: "hash_t \<Rightarrow> tx_pool \<Rightarrow> exn + (transaction \<times> u64 \<times> u64) option \<times> tx_pool" where
  "take_tx tx_id p =
     (case find (\<lambda>td. td_id td = tx_id) (m_transactions p) of
        None \<Rightarrow> Inr (None, p)
      | Some td \<Rightarrow>
          (case removeTransaction td p of
             Inl e \<Rightarrow> Inl e
           | Inr p \<Rightarrow> Inr (Some (td_tx td, blobSize td, td_fee td), p)))"

definition is_transaction_ready_to_go ::
  "validator \<Rightarrow> transaction \<Rightarrow> transaction_check_info \<Rightarrow> bool \<times> transaction_check_info" where
  "is_transaction_ready_to_go V tx info =
     (let (valid, info) = v_recheckInputs V tx info
      in if \<not> valid then (False, info) else if v_haveSpentKeyImages V tx then (False, info) else (True, info))"

definition check_info :: "transaction_details \<Rightarrow> transaction_check_info" where
  "check_info td = \<lparr>maxUsedBlock = maxUsedBlock td, lastFailedBlock = lastFailedBlock td\<rparr>"

text \<open>The new and the deleted ids of \<open>get_difference\<close>, as sets.\<close>

definition get_difference :: "validator \<Rightarrow> hash_t list \<Rightarrow> tx_pool \<Rightarrow> hash_t set \<times> hash_t set" where
  "get_difference V known_tx_ids p =
     (let ready = set (map td_id (filter (\<lambda>td. fst (is_transaction_ready_to_go V (td_tx td) (check_info td)))
                    (m_transactions p)))
      in (ready - set known_tx_ids, set known_tx_ids - ready))"

section \<open>Block templates\<close>

record block_template =
  bt_keyImages :: "key_image_t set"
  bt_usedOutputs :: "(u64 \<times> u64) set"
  bt_txHashes :: "hash_t list"

definition template_new :: block_template where
  "template_new = \<lparr>bt_keyImages = {}, bt_usedOutputs = {}, bt_txHashes = []\<rparr>"

fun input_free :: "block_template \<Rightarrow> transaction_input \<Rightarrow> bool" where
  "input_free bt (BaseInput _) = True"
| "input_free bt (KeyInput _ _ img) \<longleftrightarrow> img \<notin> bt_keyImages bt"
| "input_free bt (MultisigInput a _ i) \<longleftrightarrow> (a, ucast i) \<notin> bt_usedOutputs bt"

definition canAdd :: "block_template \<Rightarrow> transaction \<Rightarrow> bool" where
  "canAdd bt tx \<longleftrightarrow> list_all (input_free bt) (tx_inputs tx)"

fun template_inputs :: "transaction_input list \<Rightarrow> block_template \<Rightarrow> exn + block_template" where
  "template_inputs [] bt = Inr bt"
| "template_inputs (BaseInput _ # ins) bt = template_inputs ins bt"
| "template_inputs (KeyInput _ _ img # ins) bt =
     (if img \<in> bt_keyImages bt then Inl AssertFailed
      else template_inputs ins (bt\<lparr>bt_keyImages := insert img (bt_keyImages bt)\<rparr>))"
| "template_inputs (MultisigInput a _ i # ins) bt =
     (if (a, ucast i) \<in> bt_usedOutputs bt then Inl AssertFailed
      else template_inputs ins (bt\<lparr>bt_usedOutputs := insert (a, ucast i) (bt_usedOutputs bt)\<rparr>))"

definition template_addTransaction :: "hash_t \<Rightarrow> transaction \<Rightarrow> block_template \<Rightarrow> exn + bool \<times> block_template" where
  "template_addTransaction txid tx bt =
     (if \<not> canAdd bt tx then Inr (False, bt)
      else
        case template_inputs (tx_inputs tx) bt of
          Inl e \<Rightarrow> Inl e
        | Inr bt \<Rightarrow> Inr (True, bt\<lparr>bt_txHashes := bt_txHashes bt @ [txid]\<rparr>))"

text \<open>
  The first loop of \<open>fill_block_template\<close> takes transactions without fee from the cheap end of the fee
  index, as long as they last.
\<close>

fun fill_free :: "currency \<Rightarrow> validator \<Rightarrow> transaction_details list \<Rightarrow> block_template \<Rightarrow> u64 \<Rightarrow> exn + block_template \<times> u64" where
  "fill_free cur V [] bt total_size = Inr (bt, total_size)"
| "fill_free cur V (txd # txs) bt total_size =
     (if td_fee txd \<noteq> 0 then Inr (bt, total_size)
      else if m_fusionTxMaxSize cur < total_size + blobSize txd then fill_free cur V txs bt total_size
      else if fst (is_transaction_ready_to_go V (td_tx txd) (check_info txd)) then
        (case template_addTransaction (td_id txd) (td_tx txd) bt of
           Inl e \<Rightarrow> Inl e
         | Inr (added, bt) \<Rightarrow> fill_free cur V txs bt (if added then total_size + blobSize txd else total_size))
      else fill_free cur V txs bt total_size)"

text \<open>
  The second loop runs over the whole fee index from its best end, and stores what the check of a
  transaction found. That does not move the transaction in the index.
\<close>

fun fill_paid ::
  "validator \<Rightarrow> u64 \<Rightarrow> u64 \<Rightarrow> transaction_details list \<Rightarrow> block_template \<Rightarrow> u64 \<Rightarrow> u64
   \<Rightarrow> exn + transaction_details list \<times> block_template \<times> u64 \<times> u64" where
  "fill_paid V median_size max_total_size [] bt total_size fee = Inr ([], bt, total_size, fee)"
| "fill_paid V median_size max_total_size (txd # txs) bt total_size fee =
     (let blockSizeLimit = (if td_fee txd = 0 then median_size else max_total_size)
      in if blockSizeLimit < total_size + blobSize txd then
           (case fill_paid V median_size max_total_size txs bt total_size fee of
              Inl e \<Rightarrow> Inl e
            | Inr (txs, r) \<Rightarrow> Inr (txd # txs, r))
         else
           let (ready, info) = is_transaction_ready_to_go V (td_tx txd) (check_info txd);
               txd' = txd\<lparr>maxUsedBlock := maxUsedBlock info, lastFailedBlock := lastFailedBlock info\<rparr>
           in case (if ready then template_addTransaction (td_id txd) (td_tx txd) bt else Inr (False, bt)) of
                Inl e \<Rightarrow> Inl e
              | Inr (added, bt) \<Rightarrow>
                  (case fill_paid V median_size max_total_size txs bt
                       (if added then total_size + blobSize txd else total_size)
                       (if added then fee + td_fee txd else fee) of
                     Inl e \<Rightarrow> Inl e
                   | Inr (txs, r) \<Rightarrow> Inr (txd' # txs, r)))"

text \<open>The hashes of the block, the total size, the fee, and the pool.\<close>

definition fill_block_template ::
  "currency \<Rightarrow> validator \<Rightarrow> u64 \<Rightarrow> u64 \<Rightarrow> tx_pool \<Rightarrow> exn + hash_t list \<times> u64 \<times> u64 \<times> tx_pool" where
  "fill_block_template cur V median_size maxCumulativeSize p =
     (let max_total_size = min (2 * median_size - m_minerTxBlobReservedSize cur) maxCumulativeSize
      in case fill_free cur V (rev (m_transactions p)) template_new 0 of
           Inl e \<Rightarrow> Inl e
         | Inr (bt, total_size) \<Rightarrow>
             (case fill_paid V median_size max_total_size (m_transactions p) bt total_size 0 of
                Inl e \<Rightarrow> Inl e
              | Inr (txs, bt, total_size, fee) \<Rightarrow>
                  Inr (bt_txHashes bt, total_size, fee, p\<lparr>m_transactions := txs\<rparr>)))"

section \<open>Expiry\<close>

definition expired :: "currency \<Rightarrow> u64 \<Rightarrow> transaction_details \<Rightarrow> bool" where
  "expired cur now td \<longleftrightarrow>
     (if keptByBlock td then m_mempoolTxFromAltBlockLiveTime cur else m_mempoolTxLiveTime cur) < now - receiveTime td"

fun expire_loop :: "currency \<Rightarrow> u64 \<Rightarrow> transaction_details list \<Rightarrow> tx_pool \<Rightarrow> bool \<Rightarrow> exn + bool \<times> tx_pool" where
  "expire_loop cur now [] p somethingRemoved = Inr (somethingRemoved, p)"
| "expire_loop cur now (td # tds) p somethingRemoved =
     (if expired cur now td then
        (case removeTransaction td
            (p\<lparr>m_recentlyDeletedTransactions := map_insert (td_id td) now (m_recentlyDeletedTransactions p)\<rparr>) of
           Inl e \<Rightarrow> Inl e
         | Inr p \<Rightarrow> expire_loop cur now tds p True)
      else expire_loop cur now tds p somethingRemoved)"

text \<open>The first component tells whether the observers are notified of a deletion.\<close>

definition removeExpiredTransactions :: "currency \<Rightarrow> u64 \<Rightarrow> tx_pool \<Rightarrow> exn + bool \<times> tx_pool" where
  "removeExpiredTransactions cur now p =
     (let deleted = (\<lambda>h. case m_recentlyDeletedTransactions p h of
              None \<Rightarrow> None
            | Some t \<Rightarrow>
                if m_numberOfPeriodsToForgetTxDeletedFromPool cur * m_mempoolTxLiveTime cur < now - t then None else Some t)
      in expire_loop cur now (m_transactions p) (p\<lparr>m_recentlyDeletedTransactions := deleted\<rparr>) False)"

text \<open>\<open>on_idle\<close> through \<open>OnceInTimeInterval\<close>, with an interval of 60 seconds on signed times.\<close>

definition on_idle :: "currency \<Rightarrow> u64 \<Rightarrow> tx_pool \<Rightarrow> exn + tx_pool" where
  "on_idle cur now p =
     (if 60 < sint (now - m_lastWorkedTime p) then
        (case removeExpiredTransactions cur now p of
           Inl e \<Rightarrow> Inl e
         | Inr (_, p) \<Rightarrow> Inr (p\<lparr>m_lastWorkedTime := now\<rparr>))
      else Inr p)"

section \<open>The pool file\<close>

definition pool_insert_read :: "transaction_details \<Rightarrow> transaction_details list \<Rightarrow> transaction_details list" where
  "pool_insert_read td txs = (if td_id td \<in> set (map td_id txs) then txs else fee_insert td txs)"

fun sr_transactions :: "nat \<Rightarrow> transaction_details list \<Rightarrow> transaction_details list reader" where
  "sr_transactions 0 txs s = Inr (txs, s)"
| "sr_transactions (Suc n) txs s =
     (case sr_details s of Inl e \<Rightarrow> Inl e | Inr (td, s) \<Rightarrow> sr_transactions n (pool_insert_read td txs) s)"

text \<open>The reader up to the last map; the flag tells that the version was right.\<close>

definition sr_pool_head :: "tx_pool \<Rightarrow> (bool \<times> tx_pool) reader" where
  "sr_pool_head p =
     rbind read_u8 (\<lambda>version.
       if version \<noteq> 1 then rret (False, p)
       else
         rbind read_u64 (\<lambda>n. rbind (sr_transactions (unat n) []) (\<lambda>txs.
         rbind (readMap (read_pod 32) (readSet (read_pod 32) {}) (m_spent_key_images p)) (\<lambda>kis.
         rbind (readSet (read_pair read_u64 read_u64) (m_spentOutputs p)) (\<lambda>outs.
           rret (True, p\<lparr>m_transactions := txs, m_spent_key_images := kis, m_spentOutputs := outs\<rparr>))))))"

definition sr_pool :: "tx_pool \<Rightarrow> tx_pool reader" where
  "sr_pool p =
     rbind (sr_pool_head p) (\<lambda>(more, p).
       if \<not> more then rret p
       else
         rbind (readMap (read_pod 32) read_u64 (m_recentlyDeletedTransactions p)) (\<lambda>del.
           rret (p\<lparr>m_recentlyDeletedTransactions := del\<rparr>)))"

text \<open>What a read that fails has left in the map of deleted transactions, which \<open>init\<close> does not clear.\<close>

fun readMap_so_far :: "'k reader \<Rightarrow> 'v reader \<Rightarrow> nat \<Rightarrow> ('k \<rightharpoonup> 'v) \<Rightarrow> bytes \<Rightarrow> ('k \<rightharpoonup> 'v)" where
  "readMap_so_far rdk rdv 0 v s = v"
| "readMap_so_far rdk rdv (Suc n) v s =
     (case read_pair rdk rdv s of
        Inl e \<Rightarrow> v
      | Inr ((k, x), s) \<Rightarrow> readMap_so_far rdk rdv n (map_insert k x v) s)"

definition deleted_so_far :: "tx_pool \<Rightarrow> bytes \<Rightarrow> (hash_t \<rightharpoonup> u64)" where
  "deleted_so_far p b =
     (case sr_pool_head p b of
        Inr ((True, p), s) \<Rightarrow>
          (case read_u64 s of
             Inl e \<Rightarrow> m_recentlyDeletedTransactions p
           | Inr (n, s) \<Rightarrow> readMap_so_far (read_pod 32) read_u64 (unat n) (m_recentlyDeletedTransactions p) s)
      | _ \<Rightarrow> m_recentlyDeletedTransactions p)"

fun sw_transactions :: "transaction_details list \<Rightarrow> exn + bytes" where
  "sw_transactions [] = Inr []"
| "sw_transactions (td # tds) =
     (case sw_details td of
        Inl e \<Rightarrow> Inl e
      | Inr b \<Rightarrow> (case sw_transactions tds of Inl e \<Rightarrow> Inl e | Inr bs \<Rightarrow> Inr (b @ bs)))"

text \<open>The writer walks the unordered containers in some order, the lists \<open>kis\<close>, \<open>outs\<close> and \<open>del\<close>.\<close>

definition sw_pool ::
  "transaction_details list \<Rightarrow> (key_image_t \<times> hash_t list) list \<Rightarrow> (u64 \<times> u64) list \<Rightarrow> (hash_t \<times> u64) list \<Rightarrow> exn + bytes" where
  "sw_pool txs kis outs del =
     (case sw_transactions txs of
        Inl e \<Rightarrow> Inl e
      | Inr b \<Rightarrow> Inr (write_u8 1 @ write_u64 (of_nat (length txs)) @ b
          @ writeMap write_pod (writeSet write_pod) kis
          @ writeSet (write_pair write_u64 write_u64) outs
          @ writeMap write_pod write_u64 del))"

definition buildIndices :: "tx_pool \<Rightarrow> tx_pool" where
  "buildIndices p =
     p\<lparr>m_paymentIdIndex := fold (\<lambda>td idx. snd (payment_add (td_tx td) idx)) (m_transactions p) (m_paymentIdIndex p),
       m_timestampIndex := fold (\<lambda>td. timestamp_add (receiveTime td) (td_id td)) (m_transactions p) (m_timestampIndex p)\<rparr>"

text \<open>\<open>init\<close>: \<open>file\<close> is the content of the pool file, if it can be opened.\<close>

definition pool_init :: "currency \<Rightarrow> u64 \<Rightarrow> bytes option \<Rightarrow> tx_pool \<Rightarrow> exn + bool \<times> tx_pool" where
  "pool_init cur now file p =
     (let cleared = p\<lparr>m_transactions := [], m_spent_key_images := Map.empty, m_spentOutputs := {},
                      m_paymentIdIndex := [], m_timestampIndex := []\<rparr>
      in removeExpiredTransactions cur now
           (case file of
              None \<Rightarrow> cleared
            | Some b \<Rightarrow>
                (case sr_pool p b of
                   Inl e \<Rightarrow> cleared\<lparr>m_recentlyDeletedTransactions := deleted_so_far p b\<rparr>
                 | Inr (p, _) \<Rightarrow> buildIndices p)))"

section \<open>The books of the pool\<close>

fun key_images :: "transaction_input list \<Rightarrow> key_image_t list" where
  "key_images [] = []"
| "key_images (KeyInput _ _ img # ins) = img # key_images ins"
| "key_images (_ # ins) = key_images ins"

fun used_outputs :: "transaction_input list \<Rightarrow> (u64 \<times> u64) list" where
  "used_outputs [] = []"
| "used_outputs (MultisigInput a _ i # ins) = (a, ucast i) # used_outputs ins"
| "used_outputs (_ # ins) = used_outputs ins"

abbreviation td_images :: "transaction_details \<Rightarrow> key_image_t set" where
  "td_images td \<equiv> set (key_images (tx_inputs (td_tx td)))"

abbreviation td_outputs :: "transaction_details \<Rightarrow> (u64 \<times> u64) set" where
  "td_outputs td \<equiv> set (used_outputs (tx_inputs (td_tx td)))"

definition inputs_distinct :: "transaction \<Rightarrow> bool" where
  "inputs_distinct tx \<longleftrightarrow> distinct (key_images (tx_inputs tx)) \<and> distinct (used_outputs (tx_inputs tx))"

definition spenders :: "transaction_details set \<Rightarrow> key_image_t \<Rightarrow> hash_t set" where
  "spenders T img = td_id ` {td \<in> T. img \<in> td_images td}"

definition images_of :: "transaction_details set \<Rightarrow> key_image_t \<rightharpoonup> hash_t set" where
  "images_of T img = (if spenders T img = {} then None else Some (spenders T img))"

definition outputs_of :: "transaction_details set \<Rightarrow> (u64 \<times> u64) set" where
  "outputs_of T = \<Union> (td_outputs ` {td \<in> T. \<not> keptByBlock td})"

text \<open>No two transactions that came from the network spend the same.\<close>

definition no_conflict :: "transaction_details set \<Rightarrow> bool" where
  "no_conflict T \<longleftrightarrow>
     (\<forall>a \<in> T. \<forall>b \<in> T. \<not> keptByBlock a \<longrightarrow> \<not> keptByBlock b \<longrightarrow> td_id a \<noteq> td_id b \<longrightarrow>
        td_images a \<inter> td_images b = {} \<and> td_outputs a \<inter> td_outputs b = {})"

definition pool_inv :: "tx_pool \<Rightarrow> bool" where
  "pool_inv p \<longleftrightarrow>
     distinct (map td_id (m_transactions p))
     \<and> (\<forall>td \<in> set (m_transactions p). inputs_distinct (td_tx td))
     \<and> no_conflict (set (m_transactions p))
     \<and> m_spent_key_images p = images_of (set (m_transactions p))
     \<and> m_spentOutputs p = outputs_of (set (m_transactions p))
     \<and> sorted (map fst (m_timestampIndex p))
     \<and> mset (m_timestampIndex p) = mset (map (\<lambda>td. (receiveTime td, td_id td)) (m_transactions p))"

lemma set_fee_insert [simp]: "set (fee_insert td xs) = insert td (set xs)"
  by (induction xs) auto

lemma mset_fee_insert [simp]: "mset (fee_insert td xs) = add_mset td (mset xs)"
  by (induction xs) auto

lemma distinct_fee_insert:
  "distinct (map td_id (fee_insert td xs)) \<longleftrightarrow> td_id td \<notin> td_id ` set xs \<and> distinct (map td_id xs)"
  by (induction xs) auto

lemma haveSpentInputs_iff:
  "haveSpentInputs p tx \<longleftrightarrow>
     (\<exists>img \<in> set (key_images (tx_inputs tx)). m_spent_key_images p img \<noteq> None)
     \<or> (\<exists>out \<in> set (used_outputs (tx_inputs tx)). out \<in> m_spentOutputs p)"
proof -
  have "list_ex (haveSpentInput p) ins \<longleftrightarrow>
     (\<exists>img \<in> set (key_images ins). m_spent_key_images p img \<noteq> None) \<or> (\<exists>out \<in> set (used_outputs ins). out \<in> m_spentOutputs p)"
    for ins
  proof (induction ins)
    case (Cons i ins)
    then show ?case by (cases i) auto
  qed simp
  then show ?thesis by (simp add: haveSpentInputs_def)
qed

text \<open>The two loops over the inputs, in one step.\<close>

lemma addTransactionInputs_effect:
  assumes "distinct (key_images ins)" "distinct (used_outputs ins)"
    and "\<And>img s. img \<in> set (key_images ins) \<Longrightarrow> m_spent_key_images p img = Some s \<Longrightarrow> kept \<and> i \<notin> s"
    and "\<not> kept \<Longrightarrow> set (used_outputs ins) \<inter> m_spentOutputs p = {}"
  shows "addTransactionInputs i kept ins p = Inr (True, p\<lparr>
    m_spent_key_images := (\<lambda>img. if img \<in> set (key_images ins)
      then Some (insert i (case m_spent_key_images p img of None \<Rightarrow> {} | Some s \<Rightarrow> s)) else m_spent_key_images p img),
    m_spentOutputs := (if kept then m_spentOutputs p else m_spentOutputs p \<union> set (used_outputs ins))\<rparr>)"
  using assms
proof (induction i kept ins p rule: addTransactionInputs.induct)
  case (3 i kept a offs img ins p)
  define s where "s = (case m_spent_key_images p img of None \<Rightarrow> {} | Some s \<Rightarrow> s)"
  have s: "kept \<or> s = {}" "i \<notin> s"
    using 3(4) [of img] by (auto simp: s_def split: option.splits)
  define q where "q = p\<lparr>m_spent_key_images := (m_spent_key_images p)(img \<mapsto> insert i s)\<rparr>"
  have "addTransactionInputs i kept (KeyInput a offs img # ins) p = addTransactionInputs i kept ins q"
    using s by (cases kept) (simp_all add: s_def q_def Let_def)
  also have "\<dots> = Inr (True, q\<lparr>
      m_spent_key_images := (\<lambda>j. if j \<in> set (key_images ins)
        then Some (insert i (case m_spent_key_images q j of None \<Rightarrow> {} | Some s \<Rightarrow> s)) else m_spent_key_images q j),
      m_spentOutputs := (if kept then m_spentOutputs q else m_spentOutputs q \<union> set (used_outputs ins))\<rparr>)"
    unfolding q_def
  proof (rule 3(1) [OF s_def])
    show "kept \<and> i \<notin> t" if "j \<in> set (key_images ins)"
      "m_spent_key_images (p\<lparr>m_spent_key_images := (m_spent_key_images p)(img \<mapsto> insert i s)\<rparr>) j = Some t" for j t
      using that 3(2) 3(4) [of j t] by (auto split: if_splits)
  qed (use s 3(2,3,5) in auto)
  also have "\<dots> = Inr (True, p\<lparr>
      m_spent_key_images := (\<lambda>j. if j \<in> set (key_images (KeyInput a offs img # ins))
        then Some (insert i (case m_spent_key_images p j of None \<Rightarrow> {} | Some s \<Rightarrow> s)) else m_spent_key_images p j),
      m_spentOutputs := (if kept then m_spentOutputs p
        else m_spentOutputs p \<union> set (used_outputs (KeyInput a offs img # ins)))\<rparr>)"
    using 3(2) by (auto simp: q_def s_def fun_eq_iff)
  finally show ?case .
next
  case (4 i kept a n k ins p)
  show ?case
  proof (cases kept)
    case True
    then show ?thesis using 4 by simp
  next
    case False
    let ?q = "p\<lparr>m_spentOutputs := insert (a, ucast k) (m_spentOutputs p)\<rparr>"
    have "addTransactionInputs i kept ins ?q = Inr (True, ?q\<lparr>
        m_spent_key_images := (\<lambda>img. if img \<in> set (key_images ins)
          then Some (insert i (case m_spent_key_images ?q img of None \<Rightarrow> {} | Some s \<Rightarrow> s)) else m_spent_key_images ?q img),
        m_spentOutputs := (if kept then m_spentOutputs ?q else m_spentOutputs ?q \<union> set (used_outputs ins))\<rparr>)"
      by (rule 4(1)) (use 4(3-) False in auto)
    then show ?thesis using 4(6) False by (simp cong: if_cong)
  qed
qed simp_all

lemma removeTransactionInputs_effect:
  assumes "distinct (key_images ins)" "distinct (used_outputs ins)"
    and "\<And>img. img \<in> set (key_images ins) \<Longrightarrow> \<exists>s. m_spent_key_images p img = Some s \<and> i \<in> s"
    and "\<not> kept \<Longrightarrow> set (used_outputs ins) \<subseteq> m_spentOutputs p"
  shows "removeTransactionInputs i kept ins p = Inr (True, p\<lparr>
    m_spent_key_images := (\<lambda>img. if img \<in> set (key_images ins)
      then (let s = the (m_spent_key_images p img) - {i} in if s = {} then None else Some s) else m_spent_key_images p img),
    m_spentOutputs := (if kept then m_spentOutputs p else m_spentOutputs p - set (used_outputs ins))\<rparr>)"
  using assms
proof (induction i kept ins p rule: removeTransactionInputs.induct)
  case (3 i kept a offs img ins p)
  obtain s where s: "m_spent_key_images p img = Some s" "i \<in> s" using 3(4) [of img] by auto
  define q where "q = p\<lparr>m_spent_key_images := (m_spent_key_images p)(img := if s - {i} = {} then None else Some (s - {i}))\<rparr>"
  have "removeTransactionInputs i kept (KeyInput a offs img # ins) p = removeTransactionInputs i kept ins q"
    using s by (auto simp: q_def)
  also have "\<dots> = Inr (True, q\<lparr>
      m_spent_key_images := (\<lambda>j. if j \<in> set (key_images ins)
        then (let s = the (m_spent_key_images q j) - {i} in if s = {} then None else Some s) else m_spent_key_images q j),
      m_spentOutputs := (if kept then m_spentOutputs q else m_spentOutputs q - set (used_outputs ins))\<rparr>)"
    unfolding q_def
  proof (rule 3(1) [OF s(1)])
    show "\<exists>t. m_spent_key_images (p\<lparr>m_spent_key_images :=
        (m_spent_key_images p)(img := if s - {i} = {} then None else Some (s - {i}))\<rparr>) j = Some t \<and> i \<in> t"
      if "j \<in> set (key_images ins)" for j
      using that 3(2) 3(4) [of j] by auto
  qed (use s 3(2,3,5) in auto)
  also have "\<dots> = Inr (True, p\<lparr>
      m_spent_key_images := (\<lambda>j. if j \<in> set (key_images (KeyInput a offs img # ins))
        then (let s = the (m_spent_key_images p j) - {i} in if s = {} then None else Some s) else m_spent_key_images p j),
      m_spentOutputs := (if kept then m_spentOutputs p
        else m_spentOutputs p - set (used_outputs (KeyInput a offs img # ins)))\<rparr>)"
    using 3(2) s by (auto simp: q_def fun_eq_iff Let_def)
  finally show ?case .
next
  case (4 i kept a n k ins p)
  have "m_spentOutputs p - {(a, ucast k)} - set (used_outputs ins) = m_spentOutputs p - insert (a, ucast k) (set (used_outputs ins))"
    by blast
  then show ?case using 4 by (cases kept) (simp_all add: subset_Diff_insert cong: if_cong)
qed simp_all

lemma spenders_insert:
  "spenders (insert td T) img = (if img \<in> td_images td then insert (td_id td) (spenders T img) else spenders T img)"
  by (auto simp: spenders_def)

lemma spenders_remove: "spenders {x \<in> T. td_id x \<noteq> i} img = spenders T img - {i}"
  by (auto simp: spenders_def)

lemma outputs_of_insert:
  "outputs_of (insert td T) = (if keptByBlock td then outputs_of T else outputs_of T \<union> td_outputs td)"
  by (auto simp: outputs_of_def)

lemma outputs_of_remove:
  assumes "td \<in> T" "inj_on td_id T" "no_conflict T"
  shows "outputs_of {x \<in> T. td_id x \<noteq> td_id td} = (if keptByBlock td then outputs_of T else outputs_of T - td_outputs td)"
proof -
  have T: "T = insert td {x \<in> T. td_id x \<noteq> td_id td}" using assms(1,2) by (auto dest: inj_onD)
  have dis: "td_outputs x \<inter> td_outputs td = {}"
    if "\<not> keptByBlock td" "x \<in> T" "td_id x \<noteq> td_id td" "\<not> keptByBlock x" for x
    using that assms(1,3) unfolding no_conflict_def by blast
  show ?thesis
  proof (cases "keptByBlock td")
    case True
    then show ?thesis by (subst (2) T) (simp add: outputs_of_insert)
  next
    case False
    have "outputs_of {x \<in> T. td_id x \<noteq> td_id td} \<inter> td_outputs td = {}"
      using dis [OF False] by (auto simp: outputs_of_def)
    then show ?thesis using False by (subst (2) T) (auto simp: outputs_of_insert)
  qed
qed

lemma spenders_ids: "spenders T img \<subseteq> td_id ` T"
  by (auto simp: spenders_def)

lemma no_conflict_subset: "no_conflict T \<Longrightarrow> S \<subseteq> T \<Longrightarrow> no_conflict S"
  unfolding no_conflict_def by blast

lemma not_spent_no_conflict:
  assumes "no_conflict T" "\<not> haveSpentInputs p (td_tx td) \<or> keptByBlock td"
    and "m_spent_key_images p = images_of T" "m_spentOutputs p = outputs_of T"
  shows "no_conflict (insert td T)"
proof (cases "keptByBlock td")
  case True
  then show ?thesis using assms(1) by (auto simp: no_conflict_def)
next
  case False
  then have ns: "\<not> haveSpentInputs p (td_tx td)" using assms(2) by simp
  have "td_images td \<inter> td_images x = {} \<and> td_outputs td \<inter> td_outputs x = {}" if "x \<in> T" "\<not> keptByBlock x" for x
    using ns that by (auto simp: haveSpentInputs_iff assms(3,4) images_of_def spenders_def outputs_of_def split: if_splits)
  then show ?thesis using assms(1) by (auto simp: no_conflict_def)
qed

text \<open>Entering a transaction always succeeds, and keeps the books.\<close>

lemma pool_insert_inv:
  assumes inv: "pool_inv p" and new: "\<not> have_tx p (td_id td)" and dist: "inputs_distinct (td_tx td)"
    and ns: "\<not> haveSpentInputs p (td_tx td) \<or> keptByBlock td"
  shows "\<exists>q. addTransactionInputs (td_id td) (keptByBlock td) (tx_inputs (td_tx td)) (pool_insert td p) = Inr (True, q)
    \<and> pool_inv q \<and> m_transactions q = fee_insert td (m_transactions p)
    \<and> m_recentlyDeletedTransactions q = m_recentlyDeletedTransactions p"
proof -
  let ?T = "set (m_transactions p)"
  let ?r = "pool_insert td p"
  have I: "m_spent_key_images p = images_of ?T" "m_spentOutputs p = outputs_of ?T" "no_conflict ?T"
    using inv by (simp_all add: pool_inv_def)
  have new': "td_id td \<notin> td_id ` ?T" using new by (simp add: have_tx_def)
  have r: "m_spent_key_images ?r = m_spent_key_images p" "m_spentOutputs ?r = m_spentOutputs p"
    "m_transactions ?r = fee_insert td (m_transactions p)"
    by (simp_all add: pool_insert_def)
  define q where "q = ?r\<lparr>m_spent_key_images := (\<lambda>img. if img \<in> td_images td
      then Some (insert (td_id td) (case m_spent_key_images ?r img of None \<Rightarrow> {} | Some s \<Rightarrow> s)) else m_spent_key_images ?r img),
    m_spentOutputs := (if keptByBlock td then m_spentOutputs ?r else m_spentOutputs ?r \<union> td_outputs td)\<rparr>"
  have "addTransactionInputs (td_id td) (keptByBlock td) (tx_inputs (td_tx td)) ?r = Inr (True, q)"
    unfolding q_def
  proof (rule addTransactionInputs_effect)
    show "keptByBlock td \<and> td_id td \<notin> s" if "img \<in> td_images td" "m_spent_key_images ?r img = Some s" for img s
    proof
      show "keptByBlock td" using that ns r(1) by (auto simp: haveSpentInputs_iff)
      have "s = spenders ?T img" using that(2) r(1) I(1) by (auto simp: images_of_def split: if_splits)
      then show "td_id td \<notin> s" using new' spenders_ids [of ?T img] by blast
    qed
    show "td_outputs td \<inter> m_spentOutputs ?r = {}" if "\<not> keptByBlock td"
      using that ns r(2) by (auto simp: haveSpentInputs_iff)
  qed (use dist in \<open>simp_all add: inputs_distinct_def\<close>)
  moreover have "pool_inv q"
  proof -
    have tx: "m_transactions q = fee_insert td (m_transactions p)" by (simp add: q_def r)
    have ts: "m_timestampIndex q = timestamp_add (receiveTime td) (td_id td) (m_timestampIndex p)"
      by (simp add: q_def pool_insert_def)
    have ki: "m_spent_key_images q = images_of (insert td ?T)"
      by (auto simp: q_def r I fun_eq_iff images_of_def spenders_insert)
    have so: "m_spentOutputs q = outputs_of (insert td ?T)"
      by (simp add: q_def r I outputs_of_insert)
    show ?thesis
      using inv new' dist not_spent_no_conflict [OF I(3) ns I(1,2)]
      by (simp add: pool_inv_def tx ts ki so distinct_fee_insert timestamps.add_ok timestamps.add_mset)
  qed
  ultimately show ?thesis by (auto simp: q_def r pool_insert_def)
qed

lemma mset_filter_key:
  assumes "distinct (map f xs)" "x \<in> set xs"
  shows "mset (filter (\<lambda>y. f y \<noteq> f x) xs) = mset xs - {#x#}"
  using assms
proof (induction xs)
  case (Cons a xs)
  show ?case
  proof (cases "a = x")
    case True
    then have "filter (\<lambda>y. f y \<noteq> f x) xs = xs" using Cons.prems by (intro filter_True) (metis distinct.simps(2) image_eqI list.simps(9) set_map)
    then show ?thesis using True by simp
  next
    case False
    then have "f a \<noteq> f x" "x \<in> set xs" using Cons.prems by auto
    then show ?thesis using Cons False by simp
  qed
qed simp

lemma removeTransaction_inv:
  assumes inv: "pool_inv p" and td: "td \<in> set (m_transactions p)"
  shows "\<exists>q. removeTransaction td p = Inr q \<and> pool_inv q
    \<and> m_transactions q = filter (\<lambda>x. td_id x \<noteq> td_id td) (m_transactions p)
    \<and> m_recentlyDeletedTransactions q = m_recentlyDeletedTransactions p"
proof -
  let ?T = "set (m_transactions p)"
  let ?S = "{x \<in> ?T. td_id x \<noteq> td_id td}"
  have I: "m_spent_key_images p = images_of ?T" "m_spentOutputs p = outputs_of ?T" "no_conflict ?T"
    "distinct (map td_id (m_transactions p))" "inputs_distinct (td_tx td)"
    using inv td by (simp_all add: pool_inv_def)
  have inj: "inj_on td_id ?T" using I(4) by (simp add: distinct_map)
  define q where "q = p\<lparr>m_spent_key_images := (\<lambda>img. if img \<in> td_images td
      then (let s = the (m_spent_key_images p img) - {td_id td} in if s = {} then None else Some s) else m_spent_key_images p img),
    m_spentOutputs := (if keptByBlock td then m_spentOutputs p else m_spentOutputs p - td_outputs td)\<rparr>"
  have "removeTransactionInputs (td_id td) (keptByBlock td) (tx_inputs (td_tx td)) p = Inr (True, q)"
    unfolding q_def
  proof (rule removeTransactionInputs_effect)
    show "\<exists>s. m_spent_key_images p img = Some s \<and> td_id td \<in> s" if "img \<in> td_images td" for img
      using that td by (auto simp: I images_of_def spenders_def)
    show "td_outputs td \<subseteq> m_spentOutputs p" if "\<not> keptByBlock td"
      using that td by (auto simp: I outputs_of_def)
  qed (use I(5) in \<open>simp_all add: inputs_distinct_def\<close>)
  then have rem: "removeTransaction td p = Inr (q\<lparr>
      m_paymentIdIndex := snd (payment_remove (td_tx td) (m_paymentIdIndex p)),
      m_timestampIndex := snd (timestamp_remove (receiveTime td) (td_id td) (m_timestampIndex p)),
      m_transactions := filter (\<lambda>x. td_id x \<noteq> td_id td) (m_transactions p)\<rparr>)"
    by (simp add: removeTransaction_def q_def)
  have ki: "m_spent_key_images q = images_of ?S"
  proof
    fix img
    have "td_id td \<notin> spenders ?T img" if "img \<notin> td_images td"
      using that td inj by (auto simp: spenders_def dest: inj_onD)
    then show "m_spent_key_images q img = images_of ?S img"
      using td by (auto simp: q_def I images_of_def spenders_remove Let_def) (auto simp: spenders_def)
  qed
  have so: "m_spentOutputs q = outputs_of ?S"
    using outputs_of_remove [OF td inj I(3)] by (simp add: q_def I)
  have ids: "mset (map (\<lambda>td. (receiveTime td, td_id td)) (filter (\<lambda>x. td_id x \<noteq> td_id td) (m_transactions p)))
      = mset (m_timestampIndex p) - {#(receiveTime td, td_id td)#}"
    using mset_filter_key [OF I(4) td] inv td
    by (simp add: pool_inv_def image_mset_Diff)
  have "pool_inv (q\<lparr>
      m_paymentIdIndex := snd (payment_remove (td_tx td) (m_paymentIdIndex p)),
      m_timestampIndex := snd (timestamp_remove (receiveTime td) (td_id td) (m_timestampIndex p)),
      m_transactions := filter (\<lambda>x. td_id x \<noteq> td_id td) (m_transactions p)\<rparr>)"
    using inv ki so ids no_conflict_subset [OF I(3), of ?S]
    by (simp add: pool_inv_def timestamps.remove_ok timestamps.remove_mset distinct_map_filter)
  then show ?thesis using rem by (simp add: q_def)
qed

text \<open>The books do not depend on what the checks of a transaction found.\<close>

definition core :: "transaction_details \<Rightarrow> hash_t \<times> transaction \<times> bool \<times> u64" where
  "core td = (td_id td, td_tx td, keptByBlock td, receiveTime td)"

lemma spenders_core:
  "spenders T img = fst ` {c \<in> core ` T. img \<in> set (key_images (tx_inputs (fst (snd c))))}"
  by (force simp: spenders_def core_def)

lemma outputs_of_core:
  "outputs_of T = \<Union> ((\<lambda>c. set (used_outputs (tx_inputs (fst (snd c))))) ` {c \<in> core ` T. \<not> fst (snd (snd c))})"
  by (force simp: outputs_of_def core_def)

lemma no_conflict_core:
  "no_conflict T \<longleftrightarrow>
     (\<forall>a \<in> core ` T. \<forall>b \<in> core ` T. \<not> fst (snd (snd a)) \<longrightarrow> \<not> fst (snd (snd b)) \<longrightarrow> fst a \<noteq> fst b \<longrightarrow>
        set (key_images (tx_inputs (fst (snd a)))) \<inter> set (key_images (tx_inputs (fst (snd b)))) = {}
        \<and> set (used_outputs (tx_inputs (fst (snd a)))) \<inter> set (used_outputs (tx_inputs (fst (snd b)))) = {})"
  by (simp add: no_conflict_def core_def)

lemma pool_inv_core:
  assumes "pool_inv p" "map core txs = map core (m_transactions p)"
  shows "pool_inv (p\<lparr>m_transactions := txs\<rparr>)"
proof -
  have set: "core ` set txs = core ` set (m_transactions p)" using arg_cong [OF assms(2), of set] by simp
  have ids: "map td_id txs = map td_id (m_transactions p)"
    using arg_cong [OF assms(2), of "map fst"] by (simp add: core_def comp_def)
  have ts: "map (\<lambda>td. (receiveTime td, td_id td)) txs = map (\<lambda>td. (receiveTime td, td_id td)) (m_transactions p)"
    using arg_cong [OF assms(2), of "map (\<lambda>(i, _, _, t). (t, i))"] by (simp add: core_def comp_def)
  have dist: "(\<forall>td \<in> set xs. inputs_distinct (td_tx td)) \<longleftrightarrow> (\<forall>c \<in> core ` set xs. inputs_distinct (fst (snd c)))" for xs
    by (simp add: core_def)
  have "images_of (set txs) = images_of (set (m_transactions p))"
    by (intro ext) (simp only: images_of_def spenders_core set)
  then show ?thesis
    using assms(1) by (simp add: pool_inv_def ids ts dist set outputs_of_core no_conflict_core [of "set _"])
qed

section \<open>Templates\<close>

definition disjoint_inputs :: "transaction_details \<Rightarrow> transaction_details \<Rightarrow> bool" where
  "disjoint_inputs a b \<longleftrightarrow> td_images a \<inter> td_images b = {} \<and> td_outputs a \<inter> td_outputs b = {}"

definition template_of :: "transaction_details list \<Rightarrow> block_template" where
  "template_of chosen = \<lparr>bt_keyImages = \<Union> (td_images ` set chosen), bt_usedOutputs = \<Union> (td_outputs ` set chosen),
     bt_txHashes = map td_id chosen\<rparr>"

abbreviation ready :: "validator \<Rightarrow> transaction_details \<Rightarrow> bool" where
  "ready V td \<equiv> fst (is_transaction_ready_to_go V (td_tx td) (check_info td))"

abbreviation total_blob :: "transaction_details list \<Rightarrow> nat" where
  "total_blob tds \<equiv> sum_list (map (unat \<circ> blobSize) tds)"

text \<open>The state of the loops after the transactions \<open>chosen\<close> have been taken from \<open>T\<close>.\<close>

definition good_choice :: "validator \<Rightarrow> transaction_details set \<Rightarrow> nat \<Rightarrow> transaction_details list \<Rightarrow> u64 \<Rightarrow> bool" where
  "good_choice V T L chosen total_size \<longleftrightarrow>
     set chosen \<subseteq> T \<and> (\<forall>td \<in> set chosen. ready V td) \<and> sorted_wrt disjoint_inputs chosen
     \<and> unat total_size = total_blob chosen \<and> unat total_size \<le> L"

lemma canAdd_iff:
  "canAdd bt tx \<longleftrightarrow> set (key_images (tx_inputs tx)) \<inter> bt_keyImages bt = {}
     \<and> set (used_outputs (tx_inputs tx)) \<inter> bt_usedOutputs bt = {}"
proof -
  have "list_all (input_free bt) ins \<longleftrightarrow> set (key_images ins) \<inter> bt_keyImages bt = {}
      \<and> set (used_outputs ins) \<inter> bt_usedOutputs bt = {}" for ins
  proof (induction ins)
    case (Cons i ins)
    then show ?case by (cases i) auto
  qed simp
  then show ?thesis by (simp add: canAdd_def)
qed

lemma template_inputs_effect:
  assumes "distinct (key_images ins)" "distinct (used_outputs ins)"
    and "set (key_images ins) \<inter> bt_keyImages bt = {}" "set (used_outputs ins) \<inter> bt_usedOutputs bt = {}"
  shows "template_inputs ins bt = Inr (bt\<lparr>bt_keyImages := bt_keyImages bt \<union> set (key_images ins),
    bt_usedOutputs := bt_usedOutputs bt \<union> set (used_outputs ins)\<rparr>)"
  using assms by (induction ins bt rule: template_inputs.induct) auto

lemma template_add_effect:
  assumes "inputs_distinct (td_tx td)"
  shows "template_addTransaction (td_id td) (td_tx td) (template_of chosen) =
    Inr (if \<forall>x \<in> set chosen. disjoint_inputs x td then (True, template_of (chosen @ [td])) else (False, template_of chosen))"
proof -
  have "canAdd (template_of chosen) (td_tx td) \<longleftrightarrow> (\<forall>x \<in> set chosen. disjoint_inputs x td)"
    by (auto simp: canAdd_iff template_of_def disjoint_inputs_def)
  moreover have "template_inputs (tx_inputs (td_tx td)) (template_of chosen) =
      Inr ((template_of (chosen @ [td]))\<lparr>bt_txHashes := map td_id chosen\<rparr>)" if "canAdd (template_of chosen) (td_tx td)"
    using template_inputs_effect [of "tx_inputs (td_tx td)" "template_of chosen"] assms that
    by (simp add: canAdd_iff inputs_distinct_def) (simp add: template_of_def Un_commute)
  ultimately show ?thesis by (auto simp: template_addTransaction_def template_of_def)
qed

lemma good_choice_add:
  assumes "good_choice V T L chosen total_size" "td \<in> T" "ready V td" "\<forall>x \<in> set chosen. disjoint_inputs x td"
    and "unat total_size + unat (blobSize td) < 18446744073709551616" "unat (total_size + blobSize td) \<le> L"
  shows "good_choice V T L (chosen @ [td]) (total_size + blobSize td)"
  using assms by (auto simp: good_choice_def sorted_wrt_append unat_word_ariths)

lemma fill_free_sound:
  assumes "good_choice V T L chosen total_size" "set txs \<subseteq> T" "\<forall>td \<in> T. inputs_distinct (td_tx td)"
    and "unat (m_fusionTxMaxSize cur) \<le> L" "\<forall>td \<in> T. L + unat (blobSize td) < 18446744073709551616"
  shows "\<exists>more total'. fill_free cur V txs (template_of chosen) total_size = Inr (template_of (chosen @ more), total')
    \<and> good_choice V T L (chosen @ more) total' \<and> (\<forall>td \<in> set more. td_fee td = 0)"
  using assms
proof (induction txs arbitrary: chosen total_size)
  case Nil
  then show ?case by (intro exI [of _ "[]"]) simp
next
  case (Cons td txs)
  note IH = Cons.IH [OF _ _ Cons.prems(3-5)]
  have td: "td \<in> T" "set txs \<subseteq> T" using Cons.prems(2) by simp_all
  consider (stop) "td_fee td \<noteq> 0"
    | (skip) "td_fee td = 0" "m_fusionTxMaxSize cur < total_size + blobSize td \<or> \<not> ready V td
        \<or> \<not> (\<forall>x \<in> set chosen. disjoint_inputs x td)"
    | (take) "td_fee td = 0" "\<not> m_fusionTxMaxSize cur < total_size + blobSize td" "ready V td"
        "\<forall>x \<in> set chosen. disjoint_inputs x td"
    by blast
  then show ?case
  proof cases
    case stop
    then show ?thesis using Cons.prems(1) by (intro exI [of _ "[]"]) simp
  next
    case skip
    then have "fill_free cur V (td # txs) (template_of chosen) total_size = fill_free cur V txs (template_of chosen) total_size"
      using template_add_effect [of td chosen] Cons.prems(3) td by auto
    then show ?thesis using IH [OF Cons.prems(1) td(2)] by simp
  next
    case take
    have "unat total_size + unat (blobSize td) < 18446744073709551616"
      using Cons.prems(1,5) td by (force simp: good_choice_def)
    moreover have "unat (total_size + blobSize td) \<le> L"
      using take(2) Cons.prems(4) by (simp add: word_less_nat_alt)
    ultimately have "good_choice V T L (chosen @ [td]) (total_size + blobSize td)"
      by (rule good_choice_add [OF Cons.prems(1) td(1) take(3,4)])
    from IH [OF this td(2)] obtain more total' where
      "fill_free cur V txs (template_of (chosen @ [td])) (total_size + blobSize td) = Inr (template_of (chosen @ td # more), total')"
      "good_choice V T L (chosen @ td # more) total'" "\<forall>td \<in> set more. td_fee td = 0" by auto
    then show ?thesis
      using take template_add_effect [of td chosen] Cons.prems(3) td
      by (intro exI [of _ "td # more"] exI [of _ total']) auto
  qed
qed

text \<open>What the second loop stores in the container.\<close>

definition same_entry :: "transaction_details \<Rightarrow> transaction_details \<Rightarrow> bool" where
  "same_entry a b \<longleftrightarrow> core a = core b \<and> blobSize a = blobSize b \<and> td_fee a = td_fee b"

lemma fill_paid_sound:
  assumes "good_choice V T L chosen total_size" "set txs \<subseteq> T" "\<forall>td \<in> T. inputs_distinct (td_tx td)"
    and "unat median \<le> L" "unat max_total \<le> L" "\<forall>td \<in> T. L + unat (blobSize td) < 18446744073709551616"
  shows "\<exists>txs' more total'. fill_paid V median max_total txs (template_of chosen) total_size fee
      = Inr (txs', template_of (chosen @ more), total', fee + sum_list (map td_fee more))
    \<and> good_choice V T L (chosen @ more) total' \<and> list_all2 same_entry txs' txs"
  using assms
proof (induction txs arbitrary: chosen total_size fee)
  case Nil
  then show ?case by (intro exI [of _ "[]"]) simp
next
  case (Cons td txs)
  note IH = Cons.IH [OF _ _ Cons.prems(3-6)]
  have td: "td \<in> T" "set txs \<subseteq> T" using Cons.prems(2) by simp_all
  define lim where "lim = (if td_fee td = 0 then median else max_total)"
  obtain r info where ri: "is_transaction_ready_to_go V (td_tx td) (check_info td) = (r, info)" by fastforce
  define td' where "td' = td\<lparr>maxUsedBlock := maxUsedBlock info, lastFailedBlock := lastFailedBlock info\<rparr>"
  have same: "same_entry td' td" "same_entry td td" by (simp_all add: same_entry_def core_def td'_def)
  note add = template_add_effect [of td chosen]
  consider (big) "lim < total_size + blobSize td"
    | (skip) "\<not> lim < total_size + blobSize td" "\<not> (r \<and> (\<forall>x \<in> set chosen. disjoint_inputs x td))"
    | (take) "\<not> lim < total_size + blobSize td" r "\<forall>x \<in> set chosen. disjoint_inputs x td" by blast
  then show ?case
  proof cases
    case big
    from IH [OF Cons.prems(1) td(2)] obtain txs' more total' where
      "fill_paid V median max_total txs (template_of chosen) total_size fee
        = Inr (txs', template_of (chosen @ more), total', fee + sum_list (map td_fee more))"
      "good_choice V T L (chosen @ more) total'" "list_all2 same_entry txs' txs" by blast
    then show ?thesis using big same
      by (intro exI [of _ "td # txs'"] exI [of _ more] exI [of _ total']) (simp add: lim_def [symmetric])
  next
    case skip
    from IH [OF Cons.prems(1) td(2)] obtain txs' more total' where
      "fill_paid V median max_total txs (template_of chosen) total_size fee
        = Inr (txs', template_of (chosen @ more), total', fee + sum_list (map td_fee more))"
      "good_choice V T L (chosen @ more) total'" "list_all2 same_entry txs' txs" by blast
    then show ?thesis using skip same add Cons.prems(3) td
      by (intro exI [of _ "td' # txs'"] exI [of _ more] exI [of _ total'])
        (auto simp: lim_def [symmetric] ri td'_def [symmetric])
  next
    case take
    have "unat total_size + unat (blobSize td) < 18446744073709551616"
      using Cons.prems(1,6) td by (force simp: good_choice_def)
    moreover have "unat (total_size + blobSize td) \<le> L"
      using take(1) Cons.prems(4,5) by (simp add: word_less_nat_alt lim_def split: if_splits)
    ultimately have "good_choice V T L (chosen @ [td]) (total_size + blobSize td)"
      using good_choice_add [OF Cons.prems(1) td(1) _ take(3)] take(2) ri by simp
    from IH [OF this td(2), of "fee + td_fee td"] obtain txs' more total' where
      "fill_paid V median max_total txs (template_of (chosen @ [td])) (total_size + blobSize td) (fee + td_fee td)
        = Inr (txs', template_of (chosen @ td # more), total', fee + td_fee td + sum_list (map td_fee more))"
      "good_choice V T L (chosen @ td # more) total'" "list_all2 same_entry txs' txs" by auto
    then show ?thesis using take same add Cons.prems(3) td
      by (intro exI [of _ "td' # txs'"] exI [of _ "td # more"] exI [of _ total'])
        (auto simp: lim_def [symmetric] ri td'_def [symmetric] add.assoc)
  qed
qed

lemma template_distinct:
  assumes "sorted_wrt disjoint_inputs tds" "\<forall>td \<in> set tds. td_images td \<noteq> {} \<or> td_outputs td \<noteq> {}"
  shows "distinct tds"
  using assms by (induction tds) (auto simp: disjoint_inputs_def)

text \<open>
  C8: the transactions put into a block template are in the pool, ready according to the chain, pairwise
  different and without a common key image or multisignature output; their sizes add up to the returned
  total, which stays within the largest of the three limits, and their fees to the returned fee. The
  pool keeps its books.
\<close>

theorem block_template_sound:
  assumes "pool_inv p" "\<forall>td \<in> set (m_transactions p). td_images td \<noteq> {} \<or> td_outputs td \<noteq> {}"
    and "max_total = min (2 * median - m_minerTxBlobReservedSize cur) max_cumulative"
    and "L = max (unat (m_fusionTxMaxSize cur)) (max (unat median) (unat max_total))"
    and "\<forall>td \<in> set (m_transactions p). L + unat (blobSize td) < 2 ^ 64"
  shows "\<exists>chosen total_size q. fill_block_template cur V median max_cumulative p
      = Inr (map td_id chosen, total_size, sum_list (map td_fee chosen), q)
    \<and> set chosen \<subseteq> set (m_transactions p) \<and> distinct (map td_id chosen) \<and> (\<forall>td \<in> set chosen. ready V td)
    \<and> sorted_wrt disjoint_inputs chosen \<and> unat total_size = total_blob chosen \<and> unat total_size \<le> L \<and> pool_inv q"
proof -
  let ?T = "set (m_transactions p)"
  have dist: "\<forall>td \<in> ?T. inputs_distinct (td_tx td)" "distinct (map td_id (m_transactions p))"
    using assms(1) by (simp_all add: pool_inv_def)
  have lim: "unat (m_fusionTxMaxSize cur) \<le> L" "unat median \<le> L" "unat max_total \<le> L" by (simp_all add: assms(4))
  have fits: "\<forall>td \<in> ?T. L + unat (blobSize td) < 18446744073709551616" using assms(5) by simp
  have "good_choice V ?T L [] 0" by (simp add: good_choice_def)
  from fill_free_sound [OF this, of "rev (m_transactions p)" cur] obtain free t1 where
    f: "fill_free cur V (rev (m_transactions p)) (template_of []) 0 = Inr (template_of free, t1)"
      "good_choice V ?T L free t1" "\<forall>td \<in> set free. td_fee td = 0"
    using dist lim fits by auto
  from fill_paid_sound [OF f(2) subset_refl dist(1) lim(2,3) fits, of 0] obtain txs' more t2 where
    g: "fill_paid V median max_total (m_transactions p) (template_of free) t1 0
        = Inr (txs', template_of (free @ more), t2, sum_list (map td_fee more))"
      "good_choice V ?T L (free @ more) t2" "list_all2 same_entry txs' (m_transactions p)" by auto
  have zero: "sum_list (map td_fee free) = 0" using f(3) by (induction free) simp_all
  have "fill_block_template cur V median max_cumulative p
      = Inr (map td_id (free @ more), t2, sum_list (map td_fee (free @ more)), p\<lparr>m_transactions := txs'\<rparr>)"
    using f(1) g(1) zero
    by (simp add: fill_block_template_def assms(3) template_of_def template_new_def)
  moreover have "pool_inv (p\<lparr>m_transactions := txs'\<rparr>)"
    using g(3) by (intro pool_inv_core [OF assms(1)]) (auto simp: list_all2_conv_all_nth same_entry_def intro!: nth_equalityI)
  moreover have "distinct (map td_id (free @ more))"
  proof -
    have "distinct (free @ more)"
      using g(2) assms(2) by (intro template_distinct) (auto simp: good_choice_def)
    moreover have "inj_on td_id (set (free @ more))"
      using g(2) dist(2) by (auto simp: good_choice_def distinct_map intro: inj_on_subset)
    ultimately show ?thesis by (simp only: distinct_map)
  qed
  ultimately show ?thesis using g(2) unfolding good_choice_def by blast
qed

lemma spenders_empty [simp]: "spenders {} img = {}" and outputs_of_empty [simp]: "outputs_of {} = {}"
  by (simp_all add: spenders_def outputs_of_def)

theorem block_template_sound_witness:
  "\<exists>hs total_size fee q. fill_block_template default_currency
      \<lparr>v_checkInputs = \<lambda>_. (True, block_info_clear), v_recheckInputs = \<lambda>_ info. (True, info),
       v_haveSpentKeyImages = \<lambda>_. False, v_checkTransactionSize = \<lambda>_. True\<rparr> 10000 30000
      \<lparr>m_transactions = [\<lparr>maxUsedBlock = block_info_clear, lastFailedBlock = block_info_clear, td_id = [1],
         td_tx = \<lparr>tx_version = 1, unlockTime = 0, tx_inputs = [KeyInput 500 [1] [7]], tx_outputs = [], tx_extra = [],
           signatures = []\<rparr>, blobSize = 300, td_fee = 500, keptByBlock = False, receiveTime = 9\<rparr>],
       m_spent_key_images = [[7] \<mapsto> {[1]}], m_spentOutputs = {}, m_recentlyDeletedTransactions = Map.empty,
       m_paymentIdIndex = [], m_timestampIndex = [(9, [1])], m_lastWorkedTime = 0\<rparr>
    = Inr (hs, total_size, fee, q) \<and> distinct hs \<and> unat total_size \<le> 19400"
proof -
  let ?V = "\<lparr>v_checkInputs = \<lambda>_. (True, block_info_clear), v_recheckInputs = \<lambda>_ info. (True, info),
       v_haveSpentKeyImages = \<lambda>_. False, v_checkTransactionSize = \<lambda>_. True\<rparr>"
  let ?td = "\<lparr>maxUsedBlock = block_info_clear, lastFailedBlock = block_info_clear, td_id = [1],
         td_tx = \<lparr>tx_version = 1, unlockTime = 0, tx_inputs = [KeyInput 500 [1] [7]], tx_outputs = [], tx_extra = [],
           signatures = []\<rparr>, blobSize = 300, td_fee = 500, keptByBlock = False, receiveTime = 9\<rparr>"
  let ?p = "\<lparr>m_transactions = [?td],
       m_spent_key_images = [[7] \<mapsto> {[1]}], m_spentOutputs = {}, m_recentlyDeletedTransactions = Map.empty,
       m_paymentIdIndex = [], m_timestampIndex = [(9, [1])], m_lastWorkedTime = 0\<rparr>"
  have "pool_inv ?p"
    by (simp add: pool_inv_def inputs_distinct_def no_conflict_def fun_eq_iff images_of_def spenders_insert outputs_of_insert)
  moreover have "\<forall>td \<in> set (m_transactions ?p). td_images td \<noteq> {} \<or> td_outputs td \<noteq> {}" by simp
  moreover have "(19400 :: u64) = min (2 * 10000 - m_minerTxBlobReservedSize default_currency) 30000"
    by (simp add: default_currency_def)
  moreover have "19400 = max (unat (m_fusionTxMaxSize default_currency)) (max (unat (10000 :: u64)) (unat (19400 :: u64)))"
    by simp
  moreover have "\<forall>td \<in> set (m_transactions ?p). 19400 + unat (blobSize td) < 2 ^ 64" by simp
  ultimately show ?thesis using block_template_sound [of ?p 19400 10000 default_currency 30000 19400 ?V] by blast
qed

section \<open>Every operation keeps the books\<close>

lemma add_tx_inv:
  assumes "pool_inv p" "inputs_distinct tx"
  shows "\<exists>r tvc' q. add_tx cur V now tx i sz kept tvc p = Inr (r, tvc', q) \<and> pool_inv q"
proof (cases "(\<exists>r tvc'. add_tx cur V now tx i sz kept tvc p = Inr (r, tvc', p))")
  case True
  then show ?thesis using assms(1) by blast
next
  case False
  obtain valid used where v: "v_checkInputs V tx = (valid, used)" by fastforce
  define td where "td = \<lparr>maxUsedBlock = (if valid then used else block_info_clear), lastFailedBlock = block_info_clear,
    td_id = i, td_tx = tx, blobSize = sz, td_fee = get_inputs_money_amount tx - get_outs_money_amount tx,
    keptByBlock = kept, receiveTime = now\<rparr>"
  have guards: "check_inputs_types_supported tx" "\<not> get_inputs_money_amount tx < get_outs_money_amount tx"
    "\<not> (\<not> kept \<and> \<not> (td_fee td = 0 \<and> isFusionTransaction cur tx sz) \<and> td_fee td < m_mininumFee cur)"
    "\<not> (\<not> kept \<and> haveSpentInputs p tx)" "\<not> (\<not> kept \<and> \<not> valid)" "\<not> (\<not> kept \<and> \<not> v_checkTransactionSize V sz)"
    "\<not> (\<not> kept \<and> m_recentlyDeletedTransactions p i \<noteq> None)" "\<not> have_tx p i"
    using False by (auto simp: add_tx_def v Let_def td_def split: if_splits)
  obtain q where q: "addTransactionInputs i kept (tx_inputs tx) (pool_insert td p) = Inr (True, q)" "pool_inv q"
    using pool_insert_inv [of p td] assms guards(4,8) by (auto simp: td_def)
  have "add_tx cur V now tx i sz kept tvc p = Inr (True, (if valid then tvc else tvc\<lparr>m_verifivation_impossible := True\<rparr>)
      \<lparr>m_added_to_pool := True, m_should_be_relayed := valid \<and> (0 < td_fee td \<or> td_fee td = 0 \<and> isFusionTransaction cur tx sz),
       m_verifivation_failed := True, m_verifivation_failed := False\<rparr>, q)"
    unfolding add_tx_def v Let_def prod.case
    using guards q(1) by (simp only: td_def [symmetric]) (simp add: td_def)
  then show ?thesis using q(2) by blast
qed

lemma take_tx_inv:
  assumes "pool_inv p"
  shows "\<exists>r q. take_tx i p = Inr (r, q) \<and> pool_inv q"
proof (cases "find (\<lambda>td. td_id td = i) (m_transactions p)")
  case None
  then show ?thesis using assms by (simp add: take_tx_def)
next
  case (Some td)
  then have "td \<in> set (m_transactions p)" by (auto simp: find_Some_iff)
  from removeTransaction_inv [OF assms this] show ?thesis by (auto simp: take_tx_def Some)
qed

lemma pool_inv_deleted: "pool_inv p \<Longrightarrow> pool_inv (p\<lparr>m_recentlyDeletedTransactions := d\<rparr>)"
  by (simp add: pool_inv_def)

lemma expire_loop_inv:
  assumes "pool_inv p" "set tds \<subseteq> set (m_transactions p)" "distinct (map td_id tds)"
  shows "\<exists>r q. expire_loop cur now tds p s = Inr (r, q) \<and> pool_inv q
    \<and> m_transactions q = filter (\<lambda>td. \<not> (td \<in> set tds \<and> expired cur now td)) (m_transactions p)"
  using assms
proof (induction tds arbitrary: p s)
  case (Cons td tds)
  show ?case
  proof (cases "expired cur now td")
    case True
    define p1 where "p1 = p\<lparr>m_recentlyDeletedTransactions := map_insert (td_id td) now (m_recentlyDeletedTransactions p)\<rparr>"
    have p1: "pool_inv p1" "m_transactions p1 = m_transactions p"
      using Cons.prems(1) by (simp_all add: p1_def pool_inv_deleted)
    then obtain q where q: "removeTransaction td p1 = Inr q" "pool_inv q"
      "m_transactions q = filter (\<lambda>x. td_id x \<noteq> td_id td) (m_transactions p)"
      using removeTransaction_inv [of p1 td] Cons.prems(2) by auto
    have sub: "set tds \<subseteq> set (m_transactions q)" using Cons.prems(2,3) q(3) by (auto intro: rev_image_eqI)
    obtain r q' where l: "expire_loop cur now tds q True = Inr (r, q')" "pool_inv q'"
      "m_transactions q' = filter (\<lambda>td. \<not> (td \<in> set tds \<and> expired cur now td)) (m_transactions q)"
      using Cons.IH [OF q(2) sub, of True] Cons.prems(3) by auto
    have inj: "x = td" if "x \<in> set (m_transactions p)" "td_id x = td_id td" for x
      using that Cons.prems(1,2) by (auto simp: pool_inv_def distinct_map dest: inj_onD)
    have "filter (\<lambda>td. \<not> (td \<in> set tds \<and> expired cur now td)) (m_transactions q)
        = filter (\<lambda>x. \<not> (x \<in> set (td # tds) \<and> expired cur now x)) (m_transactions p)"
      unfolding q(3) filter_filter using inj True by (intro filter_cong) auto
    then show ?thesis using l q(1) True by (simp add: p1_def)
  next
    case False
    then have eq: "filter (\<lambda>x. \<not> (x \<in> set (td # tds) \<and> expired cur now x)) (m_transactions p)
        = filter (\<lambda>x. \<not> (x \<in> set tds \<and> expired cur now x)) (m_transactions p)"
      by (intro filter_cong) auto
    show ?thesis unfolding eq using Cons.IH [OF Cons.prems(1), of s] Cons.prems(2,3) False by simp
  qed
qed simp

lemma removeExpired_inv:
  assumes "pool_inv p"
  shows "\<exists>r q. removeExpiredTransactions cur now p = Inr (r, q) \<and> pool_inv q
    \<and> m_transactions q = filter (\<lambda>td. \<not> expired cur now td) (m_transactions p)"
proof -
  define p1 where "p1 = p\<lparr>m_recentlyDeletedTransactions := (\<lambda>h. case m_recentlyDeletedTransactions p h of None \<Rightarrow> None
    | Some t \<Rightarrow> if m_numberOfPeriodsToForgetTxDeletedFromPool cur * m_mempoolTxLiveTime cur < now - t then None else Some t)\<rparr>"
  have p1: "pool_inv p1" "m_transactions p1 = m_transactions p"
    using assms by (simp_all add: p1_def pool_inv_deleted)
  have "distinct (map td_id (m_transactions p))" using assms by (simp add: pool_inv_def)
  then obtain r q where q: "expire_loop cur now (m_transactions p) p1 False = Inr (r, q)" "pool_inv q"
    "m_transactions q = filter (\<lambda>td. \<not> (td \<in> set (m_transactions p) \<and> expired cur now td)) (m_transactions p)"
    using expire_loop_inv [OF p1(1), of "m_transactions p" cur now False] p1(2) by auto
  have "filter (\<lambda>td. \<not> (td \<in> set (m_transactions p) \<and> expired cur now td)) (m_transactions p)
      = filter (\<lambda>td. \<not> expired cur now td) (m_transactions p)"
    by (rule filter_cong) simp_all
  then show ?thesis using q by (simp add: removeExpiredTransactions_def p1_def)
qed

text \<open>
  The life of a pool: transactions come from the network or from blocks, are taken into blocks, expire,
  and are offered for templates, while the chain behind \<open>V\<close> changes between the steps. The callers of
  \<open>add_tx\<close> have checked that a transaction does not use an input twice, and its size is not zero.
\<close>

inductive pool_step :: "currency \<Rightarrow> tx_pool \<Rightarrow> tx_pool \<Rightarrow> bool" for cur where
  step_add: "inputs_distinct tx \<Longrightarrow> sz \<noteq> 0 \<Longrightarrow> add_tx cur V now tx i sz kept tvc p = Inr (r, tvc', q) \<Longrightarrow> pool_step cur p q"
| step_take: "take_tx i p = Inr (r, q) \<Longrightarrow> pool_step cur p q"
| step_fill: "fill_block_template cur V median limit p = Inr (hs, total_size, fee, q) \<Longrightarrow> pool_step cur p q"
| step_expire: "removeExpiredTransactions cur now p = Inr (r, q) \<Longrightarrow> pool_step cur p q"
| step_idle: "on_idle cur now p = Inr q \<Longrightarrow> pool_step cur p q"

inductive_cases pool_stepE: "pool_step cur p q"

lemma on_idle_inv:
  assumes "pool_inv p"
  shows "\<exists>q. on_idle cur now p = Inr q \<and> pool_inv q"
proof -
  obtain r q where "removeExpiredTransactions cur now p = Inr (r, q)" "pool_inv q"
    using removeExpired_inv [OF assms] by blast
  moreover from this have "pool_inv (q\<lparr>m_lastWorkedTime := now\<rparr>)" by (simp add: pool_inv_def)
  ultimately show ?thesis using assms by (simp add: on_idle_def)
qed

lemma fill_paid_same:
  "fill_paid V median max_total txs bt total_size fee = Inr (txs', r) \<Longrightarrow> list_all2 same_entry txs' txs"
proof (induction txs arbitrary: bt total_size fee txs' r)
  case (Cons td txs)
  then show ?case
    by (auto simp: Let_def same_entry_def core_def split: if_splits sum.splits prod.splits)
qed simp

lemma fill_block_template_inv:
  assumes "fill_block_template cur V median limit p = Inr (hs, total_size, fee, q)"
  shows "list_all2 same_entry (m_transactions q) (m_transactions p) \<and> q = p\<lparr>m_transactions := m_transactions q\<rparr>"
  using assms fill_paid_same [of V median]
  by (auto simp: fill_block_template_def Let_def split: sum.splits)

lemma same_entry_inv:
  assumes "pool_inv p" "list_all2 same_entry txs (m_transactions p)"
  shows "pool_inv (p\<lparr>m_transactions := txs\<rparr>)"
  using assms(2)
  by (intro pool_inv_core [OF assms(1)]) (auto simp: list_all2_conv_all_nth same_entry_def intro!: nth_equalityI)

lemma pool_step_inv: "pool_step cur p q \<Longrightarrow> pool_inv p \<Longrightarrow> pool_inv q"
proof (induction rule: pool_step.induct)
  case (step_add tx sz V now i kept tvc p r tvc' q)
  then show ?case using add_tx_inv [of p tx cur V now i sz kept tvc] by auto
next
  case (step_take i p r q)
  then show ?case using take_tx_inv [of p i] by auto
next
  case (step_fill V median limit p hs total_size fee q)
  then show ?case using fill_block_template_inv [OF step_fill(1)] same_entry_inv [of p "m_transactions q"] by simp
next
  case (step_expire now p r q)
  then show ?case using removeExpired_inv [of p cur now] by auto
next
  case (step_idle now p q)
  then show ?case using on_idle_inv [of p cur now] by auto
qed

lemma pool_inv_empty: "pool_inv empty_pool"
  by (simp add: pool_inv_def empty_pool_def no_conflict_def fun_eq_iff images_of_def)

lemma pool_reachable_inv:
  assumes "(pool_step cur)\<^sup>*\<^sup>* empty_pool p"
  shows "pool_inv p"
  using assms by (induction rule: rtranclp_induct) (auto intro: pool_inv_empty pool_step_inv)

text \<open>
  C7: in every reachable state the books of the pool agree with its transactions: the ids are unique, the
  spent key images map exactly to the transactions that spend them, the spent multisignature outputs are
  those of the transactions from the network, no two of which share an input, and the time index lists
  every transaction once. No operation then runs into an internal assertion.
\<close>

theorem pool_reachable_consistent:
  assumes "(pool_step cur)\<^sup>*\<^sup>* empty_pool p" "inputs_distinct tx"
  shows "pool_inv p \<and> (\<exists>x. add_tx cur V now tx i sz kept tvc p = Inr x) \<and> (\<exists>x. take_tx i p = Inr x)
    \<and> (\<exists>x. removeExpiredTransactions cur now p = Inr x) \<and> (\<exists>x. on_idle cur now p = Inr x)"
  using pool_reachable_inv [OF assms(1)] add_tx_inv [of p tx] take_tx_inv [of p] removeExpired_inv [of p] on_idle_inv [of p] assms(2)
  by blast

abbreviation no_verdict :: tx_verification_context where
  "no_verdict \<equiv> \<lparr>m_should_be_relayed = False, m_verifivation_failed = False, m_verifivation_impossible = False,
     m_added_to_pool = False, m_tx_fee_too_small = False\<rparr>"

abbreviation trusting :: validator where
  "trusting \<equiv> \<lparr>v_checkInputs = \<lambda>_. (True, block_info_clear), v_recheckInputs = \<lambda>_ info. (True, info),
     v_haveSpentKeyImages = \<lambda>_. False, v_checkTransactionSize = \<lambda>_. True\<rparr>"

theorem pool_reachable_consistent_witness:
  "\<exists>q. add_tx default_currency trusting 9
      \<lparr>tx_version = 1, unlockTime = 0, tx_inputs = [KeyInput 500 [1] [7]], tx_outputs = [], tx_extra = [], signatures = []\<rparr>
      [1] 300 False no_verdict empty_pool = Inr (True, no_verdict\<lparr>m_added_to_pool := True, m_should_be_relayed := True\<rparr>, q)
    \<and> have_tx q [1] \<and> pool_inv q"
proof -
  let ?tx = "\<lparr>tx_version = 1, unlockTime = 0, tx_inputs = [KeyInput 500 [1] [7]], tx_outputs = [], tx_extra = [], signatures = []\<rparr>"
  have "\<exists>q. add_tx default_currency trusting 9 ?tx [1] 300 False no_verdict empty_pool
      = Inr (True, no_verdict\<lparr>m_added_to_pool := True, m_should_be_relayed := True\<rparr>, q) \<and> have_tx q [1]"
    by (simp add: add_tx_def check_inputs_types_supported_def get_inputs_money_amount_def get_outs_money_amount_def
        empty_pool_def have_tx_def haveSpentInputs_def pool_insert_def default_currency_def)
  then obtain q where q: "add_tx default_currency trusting 9 ?tx [1] 300 False no_verdict empty_pool
      = Inr (True, no_verdict\<lparr>m_added_to_pool := True, m_should_be_relayed := True\<rparr>, q)" "have_tx q [1]" by blast
  have d: "inputs_distinct ?tx" by (simp add: inputs_distinct_def)
  have "(pool_step default_currency)\<^sup>*\<^sup>* empty_pool q"
    by (rule r_into_rtranclp) (rule step_add [OF d _ q(1)], simp)
  then have "pool_inv q" using pool_reachable_consistent [OF _ d] by blast
  then show ?thesis using q by blast
qed

section \<open>Priorities\<close>

definition price :: "transaction_details \<Rightarrow> real" where
  "price td = real (unat (td_fee td)) / real (unat (blobSize td))"

lemma mul128_less:
  assumes "mul128 a b = (lo, hi)" "mul128 c d = (lo', hi')"
  shows "hi < hi' \<or> hi = hi' \<and> lo < lo' \<longleftrightarrow> unat a * unat b < unat c * unat d"
proof -
  have e: "unat a * unat b = unat hi * 18446744073709551616 + unat lo"
    "unat c * unat d = unat hi' * 18446744073709551616 + unat lo'"
    using mul128_exact [of a b] mul128_exact [of c d] assms by simp_all
  have b: "unat lo < 18446744073709551616" "unat lo' < 18446744073709551616" by (simp_all add: unat_bounds)
  show ?thesis unfolding e using b by (auto simp: word_less_nat_alt word_unat_eq_iff)
qed

lemma mul128_eq:
  assumes "mul128 a b = (lo, hi)" "mul128 c d = (lo', hi')"
  shows "hi = hi' \<and> lo = lo' \<longleftrightarrow> unat a * unat b = unat c * unat d"
proof -
  have "hi = hi' \<and> lo = lo' \<longleftrightarrow> \<not> (hi < hi' \<or> hi = hi' \<and> lo < lo') \<and> \<not> (hi' < hi \<or> hi' = hi \<and> lo' < lo)"
    by auto
  then show ?thesis unfolding mul128_less [OF assms] mul128_less [OF assms(2,1)] by auto
qed

lemma cross_less:
  fixes fa fb sa sb :: nat
  assumes "0 < sa" "0 < sb"
  shows "fb * sa < fa * sb \<longleftrightarrow> real fb / real sb < real fa / real sa"
    and "fa * sb = fb * sa \<longleftrightarrow> real fa / real sa = real fb / real sb"
  using assms by (simp_all add: field_simps flip: of_nat_mult)

definition priority_key :: "transaction_details \<Rightarrow> real \<times> u64 \<times> int" where
  "priority_key td = (- price td, blobSize td, sint (receiveTime td))"

lemma priority_less_iff:
  assumes "blobSize a \<noteq> 0" "blobSize b \<noteq> 0"
  shows "priority_less a b \<longleftrightarrow> priority_key a < priority_key b"
proof -
  obtain lo hi lo' hi' where m: "mul128 (td_fee a) (blobSize b) = (lo, hi)" "mul128 (td_fee b) (blobSize a) = (lo', hi')"
    by fastforce
  have pos: "0 < unat (blobSize a)" "0 < unat (blobSize b)" using assms by (simp_all add: unat_gt_0)
  have lt: "unat (td_fee b) * unat (blobSize a) < unat (td_fee a) * unat (blobSize b) \<longleftrightarrow> price b < price a"
    unfolding price_def by (rule cross_less(1) [OF pos])
  have eq: "unat (td_fee a) * unat (blobSize b) = unat (td_fee b) * unat (blobSize a) \<longleftrightarrow> price a = price b"
    unfolding price_def by (rule cross_less(2) [OF pos])
  have "priority_less a b \<longleftrightarrow> price b < price a \<or> price a = price b
      \<and> (blobSize a < blobSize b \<or> blobSize a = blobSize b \<and> sint (receiveTime a) < sint (receiveTime b))"
    using mul128_less [OF m(2,1)] mul128_eq [OF m] unfolding lt eq by (auto simp: priority_less_def m)
  also have "\<dots> \<longleftrightarrow> priority_key a < priority_key b"
    unfolding priority_key_def less_prod_simp neg_less_iff_less neg_le_iff_le by (metis order_le_less)
  finally show ?thesis .
qed

definition entry_ok :: "currency \<Rightarrow> transaction_details \<Rightarrow> bool" where
  "entry_ok cur td \<longleftrightarrow>
     blobSize td \<noteq> 0 \<and> check_inputs_types_supported (td_tx td)
     \<and> get_outs_money_amount (td_tx td) \<le> get_inputs_money_amount (td_tx td)
     \<and> td_fee td = get_inputs_money_amount (td_tx td) - get_outs_money_amount (td_tx td)
     \<and> (keptByBlock td \<or> m_mininumFee cur \<le> td_fee td
        \<or> td_fee td = 0 \<and> isFusionTransaction cur (td_tx td) (blobSize td))"

definition entries_ok :: "currency \<Rightarrow> transaction_details list \<Rightarrow> bool" where
  "entries_ok cur tds \<longleftrightarrow> (\<forall>td \<in> set tds. entry_ok cur td) \<and> sorted_wrt (\<lambda>a b. \<not> priority_less b a) tds"

lemma sorted_priority:
  assumes "\<forall>td \<in> set tds. blobSize td \<noteq> 0"
  shows "sorted_wrt (\<lambda>a b. \<not> priority_less b a) tds \<longleftrightarrow> sorted (map priority_key tds)"
  using assms by (induction tds) (auto simp: priority_less_iff not_less)

lemma sorted_fee_insert:
  assumes "\<forall>td \<in> set (td # tds). blobSize td \<noteq> 0" "sorted (map priority_key tds)"
  shows "sorted (map priority_key (fee_insert td tds))"
  using assms by (induction tds) (auto simp: priority_less_iff not_less)

lemma entries_ok_insert:
  assumes "entries_ok cur tds" "entry_ok cur td"
  shows "entries_ok cur (fee_insert td tds)"
proof -
  have nz: "\<forall>x \<in> set (td # tds). blobSize x \<noteq> 0" using assms by (auto simp: entries_ok_def entry_ok_def)
  then have "sorted (map priority_key tds)" using sorted_priority [of tds] assms(1) by (simp add: entries_ok_def)
  from sorted_fee_insert [OF nz this] have "sorted_wrt (\<lambda>a b. \<not> priority_less b a) (fee_insert td tds)"
    using sorted_priority [of "fee_insert td tds"] nz by simp
  then show ?thesis using assms by (auto simp: entries_ok_def)
qed

lemma entries_ok_filter: "entries_ok cur tds \<Longrightarrow> entries_ok cur (filter P tds)"
  by (auto simp: entries_ok_def sorted_wrt_filter)

lemma same_entry_ok: "same_entry a b \<Longrightarrow> entry_ok cur a \<longleftrightarrow> entry_ok cur b"
  by (simp add: same_entry_def core_def entry_ok_def)

lemma same_entry_priority: "same_entry a a' \<Longrightarrow> same_entry b b' \<Longrightarrow> priority_less a b \<longleftrightarrow> priority_less a' b'"
  by (simp add: same_entry_def core_def priority_less_def)

lemma entries_ok_same:
  assumes "entries_ok cur tds" "list_all2 same_entry tds' tds"
  shows "entries_ok cur tds'"
proof -
  have same: "length tds' = length tds" "\<And>k. k < length tds \<Longrightarrow> same_entry (tds' ! k) (tds ! k)"
    using assms(2) by (simp_all add: list_all2_conv_all_nth)
  have "entry_ok cur (tds' ! k)" if "k < length tds" for k
    using same_entry_ok [OF same(2) [OF that]] assms(1) that by (simp add: entries_ok_def)
  moreover have "\<not> priority_less (tds' ! k) (tds' ! j)" if "j < k" "k < length tds" for j k
    using same_entry_priority [OF same(2) same(2), of k j] assms(1) that
    by (simp add: entries_ok_def sorted_wrt_iff_nth_less)
  ultimately show ?thesis by (simp add: entries_ok_def sorted_wrt_iff_nth_less all_set_conv_all_nth same(1))
qed

lemma addTransactionInputs_frame:
  "addTransactionInputs i kept ins p = Inr (r, q) \<Longrightarrow>
     m_transactions q = m_transactions p \<and> m_paymentIdIndex q = m_paymentIdIndex p"
  by (induction i kept ins p rule: addTransactionInputs.induct) (auto simp: Let_def split: if_splits)

lemma removeTransactionInputs_frame:
  "removeTransactionInputs i kept ins p = Inr (r, q) \<Longrightarrow> m_transactions q = m_transactions p"
  by (induction i kept ins p rule: removeTransactionInputs.induct) (auto split: if_splits option.splits)

lemma removeTransaction_frame:
  "removeTransaction td p = Inr q \<Longrightarrow> m_transactions q = filter (\<lambda>x. td_id x \<noteq> td_id td) (m_transactions p)"
  by (auto simp: removeTransaction_def dest: removeTransactionInputs_frame split: sum.splits)

lemma expire_loop_frame:
  "expire_loop cur now tds p s = Inr (r, q) \<Longrightarrow> \<exists>P. m_transactions q = filter P (m_transactions p)"
proof (induction tds arbitrary: p s)
  case Nil
  then show ?case by (auto intro!: exI [of _ "\<lambda>_. True"])
next
  case (Cons td tds)
  show ?case
  proof (cases "expired cur now td")
    case True
    then obtain p' where p': "removeTransaction td
        (p\<lparr>m_recentlyDeletedTransactions := map_insert (td_id td) now (m_recentlyDeletedTransactions p)\<rparr>) = Inr p'"
      "expire_loop cur now tds p' True = Inr (r, q)"
      using Cons.prems by (auto split: sum.splits)
    show ?thesis using Cons.IH [OF p'(2)] removeTransaction_frame [OF p'(1)] by (auto simp: filter_filter)
  next
    case False
    then show ?thesis using Cons by simp
  qed
qed

definition new_entry :: "validator \<Rightarrow> u64 \<Rightarrow> transaction \<Rightarrow> hash_t \<Rightarrow> u64 \<Rightarrow> bool \<Rightarrow> transaction_details" where
  "new_entry V now tx i sz kept =
     \<lparr>maxUsedBlock = (if fst (v_checkInputs V tx) then snd (v_checkInputs V tx) else block_info_clear),
      lastFailedBlock = block_info_clear, td_id = i, td_tx = tx, blobSize = sz,
      td_fee = get_inputs_money_amount tx - get_outs_money_amount tx, keptByBlock = kept, receiveTime = now\<rparr>"

text \<open>\<open>add_tx\<close> leaves the pool alone, or all its checks pass and it enters the transaction.\<close>

lemma add_tx_cases:
  fixes cur V now tx i sz kept tvc p
  defines "td \<equiv> new_entry V now tx i sz kept"
  defines "fusion \<equiv> td_fee td = 0 \<and> isFusionTransaction cur tx sz"
  defines "verdict \<equiv> (if fst (v_checkInputs V tx) then tvc else tvc\<lparr>m_verifivation_impossible := True\<rparr>)
    \<lparr>m_added_to_pool := True, m_should_be_relayed := fst (v_checkInputs V tx) \<and> (0 < td_fee td \<or> fusion),
     m_verifivation_failed := True\<rparr>"
  shows "(\<exists>r tvc'. add_tx cur V now tx i sz kept tvc p = Inr (r, tvc', p) \<and> (r \<longrightarrow> \<not> m_added_to_pool tvc')) \<or>
    check_inputs_types_supported tx \<and> \<not> get_inputs_money_amount tx < get_outs_money_amount tx
    \<and> (kept \<or> fusion \<or> \<not> td_fee td < m_mininumFee cur) \<and> (kept \<or> \<not> haveSpentInputs p tx) \<and> (kept \<or> fst (v_checkInputs V tx))
    \<and> (kept \<or> v_checkTransactionSize V sz) \<and> \<not> have_tx p i
    \<and> add_tx cur V now tx i sz kept tvc p =
        (case addTransactionInputs i kept (tx_inputs tx) (pool_insert td p) of
           Inl e \<Rightarrow> Inl e
         | Inr (False, q) \<Rightarrow> Inr (False, verdict, q)
         | Inr (True, q) \<Rightarrow> Inr (True, verdict\<lparr>m_verifivation_failed := False\<rparr>, q))"
proof -
  obtain valid used where v: "v_checkInputs V tx = (valid, used)" by fastforce
  have fee: "td_fee td = get_inputs_money_amount tx - get_outs_money_amount tx" by (simp add: td_def new_entry_def)
  define tvc1 where "tvc1 = (if valid then tvc else tvc\<lparr>m_verifivation_impossible := True\<rparr>)"
  define X where "X = (case addTransactionInputs i kept (tx_inputs tx) (pool_insert td p) of
           Inl e \<Rightarrow> Inl e
         | Inr (False, q) \<Rightarrow> Inr (False, verdict, q)
         | Inr (True, q) \<Rightarrow> Inr (True, verdict\<lparr>m_verifivation_failed := False\<rparr>, q))"
  have eq: "add_tx cur V now tx i sz kept tvc p =
     (if \<not> check_inputs_types_supported tx then Inr (False, tvc\<lparr>m_verifivation_failed := True\<rparr>, p)
      else if get_inputs_money_amount tx < get_outs_money_amount tx then Inr (False, tvc\<lparr>m_verifivation_failed := True\<rparr>, p)
      else if \<not> kept \<and> \<not> fusion \<and> td_fee td < m_mininumFee cur
        then Inr (False, tvc\<lparr>m_verifivation_failed := True\<rparr>\<lparr>m_tx_fee_too_small := True\<rparr>, p)
      else if \<not> kept \<and> haveSpentInputs p tx then Inr (False, tvc\<lparr>m_verifivation_failed := True\<rparr>, p)
      else if \<not> kept \<and> \<not> valid then Inr (False, tvc\<lparr>m_verifivation_failed := True\<rparr>, p)
      else if \<not> kept \<and> \<not> v_checkTransactionSize V sz then Inr (False, tvc\<lparr>m_verifivation_failed := True\<rparr>, p)
      else if \<not> kept \<and> m_recentlyDeletedTransactions p i \<noteq> None
        then Inr (True, tvc1\<lparr>m_verifivation_failed := False, m_should_be_relayed := False, m_added_to_pool := False\<rparr>, p)
      else if have_tx p i then Inr (False, tvc1, p)
      else X)"
    unfolding add_tx_def v Let_def prod.case X_def verdict_def fusion_def td_def new_entry_def tvc1_def
    by (simp only: fst_conv snd_conv transaction_details.select_convs)
  show ?thesis
  proof (cases "\<exists>r tvc'. add_tx cur V now tx i sz kept tvc p = Inr (r, tvc', p) \<and> (r \<longrightarrow> \<not> m_added_to_pool tvc')")
    case False
    have no: "add_tx cur V now tx i sz kept tvc p \<noteq> Inr (r, tvc', p)" if "r \<longrightarrow> \<not> m_added_to_pool tvc'" for r tvc'
      using False that by blast
    have c1: "check_inputs_types_supported tx"
    proof (rule ccontr)
      assume "\<not> check_inputs_types_supported tx"
      with no [of False] show False unfolding eq by (simp, blast)
    qed
    have c2: "\<not> get_inputs_money_amount tx < get_outs_money_amount tx"
    proof
      assume "get_inputs_money_amount tx < get_outs_money_amount tx"
      with no [of False] c1 show False unfolding eq by (simp, blast)
    qed
    have c1': "\<not> \<not> check_inputs_types_supported tx" using c1 by simp
    note eq2 = eq [unfolded if_not_P [OF c1'] if_not_P [OF c2]]
    have c3: "\<not> (\<not> kept \<and> \<not> fusion \<and> td_fee td < m_mininumFee cur)"
    proof
      assume "\<not> kept \<and> \<not> fusion \<and> td_fee td < m_mininumFee cur"
      with no [of False] show False unfolding eq2 by (simp, blast)
    qed
    have c4: "\<not> (\<not> kept \<and> haveSpentInputs p tx)"
    proof
      assume "\<not> kept \<and> haveSpentInputs p tx"
      with no [of False] show False unfolding eq2 if_not_P [OF c3] by (simp, blast)
    qed
    have c5: "\<not> (\<not> kept \<and> \<not> valid)"
    proof
      assume "\<not> kept \<and> \<not> valid"
      with no [of False] show False unfolding eq2 if_not_P [OF c3] if_not_P [OF c4] by (simp, blast)
    qed
    have c6: "\<not> (\<not> kept \<and> \<not> v_checkTransactionSize V sz)"
    proof
      assume "\<not> kept \<and> \<not> v_checkTransactionSize V sz"
      with no [of False] show False unfolding eq2 if_not_P [OF c3] if_not_P [OF c4] if_not_P [OF c5] by (simp, blast)
    qed
    note eq6 = eq2 [unfolded if_not_P [OF c3] if_not_P [OF c4] if_not_P [OF c5] if_not_P [OF c6]]
    have c7: "\<not> (\<not> kept \<and> m_recentlyDeletedTransactions p i \<noteq> None)"
    proof
      assume "\<not> kept \<and> m_recentlyDeletedTransactions p i \<noteq> None"
      with no [of True "tvc1\<lparr>m_verifivation_failed := False, m_should_be_relayed := False, m_added_to_pool := False\<rparr>"]
      show False unfolding eq6 by simp
    qed
    have c8: "\<not> have_tx p i"
    proof
      assume "have_tx p i"
      with no [of False] show False unfolding eq6 if_not_P [OF c7] by (simp, blast)
    qed
    have "add_tx cur V now tx i sz kept tvc p = X" unfolding eq6 if_not_P [OF c7] if_not_P [OF c8] ..
    then show ?thesis using c1 c2 c3 c4 c5 c6 c8 unfolding X_def v fst_conv by blast
  qed blast
qed

lemma add_tx_entry:
  assumes "add_tx cur V now tx i sz kept tvc p = Inr (r, tvc', q)" "sz \<noteq> 0"
  shows "m_paymentIdIndex q = m_paymentIdIndex p
    \<and> (m_transactions q = m_transactions p
        \<or> (m_transactions q = fee_insert (new_entry V now tx i sz kept) (m_transactions p)
            \<and> entry_ok cur (new_entry V now tx i sz kept)))"
proof -
  have pay: "payment_add (moved_from tx) idx = (False, idx)" for idx
    by (simp add: payment_add_def getPaymentId_def moved_from_def parseTransactionExtra_def)
  define td where "td = new_entry V now tx i sz kept"
  have ins: "m_transactions (pool_insert td p) = fee_insert td (m_transactions p)"
    "m_paymentIdIndex (pool_insert td p) = m_paymentIdIndex p"
    by (simp_all add: pool_insert_def td_def new_entry_def pay)
  from add_tx_cases [of cur V now tx i sz kept tvc p] show ?thesis
  proof (rule disjE, goal_cases)
    case 1
    then show ?thesis using assms(1) by auto
  next
    case checks: 2
    note 2 = checks [THEN conjunct1] checks [THEN conjunct2, THEN conjunct1]
      checks [THEN conjunct2, THEN conjunct2, THEN conjunct1]
      checks [THEN conjunct2, THEN conjunct2, THEN conjunct2, THEN conjunct2, THEN conjunct2, THEN conjunct2, THEN conjunct2]
    have f: "td_fee td = get_inputs_money_amount tx - get_outs_money_amount tx" "blobSize td = sz" "td_tx td = tx"
      "keptByBlock td = kept" by (simp_all add: td_def new_entry_def)
    have "entry_ok cur td" using 2(1-3) assms(2) f(1)
      unfolding entry_ok_def f(2-4) not_less td_def [symmetric] by blast
    moreover have "\<exists>b. addTransactionInputs i kept (tx_inputs tx) (pool_insert td p) = Inr (b, q)"
    proof (cases "addTransactionInputs i kept (tx_inputs tx) (pool_insert td p)")
      case (Inl e)
      then show ?thesis using 2(4) assms(1) unfolding td_def [symmetric] by simp
    next
      case (Inr z)
      obtain b q' where "z = (b, q')" by fastforce
      then show ?thesis using 2(4) assms(1) Inr unfolding td_def [symmetric]
        by (intro exI [of _ b]) (cases b; simp)
    qed
    ultimately show ?thesis
      using addTransactionInputs_frame [of i kept "tx_inputs tx" "pool_insert td p"] ins unfolding td_def [symmetric] by auto
  qed
qed

lemma pool_step_entries: "pool_step cur p q \<Longrightarrow> entries_ok cur (m_transactions p) \<Longrightarrow> entries_ok cur (m_transactions q)"
proof (induction rule: pool_step.induct)
  case (step_add tx sz V now i kept tvc p r tvc' q)
  then show ?case using add_tx_entry [OF step_add(3,2)] entries_ok_insert by metis
next
  case (step_take i p r q)
  then show ?case
    by (auto simp: take_tx_def entries_ok_filter dest!: removeTransaction_frame split: option.splits sum.splits)
next
  case (step_fill V median limit p hs total_size fee q)
  then show ?case using fill_block_template_inv [OF step_fill(1)] entries_ok_same by blast
next
  case (step_expire now p r q)
  then show ?case by (auto simp: removeExpiredTransactions_def entries_ok_filter dest!: expire_loop_frame)
next
  case (step_idle now p q)
  then show ?case
    by (auto simp: on_idle_def removeExpiredTransactions_def entries_ok_filter dest!: expire_loop_frame
        split: if_splits sum.splits)
qed

text \<open>
  C22: in every reachable state each transaction of the pool spends only key and multisignature inputs, is
  listed with its fee, and pays the minimum fee unless it is a fusion transaction or came with a block; and
  the fee index is ordered by decreasing fee per byte, exactly as the rational numbers are.
\<close>

theorem pool_entries_pay:
  assumes "(pool_step cur)\<^sup>*\<^sup>* empty_pool p"
  shows "(\<forall>td \<in> set (m_transactions p). entry_ok cur td) \<and> sorted_wrt (\<lambda>a b. price b \<le> price a) (m_transactions p)"
proof -
  have ok: "entries_ok cur (m_transactions p)"
    using assms
  proof (induction rule: rtranclp_induct)
    case base
    then show ?case by (simp add: entries_ok_def empty_pool_def)
  next
    case (step y z)
    then show ?case by (blast intro: pool_step_entries)
  qed
  then have "\<forall>td \<in> set (m_transactions p). blobSize td \<noteq> 0" by (simp add: entries_ok_def entry_ok_def)
  from sorted_priority [OF this] ok have "sorted_wrt (\<lambda>a b. priority_key a \<le> priority_key b) (m_transactions p)"
    by (simp add: entries_ok_def sorted_map)
  then have "sorted_wrt (\<lambda>a b. price b \<le> price a) (m_transactions p)"
    by (rule sorted_wrt_mono_rel [rotated]) (auto simp: priority_key_def less_eq_prod_simp)
  then show ?thesis using ok by (simp add: entries_ok_def)
qed

theorem pool_entries_pay_witness:
  "\<exists>q. add_tx default_currency trusting 9
      \<lparr>tx_version = 1, unlockTime = 0, tx_inputs = [KeyInput 500 [1] [7]], tx_outputs = [], tx_extra = [], signatures = []\<rparr>
      [1] 300 False no_verdict empty_pool = Inr (True, no_verdict\<lparr>m_added_to_pool := True, m_should_be_relayed := True\<rparr>, q)
    \<and> m_transactions q \<noteq> [] \<and> entry_ok default_currency (hd (m_transactions q))"
proof -
  let ?tx = "\<lparr>tx_version = 1, unlockTime = 0, tx_inputs = [KeyInput 500 [1] [7]], tx_outputs = [], tx_extra = [], signatures = []\<rparr>"
  have "\<exists>q. add_tx default_currency trusting 9 ?tx [1] 300 False no_verdict empty_pool
      = Inr (True, no_verdict\<lparr>m_added_to_pool := True, m_should_be_relayed := True\<rparr>, q) \<and> m_transactions q \<noteq> []"
    by (simp add: add_tx_def check_inputs_types_supported_def get_inputs_money_amount_def get_outs_money_amount_def
        empty_pool_def have_tx_def haveSpentInputs_def pool_insert_def default_currency_def)
  then obtain q where q: "add_tx default_currency trusting 9 ?tx [1] 300 False no_verdict empty_pool
      = Inr (True, no_verdict\<lparr>m_added_to_pool := True, m_should_be_relayed := True\<rparr>, q)" "m_transactions q \<noteq> []" by blast
  have "(pool_step default_currency)\<^sup>*\<^sup>* empty_pool q"
    by (rule r_into_rtranclp) (rule step_add [OF _ _ q(1)], simp_all add: inputs_distinct_def)
  from pool_entries_pay [OF this] q show ?thesis by (auto intro!: exI [of _ q])
qed

text \<open>
  C34: \<open>add_tx\<close> never enters a payment id into the payment index of the pool, because it reads the
  transaction after the container has moved it away.
\<close>

theorem pool_payment_ids_lost:
  assumes "add_tx cur V now tx i sz kept tvc p = Inr (r, tvc', q)" "sz \<noteq> 0"
  shows "payment_find pid (m_paymentIdIndex q) = payment_find pid (m_paymentIdIndex p)"
  using add_tx_entry [OF assms] by simp

theorem pool_payment_ids_lost_witness:
  "\<exists>tvc q. add_tx default_currency trusting 9
      \<lparr>tx_version = 1, unlockTime = 0, tx_inputs = [KeyInput 500 [1] [7]], tx_outputs = [],
       tx_extra = [2, 33, 0] @ replicate 32 5, signatures = []\<rparr> [1] 300 False no_verdict empty_pool = Inr (True, tvc, q)
    \<and> getPaymentId \<lparr>tx_version = 1, unlockTime = 0, tx_inputs = [KeyInput 500 [1] [7]], tx_outputs = [],
       tx_extra = [2, 33, 0] @ replicate 32 5, signatures = []\<rparr> = Some (replicate 32 5)
    \<and> payment_find (replicate 32 5) (m_paymentIdIndex q) = (False, [])"
proof -
  let ?tx = "\<lparr>tx_version = 1, unlockTime = 0, tx_inputs = [KeyInput 500 [1] [7]], tx_outputs = [],
       tx_extra = [2, 33, 0] @ replicate 32 5, signatures = []\<rparr>"
  have "\<exists>tvc q. add_tx default_currency trusting 9 ?tx [1] 300 False no_verdict empty_pool = Inr (True, tvc, q)"
    by (simp add: add_tx_def check_inputs_types_supported_def get_inputs_money_amount_def get_outs_money_amount_def
        empty_pool_def have_tx_def haveSpentInputs_def pool_insert_def default_currency_def)
  then obtain tvc q where q: "add_tx default_currency trusting 9 ?tx [1] 300 False no_verdict empty_pool = Inr (True, tvc, q)"
    by blast
  have "payment_find (replicate 32 5) (m_paymentIdIndex q) = (False, [])"
    using pool_payment_ids_lost [OF q] by (simp add: empty_pool_def payment_find_def mm_equal_range_def)
  moreover have "getPaymentId ?tx = Some (replicate 32 5)" by code_simp
  ultimately show ?thesis using q by blast
qed

section \<open>The pool file\<close>

definition details_ok :: "transaction_details \<Rightarrow> bool" where
  "details_ok td \<longleftrightarrow> tx_ok (td_tx td) \<and> list_all (\<lambda>i. \<not> is_base i) (tx_inputs (td_tx td)) \<and> pod_ok (td_id td)
     \<and> pod_ok (bi_id (maxUsedBlock td)) \<and> pod_ok (bi_id (lastFailedBlock td))"

lemma read_bool_write [reader_simps]: "read_bool (write_bool b @ s) = Inr (b, s)"
  by (simp add: read_bool_def write_bool_def rbind_def rret_def)

lemma sr_details_write:
  assumes "details_ok td"
  shows "\<exists>w. sw_details td = Inr w \<and> (\<forall>s. sr_details (w @ s) = Inr (td, s))"
proof -
  obtain w where w: "sw_transaction (td_tx td) = Inr w" "\<And>s. sr_transaction (w @ s) = Inr (td_tx td, s)"
    using sr_transaction_write [of "td_tx td"] assms by (auto simp: details_ok_def)
  have "td = \<lparr>maxUsedBlock = \<lparr>bi_height = bi_height (maxUsedBlock td), bi_id = bi_id (maxUsedBlock td)\<rparr>,
      lastFailedBlock = \<lparr>bi_height = bi_height (lastFailedBlock td), bi_id = bi_id (lastFailedBlock td)\<rparr>,
      td_id = td_id td, td_tx = td_tx td, blobSize = blobSize td, td_fee = td_fee td, keptByBlock = keptByBlock td,
      receiveTime = receiveTime td\<rparr>" by simp
  then show ?thesis using assms w
    by (simp add: sw_details_def sr_details_def details_ok_def rbind_def rret_def reader_simps pod32.read_write)
qed

lemma sr_transactions_write:
  assumes "list_all details_ok tds" "distinct (map td_id (txs @ tds))"
    and "sorted_wrt (\<lambda>a b. \<not> priority_less b a) (txs @ tds)"
  shows "\<exists>w. sw_transactions tds = Inr w \<and> (\<forall>s. sr_transactions (length tds) txs (w @ s) = Inr (txs @ tds, s))"
  using assms
proof (induction tds arbitrary: txs)
  case (Cons td tds)
  obtain w where w: "sw_details td = Inr w" "\<And>s. sr_details (w @ s) = Inr (td, s)"
    using sr_details_write Cons.prems(1) by auto
  have "fee_insert td txs = txs @ [td]" if "\<forall>x \<in> set txs. \<not> priority_less td x"
    using that by (induction txs) simp_all
  then have ins: "pool_insert_read td txs = txs @ [td]"
    using Cons.prems(2,3) by (simp add: pool_insert_read_def sorted_wrt_append)
  obtain v where "sw_transactions tds = Inr v" "\<And>s. sr_transactions (length tds) (txs @ [td]) (v @ s) = Inr (txs @ td # tds, s)"
    using Cons.IH [of "txs @ [td]"] Cons.prems by auto
  then show ?case using w ins by simp
qed simp

lemma readMap_write_via:
  assumes "\<And>k x s. (k, x) \<in> set kvs \<Longrightarrow> rdk (wrk k @ s) = Inr (k, s) \<and> rdv (wrv x @ s) = Inr (g x, s)"
    and "distinct (map fst kvs)" "length kvs < 18446744073709551616"
  shows "readMap rdk rdv Map.empty (writeMap wrk wrv kvs @ s) = Inr (map_of (map (\<lambda>(k, x). (k, g x)) kvs), s)"
proof -
  have "readMap_loop rdk rdv (length kvs) m (concat (map (write_pair wrk wrv) kvs) @ s)
      = Inr (m ++ map_of (map (\<lambda>(k, x). (k, g x)) kvs), s)" if "\<forall>k \<in> fst ` set kvs. m k = None" for m
    using assms(1,2) that
  proof (induction kvs arbitrary: m)
    case (Cons p kvs)
    obtain k x where p: "p = (k, x)" by fastforce
    have rd: "read_pair rdk rdv (write_pair wrk wrv p @ t) = Inr ((k, g x), t)" for t
      using Cons.prems(1) [of k x] by (simp add: p write_pair_def read_pair_def)
    have "k \<notin> fst ` set kvs" using Cons.prems(2) p by simp
    then have none: "map_of (map (\<lambda>(k, x). (k, g x)) kvs) k = None" by (force simp: map_of_eq_None_iff)
    have e: "m ++ map_of (map (\<lambda>(k, x). (k, g x)) (p # kvs)) = m(k \<mapsto> g x) ++ map_of (map (\<lambda>(k, x). (k, g x)) kvs)"
      using none p by (auto simp: map_add_def fun_eq_iff split: option.splits)
    have none': "m k = None" "\<forall>l \<in> fst ` set kvs. (m(k \<mapsto> g x)) l = None" using Cons.prems p by auto
    have "readMap_loop rdk rdv (length kvs) (map_insert k (g x) m) (concat (map (write_pair wrk wrv) kvs) @ s)
        = Inr (m(k \<mapsto> g x) ++ map_of (map (\<lambda>(k, x). (k, g x)) kvs), s)"
      unfolding map_insert_def none'(1) if_P [OF refl] by (rule Cons.IH) (use Cons.prems none'(2) in auto)
    then show ?case unfolding e using rd by (simp add: p)
  qed simp
  from this [of Map.empty] show ?thesis using assms(3) by (simp add: readMap_def writeMap_def reader_simps)
qed

lemma readSet_write_pods:
  "list_all pod_ok hs \<Longrightarrow> length hs < 18446744073709551616 \<Longrightarrow> readSet (read_pod 32) {} (writeSet write_pod hs @ s) = Inr (set hs, s)"
  by (rule pod32.readSet_write)

text \<open>The order in which the writer walks the containers of a pool, and the sizes it can write.\<close>

definition walks :: "tx_pool \<Rightarrow> (key_image_t \<times> hash_t list) list \<Rightarrow> (u64 \<times> u64) list \<Rightarrow> (hash_t \<times> u64) list \<Rightarrow> bool" where
  "walks p kis outs del \<longleftrightarrow>
     map_of (map (\<lambda>(k, hs). (k, set hs)) kis) = m_spent_key_images p \<and> distinct (map fst kis)
     \<and> list_all (\<lambda>(k, hs). pod_ok k \<and> list_all pod_ok hs \<and> size_ok hs) kis \<and> size_ok kis
     \<and> set outs = m_spentOutputs p \<and> size_ok outs
     \<and> map_of del = m_recentlyDeletedTransactions p \<and> distinct (map fst del) \<and> list_all (\<lambda>d. pod_ok (fst d)) del \<and> size_ok del"

lemma sr_pool_write:
  assumes "list_all details_ok (m_transactions p)" "size_ok (m_transactions p)" "distinct (map td_id (m_transactions p))"
    and "sorted_wrt (\<lambda>a b. \<not> priority_less b a) (m_transactions p)" "walks p kis outs del"
  shows "\<exists>w. sw_pool (m_transactions p) kis outs del = Inr w
    \<and> (\<forall>s. sr_pool empty_pool (w @ s) = Inr (p\<lparr>m_paymentIdIndex := [], m_timestampIndex := [], m_lastWorkedTime := 0\<rparr>, s))"
proof -
  obtain w where w: "sw_transactions (m_transactions p) = Inr w"
    "\<And>s. sr_transactions (length (m_transactions p)) [] (w @ s) = Inr (m_transactions p, s)"
    using sr_transactions_write [of "m_transactions p" "[]"] assms(1,3,4) by auto
  have k: "readMap (read_pod 32) (readSet (read_pod 32) {}) Map.empty (writeMap write_pod (writeSet write_pod) kis @ s)
      = Inr (m_spent_key_images p, s)" for s
  proof -
    have "readMap (read_pod 32) (readSet (read_pod 32) {}) Map.empty (writeMap write_pod (writeSet write_pod) kis @ s)
        = Inr (map_of (map (\<lambda>(k, hs). (k, set hs)) kis), s)"
      by (rule readMap_write_via)
        (use assms(5) in \<open>auto simp: walks_def list_all_iff pod32.read_write intro!: readSet_write_pods\<close>)
    then show ?thesis using assms(5) by (simp add: walks_def)
  qed
  have o: "readSet (read_pair read_u64 read_u64) {} (writeSet (write_pair write_u64 write_u64) outs @ s) = Inr (m_spentOutputs p, s)" for s
    using codec.readSet_write [OF pair_codec [OF u64.codec_axioms u64.codec_axioms], of outs] assms(5) by (simp add: walks_def)
  have d: "readMap (read_pod 32) read_u64 Map.empty (writeMap write_pod write_u64 del @ s) = Inr (m_recentlyDeletedTransactions p, s)" for s
    using readMap_write [OF pod32.codec_axioms u64.codec_axioms, of del] assms(5) by (auto simp: walks_def list_all_iff)
  show ?thesis
    using w(1) assms(2)
    by (simp add: sw_pool_def sr_pool_def sr_pool_head_def rbind_def rret_def reader_simps w(2) k o d empty_pool_def)
qed

lemma buildIndices_inv:
  assumes "pool_inv p"
  shows "pool_inv (buildIndices (p\<lparr>m_paymentIdIndex := [], m_timestampIndex := [], m_lastWorkedTime := 0\<rparr>))"
proof -
  have "sorted (map fst (fold (\<lambda>td. timestamp_add (receiveTime td) (td_id td)) tds idx))
      \<and> mset (fold (\<lambda>td. timestamp_add (receiveTime td) (td_id td)) tds idx)
        = mset (map (\<lambda>td. (receiveTime td, td_id td)) tds) + mset idx" if "sorted (map fst idx)" for tds idx
    using that by (induction tds arbitrary: idx) (auto simp: timestamps.add_ok timestamps.add_mset)
  from this [of "[]" "m_transactions p"] show ?thesis
    using assms by (simp add: pool_inv_def buildIndices_def)
qed

text \<open>
  C23: a pool that keeps its books survives a restart: what \<open>deinit\<close> writes, in whatever order the hash
  tables are walked, \<open>init\<close> reads back with all transactions, spent inputs and deletions, builds the
  indices that keep the books, and then drops exactly the transactions that have expired.
\<close>

theorem pool_survives_restart:
  assumes "pool_inv p" "entries_ok cur (m_transactions p)" "\<forall>td \<in> set (m_transactions p). details_ok td"
    and "length (m_transactions p) < 2 ^ 64" "walks p kis outs del"
  shows "\<exists>blob r q. sw_pool (m_transactions p) kis outs del = Inr blob
    \<and> pool_init cur now (Some blob) empty_pool = Inr (r, q) \<and> pool_inv q
    \<and> m_transactions q = filter (\<lambda>td. \<not> expired cur now td) (m_transactions p)"
proof -
  define p' where "p' = p\<lparr>m_paymentIdIndex := [], m_timestampIndex := [], m_lastWorkedTime := 0\<rparr>"
  obtain blob where f: "sw_pool (m_transactions p) kis outs del = Inr blob" "\<And>s. sr_pool empty_pool (blob @ s) = Inr (p', s)"
    using sr_pool_write [of p kis outs del] assms by (auto simp: p'_def list_all_iff entries_ok_def pool_inv_def)
  have "pool_inv (buildIndices p')" unfolding p'_def by (rule buildIndices_inv [OF assms(1)])
  then obtain r q where "removeExpiredTransactions cur now (buildIndices p') = Inr (r, q)" "pool_inv q"
    "m_transactions q = filter (\<lambda>td. \<not> expired cur now td) (m_transactions (buildIndices p'))"
    using removeExpired_inv by blast
  moreover have "m_transactions (buildIndices p') = m_transactions p" by (simp add: buildIndices_def p'_def)
  ultimately show ?thesis using f(1) f(2) [of "[]"] by (simp add: pool_init_def)
qed

theorem pool_survives_restart_witness:
  "\<exists>blob r q. sw_pool [\<lparr>maxUsedBlock = block_info_clear, lastFailedBlock = block_info_clear, td_id = replicate 32 1,
         td_tx = \<lparr>tx_version = 1, unlockTime = 0, tx_inputs = [KeyInput 500 [1] (replicate 32 7)], tx_outputs = [],
           tx_extra = [], signatures = [[replicate 64 2]]\<rparr>,
         blobSize = 300, td_fee = 500, keptByBlock = False, receiveTime = 9\<rparr>]
      [(replicate 32 7, [replicate 32 1])] [] [] = Inr blob
    \<and> pool_init default_currency 10 (Some blob) empty_pool = Inr (r, q) \<and> length (m_transactions q) = 1"
proof -
  let ?td = "\<lparr>maxUsedBlock = block_info_clear, lastFailedBlock = block_info_clear, td_id = replicate 32 1,
         td_tx = \<lparr>tx_version = 1, unlockTime = 0, tx_inputs = [KeyInput 500 [1] (replicate 32 7)], tx_outputs = [],
           tx_extra = [], signatures = [[replicate 64 2]]\<rparr>,
         blobSize = 300, td_fee = 500, keptByBlock = False, receiveTime = 9\<rparr>"
  let ?p = "\<lparr>m_transactions = [?td], m_spent_key_images = [replicate 32 7 \<mapsto> {replicate 32 1}], m_spentOutputs = {},
    m_recentlyDeletedTransactions = Map.empty, m_paymentIdIndex = [], m_timestampIndex = [(9, replicate 32 1)],
    m_lastWorkedTime = 0\<rparr>"
  have "pool_inv ?p"
    by (simp add: pool_inv_def inputs_distinct_def no_conflict_def fun_eq_iff images_of_def spenders_insert outputs_of_insert)
  moreover have "entries_ok default_currency (m_transactions ?p)"
    by (simp add: entries_ok_def entry_ok_def check_inputs_types_supported_def get_inputs_money_amount_def
        get_outs_money_amount_def default_currency_def)
  moreover have "\<forall>td \<in> set (m_transactions ?p). details_ok td"
    by (simp add: details_ok_def tx_ok_def prefix_ok_def block_info_clear_def NULL_HASH_def)
  moreover have "length (m_transactions ?p) < 2 ^ 64" by simp
  moreover have "walks ?p [(replicate 32 7, [replicate 32 1])] [] []" by (simp add: walks_def fun_eq_iff)
  ultimately obtain blob r q where b: "sw_pool (m_transactions ?p) [(replicate 32 7, [replicate 32 1])] [] [] = Inr blob"
    "pool_init default_currency 10 (Some blob) empty_pool = Inr (r, q)"
    "m_transactions q = filter (\<lambda>td. \<not> expired default_currency 10 td) (m_transactions ?p)"
    using pool_survives_restart [of ?p default_currency _ _ _ 10] by blast
  moreover have "length (m_transactions q) = 1" unfolding b(3) by (simp add: expired_def default_currency_def)
  ultimately show ?thesis by auto
qed

end
