(* ===== verification/Checkpoints.thy ===== *)
theory Checkpoints
  imports TxTypes
begin

text \<open>
  The small tables a node consults about blocks: hexadecimal text (\<open>src/common/hex.cpp\<close>), in which the
  checkpoints are configured, the checkpoints (\<open>src/cryptonote/core/checkpoints.cpp\<close>) and the hard forks
  (\<open>src/cryptonote/core/hardfork.cpp\<close>). Text is a list of bytes.
\<close>

section \<open>Definitions\<close>

subsection \<open>Hexadecimal text\<close>

definition hex_convert :: "u8 \<Rightarrow> u8" where
  "hex_convert c =
     (if 48 \<le> c \<and> c \<le> 57 then c - 48 + 0
      else if 97 \<le> c \<and> c \<le> 102 then c - 97 + 10
      else if 65 \<le> c \<and> c \<le> 70 then c - 65 + 10
      else - 1)"

definition hex_from_char :: "u8 \<Rightarrow> u8 option" where
  "hex_from_char c = (let v = hex_convert c in if v = 255 then None else Some v)"

text \<open>The loop shared by the four functions: the bytes of the leading pairs, and whether the end was reached.\<close>

fun hex_pairs :: "bytes \<Rightarrow> bool \<times> bytes" where
  "hex_pairs (c1 # c2 # cs) =
     (case (hex_from_char c1, hex_from_char c2) of
        (Some v1, Some v2) \<Rightarrow> (let (ok, bs) = hex_pairs cs in (ok, (push_bit 4 v1 OR v2) # bs))
      | _ \<Rightarrow> (False, []))"
| "hex_pairs _ = (True, [])"

text \<open>\<open>from\<close> into a buffer of the given size: the bytes that were written from its start.\<close>

definition hex_from_buffer :: "bytes \<Rightarrow> nat \<Rightarrow> bool \<times> bytes" where
  "hex_from_buffer str bufferSize =
     (if odd (length str) then (False, [])
      else if bufferSize < length str div 2 then (False, [])
      else hex_pairs str)"

text \<open>The variant that throws.\<close>

definition hex_from :: "bytes \<Rightarrow> exn + bytes" where
  "hex_from str =
     (if odd (length str) then Inl InvalidStringSize
      else case hex_pairs str of (True, bs) \<Rightarrow> Inr bs | (False, _) \<Rightarrow> Inl InvalidCharacter)"

text \<open>The variant that appends to a vector, and leaves what it appended behind when it fails.\<close>

definition hex_append :: "bytes \<Rightarrow> bytes \<Rightarrow> bool \<times> bytes" where
  "hex_append str bs =
     (if odd (length str) then (False, bs) else let (ok, new) = hex_pairs str in (ok, bs @ new))"

text \<open>A plain value of the given size.\<close>

definition hex_podFrom :: "nat \<Rightarrow> bytes \<Rightarrow> bytes option" where
  "hex_podFrom n str =
     (case hex_from_buffer str n of
        (True, bs) \<Rightarrow> if length str div 2 = n then Some bs else None
      | (False, _) \<Rightarrow> None)"

definition hex_radix :: bytes where
  "hex_radix = [48, 49, 50, 51, 52, 53, 54, 55, 56, 57, 97, 98, 99, 100, 101, 102]"

fun hex_to :: "bytes \<Rightarrow> bytes" where
  "hex_to [] = []"
| "hex_to (b # bs) = hex_radix ! unat (drop_bit 4 b) # hex_radix ! unat (b AND 15) # hex_to bs"

subsection \<open>Checkpoints\<close>

text \<open>\<open>m_points\<close>: the entries of the \<open>std::map\<close> in the order of their heights.\<close>

type_synonym checkpoints = "(u32 \<times> hash_t) list"

definition checkpoints_add :: "u32 \<Rightarrow> bytes \<Rightarrow> checkpoints \<Rightarrow> bool \<times> checkpoints" where
  "checkpoints_add height hash_str points =
     (case hex_podFrom 32 hash_str of
        None \<Rightarrow> (False, points)
      | Some h \<Rightarrow>
          if map_of points height \<noteq> None then (False, points)
          else (True, insort_key fst (height, h) points))"

definition isCheckpoint :: "checkpoints \<Rightarrow> u32 \<Rightarrow> bool" where
  "isCheckpoint points height \<longleftrightarrow> points \<noteq> [] \<and> height \<le> fst (last points)"

text \<open>The result and \<open>is_a_checkpoint\<close>.\<close>

definition checkpoints_check :: "checkpoints \<Rightarrow> u32 \<Rightarrow> hash_t \<Rightarrow> bool \<times> bool" where
  "checkpoints_check points height h =
     (case map_of points height of None \<Rightarrow> (True, False) | Some p \<Rightarrow> (p = h, True))"

definition isAllowed :: "checkpoints \<Rightarrow> u32 \<Rightarrow> u32 \<Rightarrow> bool" where
  "isAllowed points blockchain_height block_height =
     (if block_height = 0 then False
      else
        let before = takeWhile (\<lambda>p. fst p \<le> blockchain_height) points
        in before = [] \<or> fst (last before) < block_height)"

subsection \<open>Hard forks\<close>

text \<open>\<open>hard_fork_t\<close>, of which only the version and the height are used.\<close>

record hard_fork =
  hf_version :: u8
  hf_height :: u64

fun major_loop :: "hard_fork list \<Rightarrow> u64 \<Rightarrow> u8 \<Rightarrow> u8" where
  "major_loop [] height version = version"
| "major_loop (f # fs) height version =
     (if height < hf_height f then version else major_loop fs height (hf_version f))"

definition getMajorVersion :: "hard_fork list \<Rightarrow> u64 \<Rightarrow> u8" where
  "getMajorVersion forks height = major_loop forks height 1"

definition getMinorVersion :: "hard_fork list \<Rightarrow> u64 \<Rightarrow> u8" where
  "getMinorVersion forks height = 0"

definition getCNVariant :: "'a block_header_scheme \<Rightarrow> u8" where
  "getCNVariant b = (if 7 \<le> majorVersion b then majorVersion b - 6 else 0)"

section \<open>Hexadecimal text is read back\<close>

definition lower :: "u8 \<Rightarrow> u8" where
  "lower c = (if 65 \<le> c \<and> c \<le> 70 then c + 32 else c)"

lemma all_u8: "(\<forall>c :: u8. P c) \<longleftrightarrow> list_all (\<lambda>i. P (word_of_int i)) [0..255]"
proof
  assume all: "list_all (\<lambda>i. P (word_of_int i)) [0..255]"
  show "\<forall>c :: u8. P c"
  proof
    fix c :: u8
    have "uint c \<in> set [0..255]" using uint_lt2p [of c] by simp
    with all have "P (word_of_int (uint c))" unfolding list_all_iff by (rule bspec)
    then show "P c" by (simp only: word_of_int_uint)
  qed
qed (simp add: list_all_iff)

lemma hex_char_table:
  "\<forall>c. case hex_from_char c of None \<Rightarrow> lower c \<notin> set hex_radix | Some v \<Rightarrow> v < 16 \<and> hex_radix ! unat v = lower c"
  unfolding all_u8 by code_simp

lemma hex_from_char_Some: "hex_from_char c = Some v \<Longrightarrow> v < 16 \<and> hex_radix ! unat v = lower c"
  using hex_char_table [THEN spec, of c] by simp

lemma hex_radix_back: "\<forall>v. v < 16 \<longrightarrow> hex_from_char (hex_radix ! unat v) = Some v \<and> lower (hex_radix ! unat v) = hex_radix ! unat v"
  unfolding all_u8 by code_simp

lemma lower_from_char: "\<forall>c. hex_from_char (lower c) = hex_from_char c"
  unfolding all_u8 by code_simp

lemma nibbles: "\<forall>b :: u8. drop_bit 4 b < 16 \<and> b AND 15 < 16 \<and> push_bit 4 (drop_bit 4 b) OR (b AND 15) = b"
  unfolding all_u8 by code_simp

lemma nibble_join:
  assumes "v1 < 16" and "v2 < (16 :: u8)"
  shows "drop_bit 4 (push_bit 4 v1 OR v2) = v1" and "(push_bit 4 v1 OR v2) AND 15 = v2"
proof -
  have hi: "bit v n \<Longrightarrow> n < 4" if "v < (16 :: u8)" for v n
  proof -
    have "v = take_bit 4 v"
      using that by (simp add: word_less_nat_alt word_unat_eq_iff unat_take_bit)
    then show "bit v n \<Longrightarrow> n < 4" by (metis bit_take_bit_iff)
  qed
  have m: "15 = (mask 4 :: u8)" by (simp add: mask_eq_exp_minus_1)
  show "(push_bit 4 v1 OR v2) AND 15 = v2"
    unfolding m using hi [OF assms(2)] by (intro bit_eqI) (auto simp: bit_simps)
  show "drop_bit 4 (push_bit 4 v1 OR v2) = v1"
    using hi [OF assms(1)] hi [OF assms(2)]
    by (intro bit_eqI) (auto simp: bit_simps)
qed

lemma hex_pairs_lower: "hex_pairs (map lower str) = hex_pairs str"
  by (induction str rule: hex_pairs.induct) (auto simp: lower_from_char split: option.splits)

lemma hex_pairs_to: "hex_pairs (hex_to bs) = (True, bs)"
  by (induction bs) (simp_all add: hex_radix_back nibbles)

lemma hex_to_pairs:
  assumes "hex_pairs str = (True, bs)" "even (length str)"
  shows "hex_to bs = map lower str"
  using assms
proof (induction str arbitrary: bs rule: hex_pairs.induct)
  case (1 c1 c2 cs)
  then obtain v1 v2 bs' where v: "hex_from_char c1 = Some v1" "hex_from_char c2 = Some v2"
    and bs: "hex_pairs cs = (True, bs')" "bs = (push_bit 4 v1 OR v2) # bs'"
    by (auto split: option.splits prod.splits)
  show ?case
    using 1 v [THEN hex_from_char_Some] v bs by (simp add: nibble_join del: drop_bit_or)
qed simp_all

lemma hex_to_even: "even (length (hex_to bs))"
  by (induction bs) simp_all

text \<open>Hexadecimal text in either case of letters is accepted exactly when it spells the bytes returned, in
  the lower case that is written.\<close>

lemma hex_exact: "hex_from str = Inr bs \<longleftrightarrow> map lower str = hex_to bs"
proof
  assume "hex_from str = Inr bs"
  then show "map lower str = hex_to bs"
    by (auto simp: hex_from_def hex_to_pairs split: if_splits prod.splits bool.splits)
next
  assume *: "map lower str = hex_to bs"
  then have "hex_pairs str = (True, bs)" by (metis hex_pairs_lower hex_pairs_to)
  moreover have "even (length str)" using * hex_to_even [of bs] by (metis length_map)
  ultimately show "hex_from str = Inr bs" by (simp add: hex_from_def)
qed

section \<open>Checkpoints\<close>

definition points_ok :: "checkpoints \<Rightarrow> bool" where
  "points_ok points \<longleftrightarrow> sorted (map fst points) \<and> distinct (map fst points)"

lemma points_ok_Nil [simp]: "points_ok []"
  by (simp add: points_ok_def)

lemma checkpoints_add_ok: "points_ok points \<Longrightarrow> points_ok (snd (checkpoints_add height str points))"
  by (auto simp: checkpoints_add_def points_ok_def map_of_eq_None_iff sorted_insort_key
        distinct_insort_key split: option.splits)

lemma sorted_le_last: "sorted (map f xs) \<Longrightarrow> x \<in> set xs \<Longrightarrow> f x \<le> f (last xs)"
  by (induction xs) auto

lemma takeWhile_sorted:
  "sorted (map f xs) \<Longrightarrow> takeWhile (\<lambda>x. f x \<le> b) xs = filter (\<lambda>x. f x \<le> b) xs"
  by (induction xs) (auto simp: filter_empty_conv eq_commute [of "[]"] dest: order_trans)

lemma isCheckpoint_iff:
  assumes "points_ok points"
  shows "isCheckpoint points height \<longleftrightarrow> (\<exists>p \<in> set points. height \<le> fst p)"
  using assms sorted_le_last [of fst points] order_trans
  by (fastforce simp: isCheckpoint_def points_ok_def)

lemma isAllowed_iff:
  assumes "points_ok points"
  shows "isAllowed points blockchain_height block_height \<longleftrightarrow>
    block_height \<noteq> 0 \<and> (\<forall>p \<in> set points. fst p \<le> blockchain_height \<longrightarrow> fst p < block_height)"
proof -
  let ?before = "takeWhile (\<lambda>p. fst p \<le> blockchain_height) points"
  have before: "set ?before = {p \<in> set points. fst p \<le> blockchain_height}"
    using assms by (auto simp: points_ok_def takeWhile_sorted)
  have le: "fst p \<le> fst (last ?before)" if "p \<in> set ?before" for p
    using assms that by (intro sorted_le_last) (simp_all add: points_ok_def sorted_filter takeWhile_sorted)
  have "?before = [] \<or> fst (last ?before) < block_height \<longleftrightarrow> (\<forall>p \<in> set ?before. fst p < block_height)"
    using le order_le_less_trans by (cases "?before = []") (fastforce simp del: takeWhile_eq_Nil_iff)+
  then show ?thesis by (auto simp: isAllowed_def Let_def before)
qed

end
