(* ===== verification/BlockIndex.thy ===== *)
theory BlockIndex
  imports FormatUtils TxStream Difficulty Checkpoints
begin

text \<open>
  The identity of a block (\<open>src/cryptonote/structures/block_entry.cpp\<close>) and the list of the identities of the
  main chain (\<open>src/cryptonote/core/blockchain/serializer/block_index.cpp\<close>), with the sparse chains by which two
  nodes find the last block they have in common.
\<close>

section \<open>Definitions\<close>

subsection \<open>Blocks\<close>

definition getBlob :: "block \<Rightarrow> exn + bytes" where
  "getBlob b =
     (case get_block_tree_hash b of
        Inl e \<Rightarrow> Inl e
      | Inr treeRootHash \<Rightarrow>
          Inr (ser_header b @ treeRootHash @ writeVarint (of_nat (length (transactionHashes b)) + 1 :: u64)))"

text \<open>\<open>objectHash\<close> of a byte array prefixes it with its length.\<close>

definition getHash :: "block \<Rightarrow> exn + hash_t" where
  "getHash b = (case getBlob b of Inl e \<Rightarrow> Inl e | Inr ba \<Rightarrow> Inr (cn_fast_hash (write_string ba)))"

text \<open>\<open>slow_hash\<close> stands for \<open>cn_slow_hash\<close> with its variant.\<close>

definition getLongHash :: "(bytes \<Rightarrow> u8 \<Rightarrow> hash_t) \<Rightarrow> block \<Rightarrow> exn + hash_t" where
  "getLongHash slow_hash b = (case getBlob b of Inl e \<Rightarrow> Inl e | Inr bd \<Rightarrow> Inr (slow_hash bd (getCNVariant b)))"

definition checkProofOfWork :: "(bytes \<Rightarrow> u8 \<Rightarrow> hash_t) \<Rightarrow> block \<Rightarrow> u64 \<Rightarrow> exn + bool" where
  "checkProofOfWork slow_hash b currentDiffic =
     (case getLongHash slow_hash b of Inl e \<Rightarrow> Inl e | Inr proofOfWork \<Rightarrow> Inr (check_hash proofOfWork currentDiffic))"

text \<open>The genesis block from its configured coinbase transaction and version; \<open>None\<close> is the exception.\<close>

definition genesis :: "bytes \<Rightarrow> u8 \<Rightarrow> u8 \<Rightarrow> block option" where
  "genesis genesis_coinbase_tx_hex major minor =
     (case hex_append genesis_coinbase_tx_hex [] of
        (False, _) \<Rightarrow> None
      | (True, minerTxBlob) \<Rightarrow>
          (case tx_from_bytes minerTxBlob of
             None \<Rightarrow> None
           | Some tx \<Rightarrow> Some \<lparr>majorVersion = major, minorVersion = minor, nonce = 70, timestamp = 0,
                             previousBlockHash = NULL_HASH, baseTransaction = tx, transactionHashes = []\<rparr>))"

subsection \<open>The block index\<close>

text \<open>\<open>m_container\<close>, a random access sequence without repetitions.\<close>

type_synonym block_index = "hash_t list"

definition bi_push :: "hash_t \<Rightarrow> block_index \<Rightarrow> bool \<times> block_index" where
  "bi_push h c = (if h \<in> set c then (False, c) else (True, c @ [h]))"

definition bi_pop :: "block_index \<Rightarrow> exn + block_index" where
  "bi_pop c = (if c = [] then Inl OutOfRange else Inr (butlast c))"

definition hasBlock :: "hash_t \<Rightarrow> block_index \<Rightarrow> bool" where
  "hasBlock h c \<longleftrightarrow> h \<in> set c"

definition position :: "'a \<Rightarrow> 'a list \<Rightarrow> nat" where
  "position x xs = length (takeWhile (\<lambda>y. y \<noteq> x) xs)"

definition getBlockHeight :: "hash_t \<Rightarrow> block_index \<Rightarrow> u32 option" where
  "getBlockHeight h c = (if hasBlock h c then Some (of_nat (position h c)) else None)"

definition bi_size :: "block_index \<Rightarrow> u32" where
  "bi_size c = of_nat (length c)"

definition getBlockId :: "u32 \<Rightarrow> block_index \<Rightarrow> exn + hash_t" where
  "getBlockId height c = (if unat height < length c then Inr (c ! unat height) else Inl AssertFailed)"

definition getBlockIds :: "u32 \<Rightarrow> u32 \<Rightarrow> block_index \<Rightarrow> hash_t list" where
  "getBlockIds startBlockIndex maxCount c =
     (if length c \<le> unat startBlockIndex then []
      else
        let count = min (unat maxCount) (length c - unat startBlockIndex)
        in map (\<lambda>i. c ! (unat startBlockIndex + i)) [0..<count])"

fun findSupplement :: "hash_t list \<Rightarrow> block_index \<Rightarrow> u32 option" where
  "findSupplement [] c = None"
| "findSupplement (h # ids) c =
     (case getBlockHeight h c of Some offset \<Rightarrow> Some offset | None \<Rightarrow> findSupplement ids c)"

text \<open>The loop for \<open>i = 1, 2, 4, \<dots>\<close>; the numbers stay below \<open>2\<^sup>3\<^sup>3\<close>.\<close>

function sparse_loop :: "'a list \<Rightarrow> nat \<Rightarrow> nat \<Rightarrow> 'a list" where
  "sparse_loop c sparseChainEnd i =
     (if 0 < i \<and> i \<le> sparseChainEnd then c ! (sparseChainEnd - i) # sparse_loop c sparseChainEnd (2 * i) else [])"
  by pat_completeness auto
termination by (relation "measure (\<lambda>(_, n, i). Suc n - i)") auto

definition bi_buildSparseChain :: "hash_t \<Rightarrow> block_index \<Rightarrow> exn + hash_t list" where
  "bi_buildSparseChain startBlockId c =
     (case getBlockHeight startBlockId c of
        None \<Rightarrow> Inl AssertFailed
      | Some startBlockHeight \<Rightarrow>
          let sparseChainEnd = unat (startBlockHeight + 1);
              result = sparse_loop c sparseChainEnd 1
          in if result = [] then Inl OutOfRange
             else Inr (if last result \<noteq> c ! 0 then result @ [c ! 0] else result))"

definition bi_getTailId :: "block_index \<Rightarrow> exn + hash_t" where
  "bi_getTailId c = (if c = [] then Inl AssertFailed else Inr (last c))"

text \<open>The stream operators: reading appends to the container.\<close>

fun bi_append :: "hash_t list \<Rightarrow> block_index \<Rightarrow> block_index" where
  "bi_append [] c = c"
| "bi_append (h # hs) c = bi_append hs (snd (bi_push h c))"

definition sw_block_index :: "block_index \<Rightarrow> bytes" where
  "sw_block_index c = write_vector write_pod c"

definition sr_block_index :: "block_index \<Rightarrow> block_index reader" where
  "sr_block_index c s =
     (case read_vector (read_pod 32) s of Inl e \<Rightarrow> Inl e | Inr (hs, s) \<Rightarrow> Inr (bi_append hs c, s))"

declare sparse_loop.simps [simp del]

section \<open>Positions\<close>

lemma position_less [simp]: "x \<in> set xs \<Longrightarrow> position x xs < length xs"
  by (induction xs) (auto simp: position_def)

lemma nth_position [simp]: "x \<in> set xs \<Longrightarrow> xs ! position x xs = x"
  by (induction xs) (auto simp: position_def)

lemma position_nth:
  assumes "distinct xs" and "i < length xs"
  shows "position (xs ! i) xs = i"
  using nth_eq_iff_index_eq [of xs "position (xs ! i) xs" i] assms by simp

lemma position_append [simp]: "x \<in> set xs \<Longrightarrow> position x (xs @ ys) = position x xs"
  by (induction xs) (auto simp: position_def)

lemma getBlockHeight_iff:
  assumes "distinct c" and "length c \<le> 4294967296"
  shows "getBlockHeight h c = Some height \<longleftrightarrow> unat height < length c \<and> c ! unat height = h"
proof -
  have u: "unat (of_nat (position h c) :: u32) = position h c" if "h \<in> set c"
    using position_less [OF that] assms(2) by (simp add: unat_of_nat)
  show ?thesis
  proof (cases "h \<in> set c")
    case True
    then have "getBlockHeight h c = Some height \<longleftrightarrow> unat height = position h c"
      using u by (auto simp: getBlockHeight_def hasBlock_def word_unat_eq_iff)
    then show ?thesis using True position_nth [OF assms(1), of "unat height"] by auto
  next
    case False
    then show ?thesis by (auto simp: getBlockHeight_def hasBlock_def)
  qed
qed

lemma bi_push_distinct: "distinct c \<Longrightarrow> distinct (snd (bi_push h c))"
  by (simp add: bi_push_def)

section \<open>Finding the last common block\<close>

lemma findSupplement_append:
  "findSupplement (xs @ ys) c = (case findSupplement xs c of Some s \<Rightarrow> Some s | None \<Rightarrow> findSupplement ys c)"
  by (induction xs) (simp_all split: option.splits)

lemma findSupplement_None: "findSupplement xs c = None \<longleftrightarrow> set xs \<inter> set c = {}"
  by (induction xs) (auto simp: getBlockHeight_def hasBlock_def)

text \<open>Two chains that share their first \<open>k\<close> blocks and nothing behind them.\<close>

definition forked :: "nat \<Rightarrow> block_index \<Rightarrow> block_index \<Rightarrow> bool" where
  "forked k c1 c2 \<longleftrightarrow> distinct c1 \<and> distinct c2 \<and> length c1 < 4294967296 \<and> length c2 < 4294967296
     \<and> 0 < k \<and> k \<le> length c1 \<and> k \<le> length c2 \<and> take k c1 = take k c2 \<and> set (drop k c1) \<inter> set c2 = {}"

lemma forked_common:
  assumes "forked k c1 c2" and "j < k"
  shows "getBlockHeight (c1 ! j) c2 = Some (of_nat j)" and "unat (of_nat j :: u32) = j"
proof -
  have j: "c1 ! j = c2 ! j" "j < length c2" "j < 4294967296"
    using assms nth_take [of j k c1] nth_take [of j k c2] by (auto simp: forked_def)
  then show u: "unat (of_nat j :: u32) = j" by (simp add: unat_of_nat)
  show "getBlockHeight (c1 ! j) c2 = Some (of_nat j)"
    using assms j u getBlockHeight_iff [of c2 "c1 ! j" "of_nat j"] by (simp add: forked_def)
qed

lemma forked_apart:
  assumes "forked k c1 c2" and "k \<le> j" and "j < length c1"
  shows "getBlockHeight (c1 ! j) c2 = None"
proof -
  have "drop k c1 ! (j - k) \<in> set (drop k c1)" using assms by (intro nth_mem) simp
  then show ?thesis using assms by (auto simp: forked_def getBlockHeight_def hasBlock_def)
qed

lemma sparse_supplement:
  assumes "forked k c1 c2" and "n \<le> length c1" and "0 < i" and "i = 1 \<or> i \<le> 2 * (n - k)"
    and "findSupplement (sparse_loop c1 n i) c2 = Some s"
  shows "unat s < k \<and> unat s < n \<and> n - unat s \<le> max 1 (2 * (n - k))"
  using assms
proof (induction c1 n i rule: sparse_loop.induct)
  case (1 c1 n i)
  have i: "i \<le> n" using 1(6) by (auto simp: sparse_loop.simps [of c1 n i] split: if_splits)
  show ?case
  proof (cases "n - i < k")
    case True
    then have "s = of_nat (n - i)" "unat s = n - i"
      using 1(6) i 1(4) forked_common [OF 1(2) True] by (auto simp: sparse_loop.simps [of c1 n i])
    then show ?thesis using True 1(4,5) i by auto
  next
    case False
    then have "findSupplement (sparse_loop c1 n (2 * i)) c2 = Some s"
      using 1(6) i 1(3,4) forked_apart [OF 1(2), of "n - i"] by (auto simp: sparse_loop.simps [of c1 n i])
    then show ?thesis using False 1(1) [OF _ 1(2)] 1(3,4) i by simp
  qed
qed

lemma sparse_length:
  "0 < i \<Longrightarrow> sparse_loop c n i \<noteq> [] \<Longrightarrow> 2 ^ (length (sparse_loop c n i) - 1) * i \<le> n"
proof (induction c n i rule: sparse_loop.induct)
  case (1 c n i)
  have i: "i \<le> n" using 1(3) by (auto simp: sparse_loop.simps [of c n i] split: if_splits)
  show ?case
  proof (cases "sparse_loop c n (2 * i) = []")
    case False
    then have "2 ^ (length (sparse_loop c n (2 * i)) - 1) * (2 * i) \<le> n" using 1(1,2) i by simp
    then show ?thesis using False 1(2) i
      by (cases "sparse_loop c n (2 * i)") (simp_all add: sparse_loop.simps [of c n i])
  qed (use i 1(2) in \<open>simp add: sparse_loop.simps [of c n i]\<close>)
qed

lemma sparse_loop_set: "0 < i \<Longrightarrow> n \<le> length c \<Longrightarrow> set (sparse_loop c n i) \<subseteq> set c"
proof (induction c n i rule: sparse_loop.induct)
  case (1 c n i)
  then show ?case by (auto simp: sparse_loop.simps [of c n i])
qed

lemma sparse_start: "sparse_loop c (Suc h) (Suc 0) = c ! h # sparse_loop c (Suc h) 2"
  by (subst sparse_loop.simps) simp

lemma buildSparseChain_at:
  assumes "distinct c" and "length c < 4294967296" and "h < length c"
  shows "\<exists>r. sparse_loop c (h + 1) 1 = r \<and> r \<noteq> []
    \<and> bi_buildSparseChain (c ! h) c = Inr (if last r \<noteq> c ! 0 then r @ [c ! 0] else r)"
proof -
  have u: "unat (of_nat h :: u32) = h" using assms by (simp add: unat_of_nat)
  have h: "getBlockHeight (c ! h) c = Some (of_nat h)"
    using assms u getBlockHeight_iff [of c "c ! h" "of_nat h"] by simp
  have "unat (of_nat h + 1 :: u32) = h + 1"
    using assms u by (simp add: unat_word_ariths)
  moreover have "sparse_loop c (h + 1) 1 \<noteq> []" by (simp add: sparse_start)
  ultimately show ?thesis by (simp add: bi_buildSparseChain_def h)
qed



end
