(* ===== verification/Ledger.thy ===== *)
theory Ledger
  imports TxPool BlockIndex
begin

text \<open>
  The state of \<open>Blockchain\<close> (\<open>src/cryptonote/core/blockchain.h\<close>) and how a transaction enters and leaves it:
  \<open>pushTransaction\<close>, \<open>popTransaction\<close>, \<open>popTransactions\<close> and \<open>rebuildCache\<close> of \<open>blockchain.cpp\<close>. The containers
  of blocks and of transactions are lists and maps; the sparse hash containers keep the checks they make of
  their keys.
\<close>

section \<open>Definitions\<close>

record blockchain =
  m_blocks :: "block_entry list"
  m_blockIndex :: block_index
  m_transactionMap :: "hash_t \<rightharpoonup> transaction_index"
  m_spent_keys :: "key_image_t set"
  m_outputs :: "u64 \<rightharpoonup> (transaction_index \<times> u16) list"
  m_multisignatureOutputs :: "u64 \<rightharpoonup> multisignature_output_usage list"
  m_alternative_chains :: "hash_t \<rightharpoonup> block_entry"
  bc_paymentIdIndex :: payment_index
  bc_timestampIndex :: timestamp_index
  bc_generatedIndex :: generated_index
  bc_orphanIndex :: orphan_index
  bc_checkpoints :: checkpoints
  m_current_block_cumul_sz_limit :: u64
  m_is_in_checkpoint_zone :: bool

text \<open>\<open>Blockchain::Blockchain\<close>.\<close>

definition blockchain_new :: blockchain where
  "blockchain_new = \<lparr>m_blocks = [], m_blockIndex = [], m_transactionMap = Map.empty, m_spent_keys = {},
     m_outputs = Map.empty, m_multisignatureOutputs = Map.empty, m_alternative_chains = Map.empty,
     bc_paymentIdIndex = [], bc_timestampIndex = [], bc_generatedIndex = generated_new, bc_orphanIndex = [],
     bc_checkpoints = [], m_current_block_cumul_sz_limit = 0, m_is_in_checkpoint_zone = False\<rparr>"

text \<open>\<open>operator[]\<close> of a map of vectors.\<close>

definition vector_at :: "('k \<rightharpoonup> 'v list) \<Rightarrow> 'k \<Rightarrow> 'v list" where
  "vector_at m k = (case m k of None \<Rightarrow> [] | Some v \<Rightarrow> v)"

text \<open>The key that the containers reserve for deleted entries, set by the constructor of \<open>Blockchain\<close>.\<close>

definition deleted_image :: key_image_t where
  "deleted_image = replicate 32 0"

text \<open>\<open>m_spent_keys.insert\<close> and \<open>m_spent_keys.erase\<close>, which assert that the key is not the reserved one.\<close>

definition insert_spent :: "key_image_t \<Rightarrow> key_image_t set \<Rightarrow> exn + bool \<times> key_image_t set" where
  "insert_spent img spent =
     (if img = deleted_image then Inl AssertFailed else Inr (img \<notin> spent, insert img spent))"

definition erase_spent :: "key_image_t \<Rightarrow> key_image_t set \<Rightarrow> exn + key_image_t set" where
  "erase_spent img spent = (if img = deleted_image then Inl AssertFailed else Inr (spent - {img}))"

subsection \<open>Adding a transaction\<close>

text \<open>
  The roll-back of the first input loop takes every earlier input, the last first, to be a key input.
  \<open>OutOfRange\<close> stands for \<open>boost::bad_get\<close>.
\<close>

fun unspend_keys :: "transaction_input list \<Rightarrow> key_image_t set \<Rightarrow> exn + key_image_t set" where
  "unspend_keys [] spent = Inr spent"
| "unspend_keys (KeyInput _ _ img # earlier) spent =
     (case erase_spent img spent of Inl e \<Rightarrow> Inl e | Inr spent \<Rightarrow> unspend_keys earlier spent)"
| "unspend_keys (_ # earlier) spent = Inl OutOfRange"

fun spend_keys ::
  "transaction_input list \<Rightarrow> transaction_input list \<Rightarrow> key_image_t set \<Rightarrow> exn + bool \<times> key_image_t set" where
  "spend_keys earlier [] spent = Inr (True, spent)"
| "spend_keys earlier (inp # ins) spent =
     (case inp of
        KeyInput _ _ img \<Rightarrow>
          (case insert_spent img spent of
             Inl e \<Rightarrow> Inl e
           | Inr (True, spent) \<Rightarrow> spend_keys (inp # earlier) ins spent
           | Inr (False, spent) \<Rightarrow>
               (case unspend_keys earlier spent of Inl e \<Rightarrow> Inl e | Inr spent \<Rightarrow> Inr (False, spent)))
      | _ \<Rightarrow> spend_keys (inp # earlier) ins spent)"

text \<open>\<open>m_multisignatureOutputs[amount][index].isUsed = used\<close>; an index past the end is undefined behaviour.\<close>

definition set_used ::
  "u64 \<Rightarrow> u32 \<Rightarrow> bool \<Rightarrow> (u64 \<rightharpoonup> multisignature_output_usage list)
   \<Rightarrow> exn + (u64 \<rightharpoonup> multisignature_output_usage list)" where
  "set_used amount i used m =
     (let amountOutputs = vector_at m amount
      in if unat i < length amountOutputs
         then Inr (m(amount \<mapsto> amountOutputs[unat i := (amountOutputs ! unat i)\<lparr>mou_isUsed := used\<rparr>]))
         else Inl OutOfRange)"

fun use_outputs ::
  "transaction_input list \<Rightarrow> (u64 \<rightharpoonup> multisignature_output_usage list)
   \<Rightarrow> exn + (u64 \<rightharpoonup> multisignature_output_usage list)" where
  "use_outputs [] m = Inr m"
| "use_outputs (inp # ins) m =
     (case inp of
        MultisigInput amount _ i \<Rightarrow> (case set_used amount i True m of Inl e \<Rightarrow> Inl e | Inr m \<Rightarrow> use_outputs ins m)
      | _ \<Rightarrow> use_outputs ins m)"

text \<open>
  The output loop: the global indexes and the containers. \<open>m_outputs\<close> reserves the amount zero. The counter
  of the loop has 16 bits.
\<close>

type_synonym output_maps =
  "(u64 \<rightharpoonup> (transaction_index \<times> u16) list) \<times> (u64 \<rightharpoonup> multisignature_output_usage list)"

fun push_outputs :: "transaction_index \<Rightarrow> u16 \<Rightarrow> transaction_output list \<Rightarrow> output_maps \<Rightarrow> exn + u32 list \<times> output_maps" where
  "push_outputs transactionIndex i [] maps = Inr ([], maps)"
| "push_outputs transactionIndex i (out # outs) (keys, multis) =
     (case out_target out of
        KeyOutput _ \<Rightarrow>
          let amountOutputs = vector_at keys (out_amount out)
          in if out_amount out = 0 then Inl AssertFailed
             else
               (case push_outputs transactionIndex (i + 1) outs
                   (keys(out_amount out \<mapsto> amountOutputs @ [(transactionIndex, i)]), multis) of
                  Inl e \<Rightarrow> Inl e
                | Inr (indexes, maps) \<Rightarrow> Inr (of_nat (length amountOutputs) # indexes, maps))
      | MultisigOutput _ _ \<Rightarrow>
          let amountOutputs = vector_at multis (out_amount out);
              outputUsage = \<lparr>mou_transactionIndex = transactionIndex, mou_outputIndex = i, mou_isUsed = False\<rparr>
          in case push_outputs transactionIndex (i + 1) outs
                 (keys, multis(out_amount out \<mapsto> amountOutputs @ [outputUsage])) of
               Inl e \<Rightarrow> Inl e
             | Inr (indexes, maps) \<Rightarrow> Inr (of_nat (length amountOutputs) # indexes, maps))"

definition add_outputs :: "transaction_index \<Rightarrow> transaction_output list \<Rightarrow> output_maps \<Rightarrow> exn + u32 list \<times> output_maps" where
  "add_outputs transactionIndex outs maps =
     (if 65536 \<le> length outs then Inl DoesNotReturn else push_outputs transactionIndex 0 outs maps)"

text \<open>
  \<open>pushTransaction\<close>: the result, the block entry with the global indexes filled in, and the state. The entry of
  the transaction is \<open>block.transactions[transactionIndex.transaction]\<close>.
\<close>

definition pushTransaction ::
  "block_entry \<Rightarrow> hash_t \<Rightarrow> transaction_index \<Rightarrow> blockchain \<Rightarrow> exn + bool \<times> block_entry \<times> blockchain" where
  "pushTransaction be transactionHash transactionIndex s =
     (let n = unat (ti_transaction transactionIndex);
          entry = be_transactions be ! n;
          tx = te_tx entry
      in if m_transactionMap s transactionHash \<noteq> None then Inr (False, be, s)
         else if length (be_transactions be) \<le> n then Inl OutOfRange
         else if \<not> checkMultisignatureInputsDiff tx then Inr (False, be, s)
         else
           case spend_keys [] (tx_inputs tx) (m_spent_keys s) of
             Inl e \<Rightarrow> Inl e
           | Inr (False, spent) \<Rightarrow> Inr (False, be, s\<lparr>m_spent_keys := spent\<rparr>)
           | Inr (True, spent) \<Rightarrow>
               (case use_outputs (tx_inputs tx) (m_multisignatureOutputs s) of
                  Inl e \<Rightarrow> Inl e
                | Inr multis \<Rightarrow>
                    (case add_outputs transactionIndex (tx_outputs tx) (m_outputs s, multis) of
                       Inl e \<Rightarrow> Inl e
                     | Inr (indexes, keys, multis) \<Rightarrow>
                         Inr (True,
                           be\<lparr>be_transactions := (be_transactions be)[n := entry\<lparr>m_global_output_indexes := indexes\<rparr>]\<rparr>,
                           s\<lparr>m_transactionMap := (m_transactionMap s)(transactionHash \<mapsto> transactionIndex),
                             m_spent_keys := spent, m_outputs := keys, m_multisignatureOutputs := multis,
                             bc_paymentIdIndex := snd (payment_add tx (bc_paymentIdIndex s))\<rparr>))))"

subsection \<open>Removing a transaction\<close>

text \<open>
  One round of the output loop: an output that is not where the transaction put it is skipped. The entry that
  becomes empty is erased, which \<open>m_multisignatureOutputs\<close> does not allow: no key of it is reserved.
\<close>

definition pop_key_output ::
  "transaction_index \<Rightarrow> nat \<Rightarrow> u64 \<Rightarrow> (u64 \<rightharpoonup> (transaction_index \<times> u16) list)
   \<Rightarrow> (u64 \<rightharpoonup> (transaction_index \<times> u16) list)" where
  "pop_key_output transactionIndex i amount keys =
     (case keys amount of
        None \<Rightarrow> keys
      | Some amountOutputs \<Rightarrow>
          if amountOutputs = [] then keys
          else if fst (last amountOutputs) \<noteq> transactionIndex then keys
          else if unat (snd (last amountOutputs)) \<noteq> i then keys
          else keys(amount := if butlast amountOutputs = [] then None else Some (butlast amountOutputs)))"

definition pop_multisig_output ::
  "transaction_index \<Rightarrow> nat \<Rightarrow> u64 \<Rightarrow> (u64 \<rightharpoonup> multisignature_output_usage list)
   \<Rightarrow> exn + (u64 \<rightharpoonup> multisignature_output_usage list)" where
  "pop_multisig_output transactionIndex i amount multis =
     (case multis amount of
        None \<Rightarrow> Inr multis
      | Some amountOutputs \<Rightarrow>
          if amountOutputs = [] then Inr multis
          else if mou_isUsed (last amountOutputs) then Inr multis
          else if mou_transactionIndex (last amountOutputs) \<noteq> transactionIndex then Inr multis
          else if unat (mou_outputIndex (last amountOutputs)) \<noteq> i then Inr multis
          else if butlast amountOutputs = [] then Inl AssertFailed
          else Inr (multis(amount \<mapsto> butlast amountOutputs)))"

text \<open>The loop over the outputs from the last to the first.\<close>

fun pop_outputs :: "transaction_index \<Rightarrow> transaction_output list \<Rightarrow> output_maps \<Rightarrow> exn + output_maps" where
  "pop_outputs transactionIndex [] maps = Inr maps"
| "pop_outputs transactionIndex (out # earlier) (keys, multis) =
     (case out_target out of
        KeyOutput _ \<Rightarrow>
          pop_outputs transactionIndex earlier
            (pop_key_output transactionIndex (length earlier) (out_amount out) keys, multis)
      | MultisigOutput _ _ \<Rightarrow>
          (case pop_multisig_output transactionIndex (length earlier) (out_amount out) multis of
             Inl e \<Rightarrow> Inl e
           | Inr multis \<Rightarrow> pop_outputs transactionIndex earlier (keys, multis)))"

fun pop_inputs ::
  "transaction_input list \<Rightarrow> key_image_t set \<Rightarrow> (u64 \<rightharpoonup> multisignature_output_usage list)
   \<Rightarrow> exn + key_image_t set \<times> (u64 \<rightharpoonup> multisignature_output_usage list)" where
  "pop_inputs [] spent multis = Inr (spent, multis)"
| "pop_inputs (inp # ins) spent multis =
     (case inp of
        BaseInput _ \<Rightarrow> pop_inputs ins spent multis
      | KeyInput _ _ img \<Rightarrow>
          (case erase_spent img spent of Inl e \<Rightarrow> Inl e | Inr spent \<Rightarrow> pop_inputs ins spent multis)
      | MultisigInput amount _ i \<Rightarrow>
          (case set_used amount i False multis of Inl e \<Rightarrow> Inl e | Inr multis \<Rightarrow> pop_inputs ins spent multis))"

text \<open>\<open>m_transactionMap.at\<close> throws \<open>std::out_of_range\<close>.\<close>

definition popTransaction :: "transaction \<Rightarrow> hash_t \<Rightarrow> blockchain \<Rightarrow> exn + blockchain" where
  "popTransaction tx transactionHash s =
     (case m_transactionMap s transactionHash of
        None \<Rightarrow> Inl OutOfRange
      | Some transactionIndex \<Rightarrow>
          (case pop_outputs transactionIndex (rev (tx_outputs tx)) (m_outputs s, m_multisignatureOutputs s) of
             Inl e \<Rightarrow> Inl e
           | Inr (keys, multis) \<Rightarrow>
               (case pop_inputs (tx_inputs tx) (m_spent_keys s) multis of
                  Inl e \<Rightarrow> Inl e
                | Inr (spent, multis) \<Rightarrow>
                    Inr (s\<lparr>m_outputs := keys, m_multisignatureOutputs := multis, m_spent_keys := spent,
                           bc_paymentIdIndex := snd (payment_remove tx (bc_paymentIdIndex s)),
                           m_transactionMap := (m_transactionMap s)(transactionHash := None)\<rparr>))))"

text \<open>The transactions of a block behind its base transaction, with their hashes, from the last to the first.\<close>

fun pop_each :: "(transaction \<times> hash_t) list \<Rightarrow> blockchain \<Rightarrow> exn + blockchain" where
  "pop_each [] s = Inr s"
| "pop_each ((tx, h) # txs) s = (case popTransaction tx h s of Inl e \<Rightarrow> Inl e | Inr s \<Rightarrow> pop_each txs s)"

definition popTransactions :: "block_entry \<Rightarrow> hash_t \<Rightarrow> blockchain \<Rightarrow> exn + blockchain" where
  "popTransactions be minerTransactionHash s =
     (let txs = map te_tx (tl (be_transactions be))
      in if be_transactions be = [] \<or> length (transactionHashes (be_bl be)) < length txs then Inl OutOfRange
         else
           case pop_each (rev (zip txs (transactionHashes (be_bl be)))) s of
             Inl e \<Rightarrow> Inl e
           | Inr s \<Rightarrow> popTransaction (baseTransaction (be_bl be)) minerTransactionHash s)"

subsection \<open>Rebuilding the caches\<close>

fun rebuild_inputs ::
  "transaction_input list \<Rightarrow> key_image_t set \<Rightarrow> (u64 \<rightharpoonup> multisignature_output_usage list)
   \<Rightarrow> exn + key_image_t set \<times> (u64 \<rightharpoonup> multisignature_output_usage list)" where
  "rebuild_inputs [] spent multis = Inr (spent, multis)"
| "rebuild_inputs (inp # ins) spent multis =
     (case inp of
        BaseInput _ \<Rightarrow> rebuild_inputs ins spent multis
      | KeyInput _ _ img \<Rightarrow>
          (case insert_spent img spent of Inl e \<Rightarrow> Inl e | Inr (_, spent) \<Rightarrow> rebuild_inputs ins spent multis)
      | MultisigInput amount _ i \<Rightarrow>
          (case set_used amount i True multis of Inl e \<Rightarrow> Inl e | Inr multis \<Rightarrow> rebuild_inputs ins spent multis))"

definition rebuild_transaction :: "transaction_index \<Rightarrow> transaction \<Rightarrow> blockchain \<Rightarrow> exn + blockchain" where
  "rebuild_transaction transactionIndex tx s =
     (case rebuild_inputs (tx_inputs tx) (m_spent_keys s) (m_multisignatureOutputs s) of
        Inl e \<Rightarrow> Inl e
      | Inr (spent, multis) \<Rightarrow>
          (case add_outputs transactionIndex (tx_outputs tx) (m_outputs s, multis) of
             Inl e \<Rightarrow> Inl e
           | Inr (_, keys, multis) \<Rightarrow>
               Inr (s\<lparr>m_transactionMap := map_insert (tx_hash tx) transactionIndex (m_transactionMap s),
                      m_spent_keys := spent, m_outputs := keys, m_multisignatureOutputs := multis\<rparr>)))"

fun rebuild_transactions :: "u32 \<Rightarrow> u16 \<Rightarrow> transaction list \<Rightarrow> blockchain \<Rightarrow> exn + blockchain" where
  "rebuild_transactions b t [] s = Inr s"
| "rebuild_transactions b t (tx # txs) s =
     (case rebuild_transaction \<lparr>ti_block = b, ti_transaction = t\<rparr> tx s of
        Inl e \<Rightarrow> Inl e
      | Inr s \<Rightarrow> rebuild_transactions b (t + 1) txs s)"

definition rebuild_block :: "u32 \<Rightarrow> block_entry \<Rightarrow> blockchain \<Rightarrow> exn + blockchain" where
  "rebuild_block b be s =
     (case getHash (be_bl be) of
        Inl e \<Rightarrow> Inl e
      | Inr blockHash \<Rightarrow>
          if 65536 \<le> length (be_transactions be) then Inl DoesNotReturn
          else
            rebuild_transactions b 0 (map te_tx (be_transactions be))
              (s\<lparr>m_blockIndex := snd (bi_push blockHash (m_blockIndex s))\<rparr>))"

fun rebuild_blocks :: "u32 \<Rightarrow> block_entry list \<Rightarrow> blockchain \<Rightarrow> exn + blockchain" where
  "rebuild_blocks b [] s = Inr s"
| "rebuild_blocks b (be # bes) s =
     (case rebuild_block b be s of Inl e \<Rightarrow> Inl e | Inr s \<Rightarrow> rebuild_blocks (b + 1) bes s)"

definition clear_caches :: "blockchain \<Rightarrow> blockchain" where
  "clear_caches s = s\<lparr>m_blockIndex := [], m_transactionMap := Map.empty, m_spent_keys := {},
     m_outputs := Map.empty, m_multisignatureOutputs := Map.empty\<rparr>"

definition rebuildCache :: "blockchain \<Rightarrow> exn + blockchain" where
  "rebuildCache s = rebuild_blocks 0 (m_blocks s) (clear_caches s)"

section \<open>Inputs\<close>

fun multisig_refs :: "transaction_input list \<Rightarrow> (u64 \<times> u32) list" where
  "multisig_refs [] = []"
| "multisig_refs (MultisigInput a _ i # ins) = (a, i) # multisig_refs ins"
| "multisig_refs (BaseInput _ # ins) = multisig_refs ins"
| "multisig_refs (KeyInput _ _ _ # ins) = multisig_refs ins"

lemma multisig_diff_loop_iff:
  "multisig_diff_loop ins used \<longleftrightarrow> distinct (multisig_refs ins) \<and> set (multisig_refs ins) \<inter> set used = {}"
  by (induction ins used rule: multisig_diff_loop.induct) (auto split: transaction_input.splits)

lemma checkMultisignatureInputsDiff_iff:
  "checkMultisignatureInputsDiff tx \<longleftrightarrow> distinct (multisig_refs (tx_inputs tx))"
  by (simp add: checkMultisignatureInputsDiff_def multisig_diff_loop_iff)

text \<open>Which images can be spent in a state.\<close>

definition images_fresh :: "key_image_t set \<Rightarrow> transaction_input list \<Rightarrow> bool" where
  "images_fresh spent ins \<longleftrightarrow>
     distinct (key_images ins) \<and> set (key_images ins) \<inter> spent = {} \<and> deleted_image \<notin> set (key_images ins)"

lemma images_fresh_Nil [simp]: "images_fresh spent []"
  by (simp add: images_fresh_def)

lemma images_fresh_simps [simp]:
  "images_fresh spent (BaseInput h # ins) = images_fresh spent ins"
  "images_fresh spent (MultisigInput a n i # ins) = images_fresh spent ins"
  "images_fresh spent (KeyInput a os img # ins) \<longleftrightarrow>
     img \<noteq> deleted_image \<and> img \<notin> spent \<and> images_fresh (insert img spent) ins"
  by (auto simp: images_fresh_def)

lemma spend_keys_True:
  "spend_keys earlier ins spent = Inr (True, spent')
   \<longleftrightarrow> images_fresh spent ins \<and> spent' = spent \<union> set (key_images ins)"
  by (induction earlier ins spent arbitrary: spent' rule: spend_keys.induct)
    (auto simp: insert_spent_def split: transaction_input.splits sum.splits if_splits bool.splits)

section \<open>Multisignature outputs in use\<close>

definition ref_ok :: "(u64 \<rightharpoonup> multisignature_output_usage list) \<Rightarrow> u64 \<times> u32 \<Rightarrow> bool" where
  "ref_ok m r \<longleftrightarrow> unat (snd r) < length (vector_at m (fst r))"

definition ref_used :: "(u64 \<rightharpoonup> multisignature_output_usage list) \<Rightarrow> u64 \<times> u32 \<Rightarrow> bool" where
  "ref_used m r \<longleftrightarrow> mou_isUsed (vector_at m (fst r) ! unat (snd r))"

definition put_used ::
  "bool \<Rightarrow> u64 \<times> u32 \<Rightarrow> (u64 \<rightharpoonup> multisignature_output_usage list) \<Rightarrow> (u64 \<rightharpoonup> multisignature_output_usage list)" where
  "put_used b r m =
     m(fst r \<mapsto> (vector_at m (fst r))[unat (snd r) := (vector_at m (fst r) ! unat (snd r))\<lparr>mou_isUsed := b\<rparr>])"

abbreviation put_all where
  "put_all b rs m \<equiv> fold (put_used b) rs m"

lemma set_used_eq: "set_used a i b m = (if ref_ok m (a, i) then Inr (put_used b (a, i) m) else Inl OutOfRange)"
  by (simp add: set_used_def ref_ok_def put_used_def Let_def)

lemma vector_at_upd [simp]: "vector_at (m(a \<mapsto> v)) b = (if b = a then v else vector_at m b)"
  by (simp add: vector_at_def)

lemma ref_ok_put [simp]: "ref_ok (put_used b r m) r' = ref_ok m r'"
  by (simp add: ref_ok_def put_used_def)

lemma ref_ok_put_all [simp]: "ref_ok (put_all b rs m) r' = ref_ok m r'"
  by (induction rs arbitrary: m) simp_all

lemma unat32_eq: "unat (i :: u32) = unat j \<longleftrightarrow> i = j"
  by (simp add: word_unat_eq_iff)

lemma ref_used_put: "ref_ok m r' \<Longrightarrow> ref_used (put_used b r m) r' = (if r' = r then b else ref_used m r')"
  by (cases r; cases r') (auto simp: ref_ok_def ref_used_def put_used_def nth_list_update unat32_eq)

lemma put_commute: "r \<noteq> r' \<Longrightarrow> put_used b r (put_used b' r' m) = put_used b' r' (put_used b r m)"
  by (cases r; cases r') (auto simp: put_used_def fun_eq_iff nth_list_update_neq unat32_eq intro!: list_update_swap)

lemma put_all_commute: "r \<notin> set rs \<Longrightarrow> put_used b r (put_all b' rs m) = put_all b' rs (put_used b r m)"
proof (induction rs arbitrary: m)
  case (Cons r' rs)
  then show ?case using put_commute [of r r' b b' m] by simp
qed simp

lemma usage_unused: "\<not> mou_isUsed u \<Longrightarrow> u\<lparr>mou_isUsed := False\<rparr> = u"
  by (cases u) simp

lemma put_undo: "ref_ok m r \<Longrightarrow> \<not> ref_used m r \<Longrightarrow> put_used False r (put_used True r m) = m"
  by (cases r; cases "m (fst r)")
    (auto simp: ref_ok_def ref_used_def put_used_def vector_at_def usage_unused)

lemma put_all_undo:
  assumes "distinct rs" and "\<forall>r \<in> set rs. ref_ok m r \<and> \<not> ref_used m r"
  shows "put_all False rs (put_all True rs m) = m"
  using assms
proof (induction rs arbitrary: m)
  case (Cons r rs)
  have "put_all False (r # rs) (put_all True (r # rs) m) =
      put_all False rs (put_all True rs (put_used False r (put_used True r m)))"
    using Cons(2) by (simp add: put_all_commute)
  then show ?case using Cons by (simp add: put_undo)
qed simp

lemma use_outputs_eq:
  "use_outputs ins m =
     (if \<forall>r \<in> set (multisig_refs ins). ref_ok m r then Inr (put_all True (multisig_refs ins) m) else Inl OutOfRange)"
  by (induction ins m rule: use_outputs.induct) (auto simp: set_used_eq split: transaction_input.splits)

lemma pop_inputs_Inr:
  "pop_inputs ins spent m = Inr r \<longleftrightarrow>
     deleted_image \<notin> set (key_images ins) \<and> (\<forall>r \<in> set (multisig_refs ins). ref_ok m r)
     \<and> r = (spent - set (key_images ins), put_all False (multisig_refs ins) m)"
  by (induction ins spent m rule: pop_inputs.induct)
    (auto simp: set_used_eq erase_spent_def split: transaction_input.splits)

lemma rebuild_inputs_Inr:
  "rebuild_inputs ins spent m = Inr r \<longleftrightarrow>
     deleted_image \<notin> set (key_images ins) \<and> (\<forall>r \<in> set (multisig_refs ins). ref_ok m r)
     \<and> r = (spent \<union> set (key_images ins), put_all True (multisig_refs ins) m)"
  by (induction ins spent m rule: rebuild_inputs.induct)
    (auto simp: set_used_eq insert_spent_def split: transaction_input.splits)

section \<open>Outputs\<close>

definition keys_ok :: "(u64 \<rightharpoonup> 'v list) \<Rightarrow> bool" where
  "keys_ok m \<longleftrightarrow> (\<forall>a. m a \<noteq> Some [])"

definition is_multisig :: "transaction_output \<Rightarrow> bool" where
  "is_multisig out \<longleftrightarrow> (case out_target out of KeyOutput _ \<Rightarrow> False | MultisigOutput _ _ \<Rightarrow> True)"

lemma keys_ok_empty [simp]: "keys_ok Map.empty"
  by (simp add: keys_ok_def)

lemma keys_ok_upd [simp]: "keys_ok m \<Longrightarrow> v \<noteq> [] \<Longrightarrow> keys_ok (m(a \<mapsto> v))"
  by (simp add: keys_ok_def)

text \<open>One output, and the loop as its repetition.\<close>

definition push_output :: "transaction_index \<Rightarrow> u16 \<Rightarrow> transaction_output \<Rightarrow> output_maps \<Rightarrow> output_maps" where
  "push_output t i out maps =
     (if is_multisig out
      then (fst maps, (snd maps)(out_amount out \<mapsto> vector_at (snd maps) (out_amount out)
              @ [\<lparr>mou_transactionIndex = t, mou_outputIndex = i, mou_isUsed = False\<rparr>]))
      else ((fst maps)(out_amount out \<mapsto> vector_at (fst maps) (out_amount out) @ [(t, i)]), snd maps))"

definition output_slot :: "transaction_output \<Rightarrow> output_maps \<Rightarrow> u32" where
  "output_slot out maps =
     of_nat (if is_multisig out then length (vector_at (snd maps) (out_amount out))
             else length (vector_at (fst maps) (out_amount out)))"

definition out_storable :: "transaction_output \<Rightarrow> bool" where
  "out_storable out \<longleftrightarrow> is_multisig out \<or> out_amount out \<noteq> 0"

lemma push_outputs_Cons:
  "push_outputs t i (out # outs) maps =
     (if out_storable out
      then (case push_outputs t (i + 1) outs (push_output t i out maps) of
              Inl e \<Rightarrow> Inl e
            | Inr (indexes, maps') \<Rightarrow> Inr (output_slot out maps # indexes, maps'))
      else Inl AssertFailed)"
  by (cases maps) (simp add: out_storable_def push_output_def output_slot_def is_multisig_def Let_def
    split: output_target.splits sum.splits prod.splits)

lemma push_outputs_Inr:
  "push_outputs t i (out # outs) maps = Inr (ix, maps') \<longleftrightarrow>
     out_storable out \<and> (\<exists>ix1. push_outputs t (i + 1) outs (push_output t i out maps) = Inr (ix1, maps')
       \<and> ix = output_slot out maps # ix1)"
  by (auto simp: push_outputs_Cons simp del: push_outputs.simps split: sum.splits prod.splits)

lemma push_outputs_snoc:
  "push_outputs t i (outs @ [out]) maps = Inr (ix, maps') \<longleftrightarrow>
     (\<exists>ix1 maps1. push_outputs t i outs maps = Inr (ix1, maps1) \<and> out_storable out
        \<and> maps' = push_output t (i + of_nat (length outs)) out maps1 \<and> ix = ix1 @ [output_slot out maps1])"
proof (induction outs arbitrary: i maps ix)
  case Nil
  then show ?case by (cases maps) (auto simp: push_outputs_Cons simp del: push_outputs.simps(2))
next
  case (Cons o' outs)
  have i: "i + (1 + of_nat (length outs)) = i + 1 + of_nat (length outs)" by simp
  show ?case
    by (auto simp: push_outputs_Inr Cons i simp del: push_outputs.simps)
qed

lemma keys_ok_push: "keys_ok (fst maps) \<Longrightarrow> keys_ok (fst (push_output t i out maps))"
  by (simp add: push_output_def)

lemma keys_ok_pushes:
  "push_outputs t i outs maps = Inr (ix, maps') \<Longrightarrow> keys_ok (fst maps) \<Longrightarrow> keys_ok (fst maps')"
  by (induction outs arbitrary: maps' ix rule: rev_induct) (auto simp: push_outputs_snoc keys_ok_push)

lemma multis_push:
  "vector_at (snd (push_output t i out maps)) a = [] \<longleftrightarrow>
     vector_at (snd maps) a = [] \<and> \<not> (is_multisig out \<and> out_amount out = a)"
  by (auto simp: push_output_def)

lemma multis_pushes:
  "push_outputs t i outs maps = Inr (ix, maps') \<Longrightarrow>
   vector_at (snd maps') a = [] \<longleftrightarrow> vector_at (snd maps) a = [] \<and> (\<forall>out \<in> set outs. is_multisig out \<longrightarrow> out_amount out \<noteq> a)"
proof (induction outs arbitrary: maps' ix rule: rev_induct)
  case (snoc out outs)
  then obtain ix1 maps1 where *: "push_outputs t i outs maps = Inr (ix1, maps1)"
    "maps' = push_output t (i + of_nat (length outs)) out maps1"
    unfolding push_outputs_snoc by blast
  show ?case using snoc.IH [OF *(1)] by (auto simp: *(2) multis_push)
qed simp

lemma pop_output_Cons:
  "pop_outputs t (out # earlier) maps =
     (case (if is_multisig out
            then map_sum id (Pair (fst maps)) (pop_multisig_output t (length earlier) (out_amount out) (snd maps))
            else Inr (pop_key_output t (length earlier) (out_amount out) (fst maps), snd maps)) of
        Inl e \<Rightarrow> Inl e
      | Inr maps \<Rightarrow> pop_outputs t earlier maps)"
  by (cases maps) (simp add: is_multisig_def split: output_target.splits sum.splits)

lemma pop_push_output:
  assumes "keys_ok (fst maps)" and "unat i = length earlier"
  shows "pop_outputs t (out # earlier) (push_output t i out maps) =
    (if is_multisig out \<and> vector_at (snd maps) (out_amount out) = [] then Inl AssertFailed
     else pop_outputs t earlier maps)"
proof -
  have some: "snd maps a = Some (vector_at (snd maps) a)" if "vector_at (snd maps) a \<noteq> []" for a
    using that by (auto simp: vector_at_def split: option.splits)
  have upd: "(fst maps)(a := if vector_at (fst maps) a = [] then None else Some (vector_at (fst maps) a)) = fst maps" for a
    using assms(1) by (auto simp: vector_at_def keys_ok_def fun_eq_iff split: option.splits)
  have key: "pop_key_output t (length earlier) a ((fst maps)(a \<mapsto> vector_at (fst maps) a @ [(t, i)])) = fst maps" for a
    using assms(2) upd [of a] by (auto simp: pop_key_output_def split: if_splits)
  show ?thesis
  proof (cases "is_multisig out")
    case True
    then show ?thesis
      using assms some by (auto simp: pop_output_Cons push_output_def pop_multisig_output_def fun_upd_idem)
  next
    case False
    then show ?thesis using key by (simp add: pop_output_Cons push_output_def)
  qed
qed

lemma pop_pushes:
  assumes "push_outputs t 0 outs maps = Inr (ix, maps')" and "keys_ok (fst maps)" and "length outs \<le> 65535"
  shows "pop_outputs t (rev outs) maps' =
    (if \<forall>out \<in> set outs. is_multisig out \<longrightarrow> vector_at (snd maps) (out_amount out) \<noteq> [] then Inr maps
     else Inl AssertFailed)"
  using assms(1,3)
proof (induction outs arbitrary: maps' ix rule: rev_induct)
  case (snoc out outs)
  then obtain ix1 maps1 where 1: "push_outputs t 0 outs maps = Inr (ix1, maps1)"
    and maps': "maps' = push_output t (0 + of_nat (length outs)) out maps1"
    unfolding push_outputs_snoc by blast
  have "unat (of_nat (length outs) :: u16) = length (rev outs)" using snoc(3) by (simp add: unat_of_nat)
  with keys_ok_pushes [OF 1 assms(2)]
  have "pop_outputs t (rev (outs @ [out])) maps' =
      (if is_multisig out \<and> vector_at (snd maps1) (out_amount out) = [] then Inl AssertFailed
       else pop_outputs t (rev outs) maps1)"
    unfolding maps' by (simp add: pop_push_output)
  then show ?case using snoc(1) [OF 1] snoc(3) multis_pushes [OF 1, of "out_amount out"] by auto
qed simp

section \<open>A transaction that was added can be removed\<close>

lemma payment_remove_add: "snd (payment_remove tx (snd (payment_add tx index))) = index"
  by (simp add: payment_remove_def payment_add_def split: option.splits)

text \<open>What \<open>pushTransaction\<close> needs in order to accept a transaction, and what it then does.\<close>

definition tx_fresh :: "blockchain \<Rightarrow> transaction \<Rightarrow> bool" where
  "tx_fresh s tx \<longleftrightarrow>
     images_fresh (m_spent_keys s) (tx_inputs tx)
     \<and> distinct (multisig_refs (tx_inputs tx))
     \<and> (\<forall>r \<in> set (multisig_refs (tx_inputs tx)). ref_ok (m_multisignatureOutputs s) r)
     \<and> (\<forall>out \<in> set (tx_outputs tx). out_storable out) \<and> length (tx_outputs tx) \<le> 65535"

lemma push_outputs_total:
  "(\<exists>ix maps'. push_outputs t i outs maps = Inr (ix, maps')) \<longleftrightarrow> (\<forall>out \<in> set outs. out_storable out)"
proof (induction outs arbitrary: i maps)
  case (Cons out outs)
  show ?case unfolding push_outputs_Inr using Cons [of "i + 1" "push_output t i out maps"] by auto
qed simp

lemma push_outputs_storable: "push_outputs t i outs maps = Inr (ix, maps') \<Longrightarrow> out \<in> set outs \<Longrightarrow> out_storable out"
  using push_outputs_total [of t i outs maps] by blast

definition added_outputs :: "transaction_index \<Rightarrow> transaction \<Rightarrow> blockchain \<Rightarrow> exn + u32 list \<times> output_maps" where
  "added_outputs t tx s =
     push_outputs t 0 (tx_outputs tx) (m_outputs s, put_all True (multisig_refs (tx_inputs tx)) (m_multisignatureOutputs s))"

definition added :: "transaction_index \<Rightarrow> transaction \<Rightarrow> hash_t \<Rightarrow> output_maps \<Rightarrow> blockchain \<Rightarrow> blockchain" where
  "added t tx h maps s =
     s\<lparr>m_transactionMap := (m_transactionMap s)(h \<mapsto> t),
       m_spent_keys := m_spent_keys s \<union> set (key_images (tx_inputs tx)),
       m_outputs := fst maps, m_multisignatureOutputs := snd maps,
       bc_paymentIdIndex := snd (payment_add tx (bc_paymentIdIndex s))\<rparr>"

lemma pushTransaction_True:
  "pushTransaction be h t s = Inr (True, be', s') \<longleftrightarrow>
     (\<exists>entry indexes maps. m_transactionMap s h = None
        \<and> unat (ti_transaction t) < length (be_transactions be) \<and> entry = be_transactions be ! unat (ti_transaction t)
        \<and> tx_fresh s (te_tx entry) \<and> added_outputs t (te_tx entry) s = Inr (indexes, maps)
        \<and> be' = be\<lparr>be_transactions := (be_transactions be)[unat (ti_transaction t) := entry\<lparr>m_global_output_indexes := indexes\<rparr>]\<rparr>
        \<and> s' = added t (te_tx entry) h maps s)"
  (is "_ \<longleftrightarrow> ?rhs")
proof
  assume "pushTransaction be h t s = Inr (True, be', s')"
  then show ?rhs
    unfolding pushTransaction_def Let_def
    by (auto simp: spend_keys_True use_outputs_eq add_outputs_def added_outputs_def tx_fresh_def added_def
        checkMultisignatureInputsDiff_iff
        split: if_splits sum.splits bool.splits prod.splits dest: push_outputs_storable)
next
  assume ?rhs
  then obtain entry indexes keys multis where *: "m_transactionMap s h = None"
    "unat (ti_transaction t) < length (be_transactions be)" "entry = be_transactions be ! unat (ti_transaction t)"
    "tx_fresh s (te_tx entry)" "added_outputs t (te_tx entry) s = Inr (indexes, keys, multis)"
    "be' = be\<lparr>be_transactions := (be_transactions be)[unat (ti_transaction t) := entry\<lparr>m_global_output_indexes := indexes\<rparr>]\<rparr>"
    "s' = added t (te_tx entry) h (keys, multis) s"
    by auto
  have "spend_keys [] (tx_inputs (te_tx entry)) (m_spent_keys s) =
      Inr (True, m_spent_keys s \<union> set (key_images (tx_inputs (te_tx entry))))"
    using *(4) by (simp add: spend_keys_True tx_fresh_def)
  then show "pushTransaction be h t s = Inr (True, be', s')"
    unfolding pushTransaction_def Let_def using *
    by (simp add: use_outputs_eq add_outputs_def added_outputs_def tx_fresh_def added_def
        checkMultisignatureInputsDiff_iff)
qed

lemma popTransaction_added:
  assumes "m_transactionMap s h = None" and "tx_fresh s tx" and "added_outputs t tx s = Inr (indexes, maps)"
    and "\<forall>r \<in> set (multisig_refs (tx_inputs tx)). \<not> ref_used (m_multisignatureOutputs s) r"
    and "keys_ok (m_outputs s)"
  shows "popTransaction tx h (added t tx h maps s) =
    (if \<forall>out \<in> set (tx_outputs tx). is_multisig out \<longrightarrow> vector_at (m_multisignatureOutputs s) (out_amount out) \<noteq> []
     then Inr s else Inl AssertFailed)"
proof -
  let ?refs = "multisig_refs (tx_inputs tx)" and ?m = "m_multisignatureOutputs s"
  have len: "vector_at (put_used b r m) a = [] \<longleftrightarrow> vector_at m a = []" for b r m a
    by (simp add: put_used_def)
  have lens: "vector_at (put_all True rs m) a = [] \<longleftrightarrow> vector_at m a = []" for rs m a
    by (induction rs arbitrary: m) (simp_all add: len)
  have outs: "pop_outputs t (rev (tx_outputs tx)) maps =
      (if \<forall>out \<in> set (tx_outputs tx). is_multisig out \<longrightarrow> vector_at ?m (out_amount out) \<noteq> []
       then Inr (m_outputs s, put_all True ?refs ?m) else Inl AssertFailed)"
    using assms pop_pushes [of t "tx_outputs tx" "(m_outputs s, put_all True ?refs ?m)" indexes maps]
    by (simp add: added_outputs_def tx_fresh_def lens)
  have ins: "pop_inputs (tx_inputs tx) (m_spent_keys s \<union> set (key_images (tx_inputs tx))) (put_all True ?refs ?m) =
      Inr (m_spent_keys s, ?m)"
    using assms by (auto simp: pop_inputs_Inr tx_fresh_def images_fresh_def put_all_undo)
  have map: "(m_transactionMap s)(h := None) = m_transactionMap s" using assms(1) by (auto simp: fun_eq_iff)
  show ?thesis
    by (simp add: popTransaction_def added_def outs ins payment_remove_add map)
qed

text \<open>C15: a transaction that \<open>pushTransaction\<close> accepted, with multisignature inputs that were unused, is taken back by
  \<open>popTransaction\<close> without a trace, unless one of its multisignature outputs is the first of its amount. Then the
  removal erases an entry of \<open>m_multisignatureOutputs\<close>, on which the container asserts.\<close>

theorem push_pop_transaction:
  assumes "pushTransaction be h t s = Inr (True, be', s')"
    and "tx = te_tx (be_transactions be ! unat (ti_transaction t))"
    and "\<forall>r \<in> set (multisig_refs (tx_inputs tx)). \<not> ref_used (m_multisignatureOutputs s) r"
    and "keys_ok (m_outputs s)"
  shows "popTransaction tx h s' =
    (if \<forall>out \<in> set (tx_outputs tx). is_multisig out \<longrightarrow> vector_at (m_multisignatureOutputs s) (out_amount out) \<noteq> []
     then Inr s else Inl AssertFailed)"
proof -
  obtain ix maps where "m_transactionMap s h = None" "tx_fresh s tx" "added_outputs t tx s = Inr (ix, maps)"
    and s': "s' = added t tx h maps s"
    using assms(1) unfolding pushTransaction_True assms(2) by blast
  then show ?thesis using assms(3,4) unfolding s' by (intro popTransaction_added)
qed

definition sample_entry :: "transaction_output list \<Rightarrow> block_entry" where
  "sample_entry outs = \<lparr>be_bl = \<lparr>majorVersion = 1, minorVersion = 0, nonce = 0, timestamp = 0,
       previousBlockHash = NULL_HASH,
       baseTransaction = \<lparr>tx_version = 1, unlockTime = 10, tx_inputs = [BaseInput 0], tx_outputs = outs, tx_extra = [],
         signatures = [[]]\<rparr>,
       transactionHashes = []\<rparr>,
     be_height = 0, block_cumulative_size = 0, cumulative_difficulty = 0, already_generated_coins = 0,
     be_transactions = [\<lparr>te_tx = \<lparr>tx_version = 1, unlockTime = 10, tx_inputs = [KeyInput 5 [0] [1]], tx_outputs = outs,
       tx_extra = [], signatures = [[]]\<rparr>, m_global_output_indexes = []\<rparr>]\<rparr>"

theorem push_pop_transaction_witness:
  "\<exists>be s. pushTransaction (sample_entry [\<lparr>out_amount = 7, out_target = KeyOutput []\<rparr>]) [9] \<lparr>ti_block = 0, ti_transaction = 0\<rparr>
      blockchain_new = Inr (True, be, s)
    \<and> m_spent_keys s = {[1]} \<and> popTransaction (te_tx (be_transactions be ! 0)) [9] s = Inr blockchain_new"
proof -
  let ?be = "sample_entry [\<lparr>out_amount = 7, out_target = KeyOutput []\<rparr>]"
  let ?t = "\<lparr>ti_block = 0, ti_transaction = 0\<rparr>"
  have img: "[1] \<noteq> deleted_image" by (auto simp: deleted_image_def dest: arg_cong [of _ _ length])
  have "\<exists>be s. pushTransaction ?be [9] ?t blockchain_new = Inr (True, be, s)
      \<and> te_tx (be_transactions be ! 0) = te_tx (be_transactions ?be ! 0) \<and> m_spent_keys s = {[1]}"
    by (simp add: pushTransaction_def sample_entry_def blockchain_new_def checkMultisignatureInputsDiff_def
        insert_spent_def img add_outputs_def vector_at_def Let_def)
  then obtain be s where run: "pushTransaction ?be [9] ?t blockchain_new = Inr (True, be, s)"
    and be: "te_tx (be_transactions be ! 0) = te_tx (be_transactions ?be ! 0)" and sp: "m_spent_keys s = {[1]}"
    by blast
  have "popTransaction (te_tx (be_transactions ?be ! 0)) [9] s = Inr blockchain_new"
    using push_pop_transaction [OF run refl]
    by (simp add: sample_entry_def blockchain_new_def is_multisig_def)
  then show ?thesis using run be sp by auto
qed

end
