(* ===== verification/Blockchain.thy ===== *)
theory Blockchain
  imports Ledger
begin

text \<open>
  The main chain of \<open>src/cryptonote/core/blockchain.cpp\<close>: what a transaction and a block must satisfy, how a block
  is added and removed, and the queries on the chain. The clock, the signature checks and the slow hash are
  parameters.
\<close>

section \<open>Definitions\<close>

text \<open>
  What the code takes from elsewhere: \<open>time\<close>, \<open>cn_slow_hash\<close>, \<open>check_ring_signature\<close> and \<open>check_signature\<close>,
  with the currency the node was built for.
\<close>

record chain_env =
  env_currency :: currency
  env_time :: u64
  env_slow_hash :: "bytes \<Rightarrow> u8 \<Rightarrow> hash_t"
  env_check_ring_signature :: "hash_t \<Rightarrow> key_image_t \<Rightarrow> public_key_t list \<Rightarrow> signature_t list \<Rightarrow> bool"
  env_check_signature :: "hash_t \<Rightarrow> public_key_t \<Rightarrow> signature_t \<Rightarrow> bool"

record block_verification_context =
  bvc_added_to_main_chain :: bool
  bvc_verifivation_failed :: bool
  bvc_marked_as_orphaned :: bool
  bvc_already_exists :: bool
  bvc_switched_to_alt_chain :: bool

abbreviation bvc_failed :: "block_verification_context \<Rightarrow> block_verification_context" where
  "bvc_failed bvc \<equiv> bvc\<lparr>bvc_verifivation_failed := True\<rparr>"

definition bvc_new :: block_verification_context where
  "bvc_new = \<lparr>bvc_added_to_main_chain = False, bvc_verifivation_failed = False, bvc_marked_as_orphaned = False,
     bvc_already_exists = False, bvc_switched_to_alt_chain = False\<rparr>"

subsection \<open>Queries\<close>

definition getHeight :: "blockchain \<Rightarrow> u32" where
  "getHeight s = of_nat (length (m_blocks s))"

definition getTailId :: "blockchain \<Rightarrow> exn + hash_t" where
  "getTailId s = (if m_blocks s = [] then Inr NULL_HASH else bi_getTailId (m_blockIndex s))"

definition haveTransaction :: "blockchain \<Rightarrow> hash_t \<Rightarrow> bool" where
  "haveTransaction s h \<longleftrightarrow> m_transactionMap s h \<noteq> None"

definition have_tx_keyimg_as_spent :: "blockchain \<Rightarrow> key_image_t \<Rightarrow> bool" where
  "have_tx_keyimg_as_spent s key_im \<longleftrightarrow> key_im \<in> m_spent_keys s"

definition haveTransactionKeyImagesAsSpent :: "blockchain \<Rightarrow> transaction \<Rightarrow> bool" where
  "haveTransactionKeyImagesAsSpent s tx \<longleftrightarrow>
     list_ex (\<lambda>inp. case inp of KeyInput _ _ img \<Rightarrow> have_tx_keyimg_as_spent s img | _ \<Rightarrow> False) (tx_inputs tx)"

definition haveBlock :: "blockchain \<Rightarrow> hash_t \<Rightarrow> bool" where
  "haveBlock s h \<longleftrightarrow> hasBlock h (m_blockIndex s) \<or> m_alternative_chains s h \<noteq> None"

definition checkTransactionSize :: "chain_env \<Rightarrow> blockchain \<Rightarrow> u64 \<Rightarrow> bool" where
  "checkTransactionSize env s blob_size \<longleftrightarrow>
     \<not> m_current_block_cumul_sz_limit s - m_minerTxBlobReservedSize (env_currency env) < blob_size"

text \<open>\<open>m_blocks[i]\<close>: an index past the end throws.\<close>

definition block_at :: "blockchain \<Rightarrow> nat \<Rightarrow> exn + block_entry" where
  "block_at s i = (if i < length (m_blocks s) then Inr (m_blocks s ! i) else Inl OutOfRange)"

definition transactionByIndex :: "blockchain \<Rightarrow> transaction_index \<Rightarrow> exn + transaction_entry" where
  "transactionByIndex s index =
     (case block_at s (unat (ti_block index)) of
        Inl e \<Rightarrow> Inl e
      | Inr be \<Rightarrow>
          if unat (ti_transaction index) < length (be_transactions be)
          then Inr (be_transactions be ! unat (ti_transaction index)) else Inl OutOfRange)"

definition getTransactionOutputGlobalIndexes :: "blockchain \<Rightarrow> hash_t \<Rightarrow> exn + u32 list option" where
  "getTransactionOutputGlobalIndexes s tx_id =
     (case m_transactionMap s tx_id of
        None \<Rightarrow> Inr None
      | Some index \<Rightarrow>
          (case transactionByIndex s index of
             Inl e \<Rightarrow> Inl e
           | Inr tx \<Rightarrow>
               Inr (if m_global_output_indexes tx = [] then None else Some (m_global_output_indexes tx))))"

definition getBlockContainingTransaction :: "blockchain \<Rightarrow> hash_t \<Rightarrow> exn + (hash_t \<times> u32) option" where
  "getBlockContainingTransaction s txId =
     (case m_transactionMap s txId of
        None \<Rightarrow> Inr None
      | Some index \<Rightarrow>
          (case block_at s (unat (ti_block index)) of
             Inl e \<Rightarrow> Inl e
           | Inr be \<Rightarrow>
               (case getBlockId (be_height be) (m_blockIndex s) of
                  Inl e \<Rightarrow> Inl e
                | Inr blockId \<Rightarrow> Inr (Some (blockId, be_height be)))))"

text \<open>\<open>getBlockchainTransactions\<close>: the transactions found and the ids missed.\<close>

fun getBlockchainTransactions :: "blockchain \<Rightarrow> hash_t list \<Rightarrow> exn + transaction list \<times> hash_t list" where
  "getBlockchainTransactions s [] = Inr ([], [])"
| "getBlockchainTransactions s (tx_id # txs_ids) =
     (case m_transactionMap s tx_id of
        None \<Rightarrow>
          (case getBlockchainTransactions s txs_ids of
             Inl e \<Rightarrow> Inl e
           | Inr (txs, missed) \<Rightarrow> Inr (txs, tx_id # missed))
      | Some index \<Rightarrow>
          (case transactionByIndex s index of
             Inl e \<Rightarrow> Inl e
           | Inr tx \<Rightarrow>
               (case getBlockchainTransactions s txs_ids of
                  Inl e \<Rightarrow> Inl e
                | Inr (txs, missed) \<Rightarrow> Inr (te_tx tx # txs, missed))))"

text \<open>\<open>TxMemoryPool::getTransactions\<close>.\<close>

definition pool_getTransactions :: "tx_pool \<Rightarrow> hash_t list \<Rightarrow> transaction list \<times> hash_t list" where
  "pool_getTransactions p ids =
     (List.map_filter (\<lambda>h. map_option td_tx (find (\<lambda>td. td_id td = h) (m_transactions p))) ids,
      filter (\<lambda>h. \<not> have_tx p h) ids)"

definition getTransactions :: "blockchain \<Rightarrow> tx_pool \<Rightarrow> hash_t list \<Rightarrow> bool \<Rightarrow> exn + transaction list \<times> hash_t list" where
  "getTransactions s p ids checkTxPool =
     (case getBlockchainTransactions s ids of
        Inl e \<Rightarrow> Inl e
      | Inr (txs, missed) \<Rightarrow>
          if checkTxPool then let (more, missed) = pool_getTransactions p missed in Inr (txs @ more, missed)
          else Inr (txs, missed))"

definition getCoinsInCirculation :: "blockchain \<Rightarrow> u64" where
  "getCoinsInCirculation s = (if m_blocks s = [] then 0 else already_generated_coins (last (m_blocks s)))"

text \<open>\<open>blockDifficulty\<close>; an index past the end is reported as \<open>false\<close>, which is 0.\<close>

definition blockDifficulty :: "blockchain \<Rightarrow> nat \<Rightarrow> u64" where
  "blockDifficulty s i =
     (if length (m_blocks s) \<le> i then 0
      else if i = 0 then cumulative_difficulty (m_blocks s ! i)
      else cumulative_difficulty (m_blocks s ! i) - cumulative_difficulty (m_blocks s ! (i - 1)))"

subsection \<open>The inputs of a transaction\<close>

text \<open>\<open>getHeight() - 1\<close> is computed with 32 bits.\<close>

definition is_tx_spendtime_unlocked :: "chain_env \<Rightarrow> blockchain \<Rightarrow> u64 \<Rightarrow> bool" where
  "is_tx_spendtime_unlocked env s unlock_time =
     (if unlock_time < m_maxBlockHeight (env_currency env)
      then unlock_time \<le> ucast (getHeight s - 1) + m_lockedTxAllowedDeltaBlocks (env_currency env)
      else unlock_time \<le> env_time env + m_lockedTxAllowedDeltaSeconds (env_currency env))"

text \<open>
  \<open>scanOutputKeysForIndexes\<close> with the visitor of \<open>check_tx_input\<close>: the keys of the outputs, and the height
  \<open>*pmax_related_block_height\<close>, which the last output may raise. \<open>None\<close> is the result \<open>false\<close>.
\<close>

definition handle_output :: "chain_env \<Rightarrow> blockchain \<Rightarrow> transaction \<Rightarrow> transaction_output \<Rightarrow> public_key_t option" where
  "handle_output env s tx out =
     (if \<not> is_tx_spendtime_unlocked env s (unlockTime tx) then None
      else case out_target out of KeyOutput key \<Rightarrow> Some key | MultisigOutput _ _ \<Rightarrow> None)"

fun scan_loop ::
  "chain_env \<Rightarrow> blockchain \<Rightarrow> (transaction_index \<times> u16) list \<Rightarrow> u32 list \<Rightarrow> u32 \<Rightarrow> exn + (public_key_t list \<times> u32) option" where
  "scan_loop env s amount_outs [] pmax = Inr (Some ([], pmax))"
| "scan_loop env s amount_outs (i # offsets) pmax =
     (if length amount_outs \<le> unat i then Inr None
      else
        let (index, n) = amount_outs ! unat i
        in case transactionByIndex s index of
             Inl e \<Rightarrow> Inl e
           | Inr tx \<Rightarrow>
               if \<not> unat n < length (tx_outputs (te_tx tx)) then Inr None
               else
                 (case handle_output env s (te_tx tx) (tx_outputs (te_tx tx) ! unat n) of
                    None \<Rightarrow> Inr None
                  | Some key \<Rightarrow>
                      (case scan_loop env s amount_outs offsets
                          (if offsets = [] \<and> pmax < ti_block index then ti_block index else pmax) of
                         Inl e \<Rightarrow> Inl e
                       | Inr None \<Rightarrow> Inr None
                       | Inr (Some (keys, pmax)) \<Rightarrow> Inr (Some (key # keys, pmax)))))"

definition scanOutputKeysForIndexes ::
  "chain_env \<Rightarrow> blockchain \<Rightarrow> u64 \<Rightarrow> u32 list \<Rightarrow> u32 \<Rightarrow> exn + (public_key_t list \<times> u32) option" where
  "scanOutputKeysForIndexes env s amount offsets pmax =
     (case m_outputs s amount of
        None \<Rightarrow> Inr None
      | Some amount_outs_vec \<Rightarrow>
          if offsets = [] then Inr None
          else scan_loop env s amount_outs_vec (relative_output_offsets_to_absolute offsets) pmax)"

text \<open>The result and \<open>*pmax_related_block_height\<close>.\<close>

definition check_tx_input ::
  "chain_env \<Rightarrow> blockchain \<Rightarrow> u64 \<Rightarrow> u32 list \<Rightarrow> key_image_t \<Rightarrow> hash_t \<Rightarrow> signature_t list \<Rightarrow> u32 \<Rightarrow> exn + bool \<times> u32" where
  "check_tx_input env s amount offsets img tx_prefix_hash sig pmax =
     (case scanOutputKeysForIndexes env s amount offsets pmax of
        Inl e \<Rightarrow> Inl e
      | Inr None \<Rightarrow> Inr (False, pmax)
      | Inr (Some (output_keys, pmax)) \<Rightarrow>
          if length offsets \<noteq> length output_keys then Inr (False, pmax)
          else if length sig \<noteq> length output_keys then Inr (False, pmax)
          else if m_is_in_checkpoint_zone s then Inr (True, pmax)
          else Inr (env_check_ring_signature env tx_prefix_hash img output_keys sig, pmax))"

text \<open>The loop of \<open>validateInput\<close>: the signatures in the order of the keys.\<close>

fun check_signatures :: "(public_key_t \<Rightarrow> signature_t \<Rightarrow> bool) \<Rightarrow> public_key_t list \<Rightarrow> signature_t list \<Rightarrow> bool" where
  "check_signatures chk ks [] = True"
| "check_signatures chk [] (sg # sgs) = False"
| "check_signatures chk (k # ks) (sg # sgs) =
     (if chk k sg then check_signatures chk ks sgs else check_signatures chk ks (sg # sgs))"

definition validateInput ::
  "chain_env \<Rightarrow> blockchain \<Rightarrow> u64 \<Rightarrow> u8 \<Rightarrow> u32 \<Rightarrow> hash_t \<Rightarrow> signature_t list \<Rightarrow> exn + bool" where
  "validateInput env s amount sig_count i transactionPrefixHash sigs =
     (if unat sig_count \<noteq> length sigs then Inl AssertFailed
      else case m_multisignatureOutputs s amount of
        None \<Rightarrow> Inr False
      | Some amountOutputs \<Rightarrow>
          if length amountOutputs \<le> unat i then Inr False
          else
            let usage = amountOutputs ! unat i
            in if mou_isUsed usage then Inr False
               else case transactionByIndex s (mou_transactionIndex usage) of
                 Inl e \<Rightarrow> Inl e
               | Inr entry \<Rightarrow>
                   if \<not> is_tx_spendtime_unlocked env s (unlockTime (te_tx entry)) then Inr False
                   else if length (tx_outputs (te_tx entry)) \<le> unat (mou_outputIndex usage) then Inl OutOfRange
                   else
                     let out = tx_outputs (te_tx entry) ! unat (mou_outputIndex usage)
                     in if out_amount out \<noteq> amount then Inl AssertFailed
                        else case out_target out of
                          KeyOutput _ \<Rightarrow> Inl AssertFailed
                        | MultisigOutput ks required \<Rightarrow>
                            if sig_count \<noteq> required then Inr False
                            else Inr (check_signatures (env_check_signature env transactionPrefixHash) ks sigs))"

text \<open>The loop over the inputs, with the signatures that are left.\<close>

fun check_inputs_loop ::
  "chain_env \<Rightarrow> blockchain \<Rightarrow> hash_t \<Rightarrow> transaction_input list \<Rightarrow> signature_t list list \<Rightarrow> u32 \<Rightarrow> exn + bool \<times> u32" where
  "check_inputs_loop env s tx_prefix_hash [] sigs pmax = Inr (True, pmax)"
| "check_inputs_loop env s tx_prefix_hash (inp # ins) [] pmax = Inl AssertFailed"
| "check_inputs_loop env s tx_prefix_hash (inp # ins) (sig # sigs) pmax =
     (case inp of
        KeyInput amount offsets img \<Rightarrow>
          if offsets = [] then Inr (False, pmax)
          else if have_tx_keyimg_as_spent s img then Inr (False, pmax)
          else
            (case check_tx_input env s amount offsets img tx_prefix_hash sig pmax of
               Inl e \<Rightarrow> Inl e
             | Inr (False, pmax) \<Rightarrow> Inr (False, pmax)
             | Inr (True, pmax) \<Rightarrow> check_inputs_loop env s tx_prefix_hash ins sigs pmax)
      | MultisigInput amount sig_count i \<Rightarrow>
          (case validateInput env s amount sig_count i tx_prefix_hash sig of
             Inl e \<Rightarrow> Inl e
           | Inr False \<Rightarrow> Inr (False, pmax)
           | Inr True \<Rightarrow> check_inputs_loop env s tx_prefix_hash ins sigs pmax)
      | BaseInput _ \<Rightarrow> Inr (False, pmax))"

definition checkTransactionInputs :: "chain_env \<Rightarrow> blockchain \<Rightarrow> transaction \<Rightarrow> exn + bool \<times> u32" where
  "checkTransactionInputs env s tx =
     check_inputs_loop env s (prefix_hash tx) (tx_inputs tx) (signatures tx) 0"

text \<open>The overload that reports the block of the newest output used; a failure still moves the height.\<close>

definition checkTransactionInputs_max :: "chain_env \<Rightarrow> blockchain \<Rightarrow> transaction \<Rightarrow> block_info \<Rightarrow> exn + bool \<times> block_info" where
  "checkTransactionInputs_max env s tx info =
     (case checkTransactionInputs env s tx of
        Inl e \<Rightarrow> Inl e
      | Inr (False, pmax) \<Rightarrow> Inr (False, info\<lparr>bi_height := pmax\<rparr>)
      | Inr (True, pmax) \<Rightarrow>
          if length (m_blocks s) \<le> unat pmax then Inr (False, info\<lparr>bi_height := pmax\<rparr>)
          else
            (case getHash (be_bl (m_blocks s ! unat pmax)) of
               Inl e \<Rightarrow> Inl e
             | Inr h \<Rightarrow> Inr (True, \<lparr>bi_height = pmax, bi_id = h\<rparr>)))"

text \<open>
  The overload the pool uses for a transaction it has checked before. A block index past the end of
  \<open>getBlockIdByHeight\<close> is an assertion.
\<close>

definition recheck_full :: "chain_env \<Rightarrow> blockchain \<Rightarrow> transaction \<Rightarrow> transaction_check_info \<Rightarrow> exn + bool \<times> transaction_check_info" where
  "recheck_full env s tx info =
     (case getTailId s of
        Inl e \<Rightarrow> Inl e
      | Inr tail_id \<Rightarrow>
          if m_blocks s = [] then Inl AssertFailed
          else
            (case checkTransactionInputs_max env s tx (maxUsedBlock info) of
               Inl e \<Rightarrow> Inl e
             | Inr (True, used) \<Rightarrow> Inr (True, info\<lparr>maxUsedBlock := used\<rparr>)
             | Inr (False, used) \<Rightarrow>
                 Inr (False, info\<lparr>maxUsedBlock := used,
                   lastFailedBlock := \<lparr>bi_height = getHeight s - 1, bi_id = tail_id\<rparr>\<rparr>)))"

definition checkTransactionInputs_again ::
  "chain_env \<Rightarrow> blockchain \<Rightarrow> transaction \<Rightarrow> transaction_check_info \<Rightarrow> exn + bool \<times> transaction_check_info" where
  "checkTransactionInputs_again env s tx info =
     (let used = maxUsedBlock info; failed = lastFailedBlock info
      in if block_info_empty used then
           if \<not> block_info_empty failed \<and> bi_height failed < getHeight s then
             (case getBlockId (bi_height failed) (m_blockIndex s) of
                Inl e \<Rightarrow> Inl e
              | Inr h \<Rightarrow> if h = bi_id failed then Inr (False, info) else recheck_full env s tx info)
           else recheck_full env s tx info
         else if getHeight s \<le> bi_height used then Inr (False, info)
         else
           case getBlockId (bi_height used) (m_blockIndex s) of
             Inl e \<Rightarrow> Inl e
           | Inr h \<Rightarrow>
               if h \<noteq> bi_id used then
                 (case getBlockId (bi_height failed) (m_blockIndex s) of
                    Inl e \<Rightarrow> Inl e
                  | Inr h \<Rightarrow> if bi_id failed = h then Inr (False, info) else recheck_full env s tx info)
               else Inr (True, info))"

subsection \<open>The checks of a block\<close>

definition check_block_timestamp :: "chain_env \<Rightarrow> u64 list \<Rightarrow> block \<Rightarrow> bool" where
  "check_block_timestamp env timestamps b =
     (if length timestamps < unat (m_timestampCheckWindow (env_currency env)) then True
      else \<not> timestamp b < medianValue timestamps)"

definition check_block_timestamp_main :: "chain_env \<Rightarrow> blockchain \<Rightarrow> block \<Rightarrow> bool" where
  "check_block_timestamp_main env s b =
     (if env_time env + m_blockFutureTimeLimit (env_currency env) < timestamp b then False
      else
        let n = length (m_blocks s);
            window = unat (m_timestampCheckWindow (env_currency env));
            offset = (if n \<le> window then 0 else n - window)
        in check_block_timestamp env (map (\<lambda>be. timestamp (be_bl be)) (drop offset (m_blocks s))) b)"

text \<open>\<open>difficultyBlocksCount\<close> is the window with the lag.\<close>

definition difficultyBlocksCount :: "chain_env \<Rightarrow> nat" where
  "difficultyBlocksCount env =
     unat (m_difficultyWindow (env_currency env) + m_difficultyLag (env_currency env))"

definition getDifficultyForNextBlock :: "chain_env \<Rightarrow> blockchain \<Rightarrow> exn + u64" where
  "getDifficultyForNextBlock env s =
     (let n = length (m_blocks s);
          offset = n - min n (difficultyBlocksCount env);
          offset = (if offset = 0 then 1 else offset);
          bs = drop offset (m_blocks s)
      in nextDifficulty (env_currency env) (map (\<lambda>be. timestamp (be_bl be)) bs) (map cumulative_difficulty bs))"

definition prevalidate_miner_transaction :: "chain_env \<Rightarrow> block \<Rightarrow> u32 \<Rightarrow> bool" where
  "prevalidate_miner_transaction env b height \<longleftrightarrow>
     (case tx_inputs (baseTransaction b) of
        [BaseInput h] \<Rightarrow>
          h = height
          \<and> unlockTime (baseTransaction b) = ucast height + m_minedMoneyUnlockWindow (env_currency env)
          \<and> check_outs_overflow (baseTransaction b)
      | _ \<Rightarrow> False)"

definition getBackwardBlocksSize :: "blockchain \<Rightarrow> nat \<Rightarrow> nat \<Rightarrow> u64 list option" where
  "getBackwardBlocksSize s from_height cnt =
     (if \<not> from_height < length (m_blocks s) then None
      else
        let start_offset = (from_height + 1) - min (from_height + 1) cnt
        in Some (map (\<lambda>i. block_cumulative_size (m_blocks s ! i)) [start_offset..<from_height + 1]))"

definition get_last_n_blocks_sizes :: "blockchain \<Rightarrow> nat \<Rightarrow> u64 list" where
  "get_last_n_blocks_sizes s cnt =
     (if m_blocks s = [] then []
      else case getBackwardBlocksSize s (length (m_blocks s) - 1) cnt of None \<Rightarrow> [] | Some sz \<Rightarrow> sz)"

text \<open>The reward and the emission, when the miner takes exactly the reward.\<close>

definition validate_miner_transaction ::
  "chain_env \<Rightarrow> blockchain \<Rightarrow> block \<Rightarrow> u64 \<Rightarrow> u64 \<Rightarrow> u64 \<Rightarrow> exn + (u64 \<times> u64) option" where
  "validate_miner_transaction env s b cumulativeBlockSize alreadyGeneratedCoins fee =
     (let minerReward = fold (\<lambda>out a. a + out_amount out) (tx_outputs (baseTransaction b)) 0;
          lastBlocksSizes = get_last_n_blocks_sizes s (unat (m_rewardBlocksWindow (env_currency env)));
          blocksSizeMedian = medianValue lastBlocksSizes
      in case getBlockReward (env_currency env) blocksSizeMedian cumulativeBlockSize alreadyGeneratedCoins fee of
           Inl e \<Rightarrow> Inl e
         | Inr None \<Rightarrow> Inr None
         | Inr (Some (reward, emissionChange)) \<Rightarrow>
             if reward < minerReward then Inr None
             else if minerReward < reward then Inr None
             else Inr (Some (reward, emissionChange)))"

definition checkCumulativeBlockSize :: "chain_env \<Rightarrow> u64 \<Rightarrow> u64 \<Rightarrow> exn + bool" where
  "checkCumulativeBlockSize env cumulativeBlockSize height =
     (case maxBlockCumulativeSize (env_currency env) height of
        Inl e \<Rightarrow> Inl e
      | Inr maxSize \<Rightarrow> Inr (\<not> maxSize < cumulativeBlockSize))"

definition getBlockCumulativeSize :: "blockchain \<Rightarrow> tx_pool \<Rightarrow> block \<Rightarrow> exn + bool \<times> u64" where
  "getBlockCumulativeSize s p b =
     (case getTransactions s p (transactionHashes b) True of
        Inl e \<Rightarrow> Inl e
      | Inr (blockTxs, missedTxs) \<Rightarrow>
          Inr (missedTxs = [], fold (\<lambda>tx a. a + tx_size tx) blockTxs (tx_size (baseTransaction b))))"

definition update_next_comulative_size_limit :: "chain_env \<Rightarrow> blockchain \<Rightarrow> blockchain" where
  "update_next_comulative_size_limit env s =
     (let median = medianValue (get_last_n_blocks_sizes s (unat (m_rewardBlocksWindow (env_currency env))));
          median = (if median \<le> m_blockGrantedFullRewardZone (env_currency env)
                    then m_blockGrantedFullRewardZone (env_currency env) else median)
      in s\<lparr>m_current_block_cumul_sz_limit := median * 2\<rparr>)"

subsection \<open>Adding a block\<close>

text \<open>\<open>pushBlock(block_entry_t&)\<close>.\<close>

definition pushEntry :: "block_entry \<Rightarrow> blockchain \<Rightarrow> exn + blockchain" where
  "pushEntry be s =
     (case getHash (be_bl be) of
        Inl e \<Rightarrow> Inl e
      | Inr blockHash \<Rightarrow>
          (case generated_add (be_bl be) (bc_generatedIndex s) of
             Inl e \<Rightarrow> Inl e
           | Inr (_, g) \<Rightarrow>
               let blocks = m_blocks s @ [be]; index = snd (bi_push blockHash (m_blockIndex s))
               in if unat (bi_size index) \<noteq> length blocks then Inl AssertFailed
                  else Inr (s\<lparr>m_blocks := blocks, m_blockIndex := index,
                    bc_timestampIndex := timestamp_add (timestamp (be_bl be)) blockHash (bc_timestampIndex s),
                    bc_generatedIndex := g\<rparr>)))"

text \<open>
  The loop over the transactions of the block: the entry and the state with the size and the fees so far. The
  flag is false when a transaction was refused; then the entry has lost that transaction again.
\<close>

fun push_loop ::
  "chain_env \<Rightarrow> transaction list \<Rightarrow> hash_t list \<Rightarrow> transaction_index \<Rightarrow> block_entry \<Rightarrow> u64 \<Rightarrow> u64 \<Rightarrow> blockchain
   \<Rightarrow> exn + bool \<times> block_entry \<times> u64 \<times> u64 \<times> blockchain" where
  "push_loop env [] hs transactionIndex be sz fees s = Inr (True, be, sz, fees, s)"
| "push_loop env (tx # txs) [] transactionIndex be sz fees s = Inl OutOfRange"
| "push_loop env (tx # txs) (tx_id # hs) transactionIndex be sz fees s =
     (let be1 = be\<lparr>be_transactions := be_transactions be @ [\<lparr>te_tx = tx, m_global_output_indexes = []\<rparr>]\<rparr>;
          blob_size = (case tx_to_bytes tx of None \<Rightarrow> 0 | Some b \<Rightarrow> of_nat (length b));
          fee = getInputAmount tx - getOutputAmount tx
      in case checkTransactionInputs env s tx of
           Inl e \<Rightarrow> Inl e
         | Inr (False, _) \<Rightarrow> Inr (False, be, sz, fees, s)
         | Inr (True, _) \<Rightarrow>
             let transactionIndex = transactionIndex\<lparr>ti_transaction := ti_transaction transactionIndex + 1\<rparr>
             in case pushTransaction be1 tx_id transactionIndex s of
                  Inl e \<Rightarrow> Inl e
                | Inr (_, be2, s) \<Rightarrow> push_loop env txs hs transactionIndex be2 (sz + blob_size) (fees + fee) s)"

text \<open>
  \<open>pushBlock(const block_t&, const std::vector<transaction_t>&, \<dots>)\<close>. The result of \<open>pushTransaction\<close> is not looked
  at, and a block that is too big is refused without taking its transactions back.
\<close>

definition block_accepted :: "chain_env \<Rightarrow> block \<Rightarrow> hash_t \<Rightarrow> u64 \<Rightarrow> blockchain \<Rightarrow> exn + bool" where
  "block_accepted env b blockHash currentDifficulty s =
     (if isCheckpoint (bc_checkpoints s) (getHeight s) then
        Inr (fst (checkpoints_check (bc_checkpoints s) (getHeight s) blockHash))
      else checkProofOfWork (env_slow_hash env) b currentDifficulty)"

definition new_block_entry :: "block \<Rightarrow> block_entry" where
  "new_block_entry b = \<lparr>be_bl = b, be_height = 0, block_cumulative_size = 0, cumulative_difficulty = 0,
     already_generated_coins = 0,
     be_transactions = [\<lparr>te_tx = baseTransaction b, m_global_output_indexes = []\<rparr>]\<rparr>"

definition finish_block ::
  "chain_env \<Rightarrow> block \<Rightarrow> u64 \<Rightarrow> block_entry \<Rightarrow> u64 \<Rightarrow> u64 \<Rightarrow> hash_t \<Rightarrow> block_verification_context \<Rightarrow> blockchain
   \<Rightarrow> exn + bool \<times> block_verification_context \<times> blockchain" where
  "finish_block env b currentDifficulty be cumulative_size fees minerTransactionHash bvc s =
     (case checkCumulativeBlockSize env cumulative_size (of_nat (length (m_blocks s))) of
        Inl e \<Rightarrow> Inl e
      | Inr False \<Rightarrow> Inr (False, bvc_failed bvc, s)
      | Inr True \<Rightarrow>
          let coins = (if m_blocks s = [] then 0 else already_generated_coins (last (m_blocks s)))
          in case validate_miner_transaction env s b cumulative_size coins fees of
               Inl e \<Rightarrow> Inl e
             | Inr None \<Rightarrow>
                 (case popTransactions be minerTransactionHash s of
                    Inl e \<Rightarrow> Inl e
                  | Inr s \<Rightarrow> Inr (False, bvc_failed bvc, s))
             | Inr (Some (reward, emissionChange)) \<Rightarrow>
                 let be = be\<lparr>be_height := of_nat (length (m_blocks s)), block_cumulative_size := cumulative_size,
                       cumulative_difficulty := currentDifficulty
                         + (if m_blocks s = [] then 0 else cumulative_difficulty (last (m_blocks s))),
                       already_generated_coins := coins + emissionChange\<rparr>
                 in case pushEntry be s of
                      Inl e \<Rightarrow> Inl e
                    | Inr s \<Rightarrow>
                        Inr (True, bvc\<lparr>bvc_added_to_main_chain := True\<rparr>, update_next_comulative_size_limit env s))"

definition push_transactions ::
  "chain_env \<Rightarrow> block \<Rightarrow> transaction list \<Rightarrow> u64 \<Rightarrow> block_verification_context \<Rightarrow> blockchain
   \<Rightarrow> exn + bool \<times> block_verification_context \<times> blockchain" where
  "push_transactions env b transactions currentDifficulty bvc s =
     (let minerTransactionHash = tx_hash (baseTransaction b);
          transactionIndex = \<lparr>ti_block = of_nat (length (m_blocks s)), ti_transaction = 0\<rparr>
      in case pushTransaction (new_block_entry b) minerTransactionHash transactionIndex s of
           Inl e \<Rightarrow> Inl e
         | Inr (_, be, s) \<Rightarrow>
             (case push_loop env transactions (transactionHashes b) transactionIndex be (tx_size (baseTransaction b)) 0 s of
                Inl e \<Rightarrow> Inl e
              | Inr (False, be, _, _, s) \<Rightarrow>
                  (case popTransactions be minerTransactionHash s of
                     Inl e \<Rightarrow> Inl e
                   | Inr s \<Rightarrow> Inr (False, bvc_failed bvc, s))
              | Inr (True, be, cumulative_size, fees, s) \<Rightarrow>
                  finish_block env b currentDifficulty be cumulative_size fees minerTransactionHash bvc s))"

definition pushBlock_transactions ::
  "chain_env \<Rightarrow> block \<Rightarrow> transaction list \<Rightarrow> block_verification_context \<Rightarrow> blockchain
   \<Rightarrow> exn + bool \<times> block_verification_context \<times> blockchain" where
  "pushBlock_transactions env b transactions bvc s =
     (case getHash b of
        Inl e \<Rightarrow> Inl e
      | Inr blockHash \<Rightarrow>
          if hasBlock blockHash (m_blockIndex s) then Inr (False, bvc_failed bvc, s)
          else case getTailId s of
            Inl e \<Rightarrow> Inl e
          | Inr tail_id \<Rightarrow>
              if previousBlockHash b \<noteq> tail_id then Inr (False, bvc_failed bvc, s)
              else if \<not> check_block_timestamp_main env s b then Inr (False, bvc_failed bvc, s)
              else case getDifficultyForNextBlock env s of
                Inl e \<Rightarrow> Inl e
              | Inr currentDifficulty \<Rightarrow>
                  if currentDifficulty = 0 then Inr (False, bvc, s)
                  else case block_accepted env b blockHash currentDifficulty s of
                    Inl e \<Rightarrow> Inl e
                  | Inr False \<Rightarrow> Inr (False, bvc_failed bvc, s)
                  | Inr True \<Rightarrow>
                      if \<not> prevalidate_miner_transaction env b (of_nat (length (m_blocks s)))
                      then Inr (False, bvc_failed bvc, s)
                      else push_transactions env b transactions currentDifficulty bvc s)"

subsection \<open>The pool behind the chain\<close>

text \<open>
  The chain is the validator of the pool. A check that throws ends the operation of the pool that asked for it;
  \<open>pool_add\<close> looks for that where \<open>add_tx\<close> reaches the check.
\<close>

definition validator_of :: "chain_env \<Rightarrow> blockchain \<Rightarrow> validator" where
  "validator_of env s =
     \<lparr>v_checkInputs = (\<lambda>tx. case checkTransactionInputs_max env s tx block_info_clear of
         Inl _ \<Rightarrow> (False, block_info_clear) | Inr r \<Rightarrow> r),
      v_recheckInputs = (\<lambda>tx info. case checkTransactionInputs_again env s tx info of
         Inl _ \<Rightarrow> (False, info) | Inr r \<Rightarrow> r),
      v_haveSpentKeyImages = haveTransactionKeyImagesAsSpent s,
      v_checkTransactionSize = checkTransactionSize env s\<rparr>"

definition tvc_new :: tx_verification_context where
  "tvc_new = \<lparr>m_should_be_relayed = False, m_verifivation_failed = False, m_verifivation_impossible = False,
     m_added_to_pool = False, m_tx_fee_too_small = False\<rparr>"

text \<open>\<open>add_tx(tx, context, true)\<close>, which takes the id and the size from the transaction.\<close>

definition pool_add :: "chain_env \<Rightarrow> blockchain \<Rightarrow> transaction \<Rightarrow> tx_pool \<Rightarrow> exn + bool \<times> tx_pool" where
  "pool_add env s tx p =
     (let reaches = check_inputs_types_supported tx \<and> get_outs_money_amount tx \<le> get_inputs_money_amount tx
      in case checkTransactionInputs_max env s tx block_info_clear of
           Inl e \<Rightarrow> if reaches then Inl e else Inr (False, p)
         | Inr _ \<Rightarrow>
             (case add_tx (env_currency env) (validator_of env s) (env_time env) tx (tx_hash tx) (tx_size tx) True tvc_new p of
                Inl e \<Rightarrow> Inl e
              | Inr (r, _, p) \<Rightarrow> Inr (r, p)))"

text \<open>\<open>saveTransactions\<close> takes the transactions from the last to the first; \<open>PoolInconsistent\<close> is its exception.\<close>

fun pool_add_all :: "chain_env \<Rightarrow> blockchain \<Rightarrow> transaction list \<Rightarrow> tx_pool \<Rightarrow> exn + tx_pool" where
  "pool_add_all env s [] p = Inr p"
| "pool_add_all env s (tx # txs) p =
     (case pool_add env s tx p of
        Inl e \<Rightarrow> Inl e
      | Inr (False, p) \<Rightarrow> Inl PoolInconsistent
      | Inr (True, p) \<Rightarrow> pool_add_all env s txs p)"

definition saveTransactions :: "chain_env \<Rightarrow> blockchain \<Rightarrow> transaction list \<Rightarrow> tx_pool \<Rightarrow> exn + tx_pool" where
  "saveTransactions env s transactions p = pool_add_all env s (rev transactions) p"

text \<open>\<open>loadTransactions\<close>; the second argument holds what has been taken, the last first.\<close>

fun loadTransactions ::
  "chain_env \<Rightarrow> blockchain \<Rightarrow> transaction list \<Rightarrow> hash_t list \<Rightarrow> tx_pool \<Rightarrow> exn + transaction list option \<times> tx_pool" where
  "loadTransactions env s taken [] p = Inr (Some (rev taken), p)"
| "loadTransactions env s taken (h # hs) p =
     (case take_tx h p of
        Inl e \<Rightarrow> Inl e
      | Inr (None, p) \<Rightarrow> (case pool_add_all env s taken p of Inl e \<Rightarrow> Inl e | Inr p \<Rightarrow> Inr (None, p))
      | Inr (Some (tx, _, _), p) \<Rightarrow> loadTransactions env s (tx # taken) hs p)"

definition pushBlock ::
  "chain_env \<Rightarrow> block \<Rightarrow> block_verification_context \<Rightarrow> blockchain \<times> tx_pool
   \<Rightarrow> exn + bool \<times> block_verification_context \<times> blockchain \<times> tx_pool" where
  "pushBlock env b bvc sp =
     (case loadTransactions env (fst sp) [] (transactionHashes b) (snd sp) of
        Inl e \<Rightarrow> Inl e
      | Inr (None, p) \<Rightarrow> Inr (False, bvc_failed bvc, fst sp, p)
      | Inr (Some transactions, p) \<Rightarrow>
          (case pushBlock_transactions env b transactions bvc (fst sp) of
             Inl e \<Rightarrow> Inl e
           | Inr (True, bvc, s) \<Rightarrow> Inr (True, bvc, s, p)
           | Inr (False, bvc, s) \<Rightarrow>
               (case saveTransactions env s transactions p of
                  Inl e \<Rightarrow> Inl e
                | Inr p \<Rightarrow> Inr (False, bvc, s, p))))"

subsection \<open>Removing a block\<close>

definition popBlock :: "chain_env \<Rightarrow> hash_t \<Rightarrow> blockchain \<times> tx_pool \<Rightarrow> exn + blockchain \<times> tx_pool" where
  "popBlock env blockHash sp =
     (let s = fst sp; be = last (m_blocks s); b = be_bl be
      in if m_blocks s = [] then Inr sp
         else case saveTransactions env s (map te_tx (tl (be_transactions be))) (snd sp) of
           Inl e \<Rightarrow> Inl e
         | Inr p \<Rightarrow>
             (case popTransactions be (tx_hash (baseTransaction b)) s of
                Inl e \<Rightarrow> Inl e
              | Inr s \<Rightarrow>
                  (case generated_remove b (bc_generatedIndex s) of
                     Inl e \<Rightarrow> Inl e
                   | Inr (_, g) \<Rightarrow>
                       (case bi_pop (m_blockIndex s) of
                          Inl e \<Rightarrow> Inl e
                        | Inr index \<Rightarrow>
                            let blocks = butlast (m_blocks s)
                            in if unat (bi_size index) \<noteq> length blocks then Inl AssertFailed
                               else Inr (s\<lparr>m_blocks := blocks, m_blockIndex := index,
                                 bc_timestampIndex := snd (timestamp_remove (timestamp b) blockHash (bc_timestampIndex s)),
                                 bc_generatedIndex := g\<rparr>, p)))))"

end
