(* ===== verification/Chain.thy ===== *)
theory Chain
  imports Blockchain
begin

text \<open>
  What the main chain keeps true: the caches are those of the transactions of the blocks, added one by one. From
  it follow that no key image and no multisignature output is spent twice, that a refused or removed block leaves
  no trace, and that \<open>rebuildCache\<close> would find the same caches.
\<close>

section \<open>Growing by transactions\<close>

type_synonym ledger_step = "transaction_index \<times> transaction \<times> hash_t"

definition tx_unused :: "blockchain \<Rightarrow> transaction \<Rightarrow> bool" where
  "tx_unused s tx \<longleftrightarrow> (\<forall>r \<in> set (multisig_refs (tx_inputs tx)). \<not> ref_used (m_multisignatureOutputs s) r)"

inductive grows :: "blockchain \<Rightarrow> ledger_step list \<Rightarrow> blockchain \<Rightarrow> bool" for s where
  grows_Nil: "grows s [] s"
| grows_snoc: "grows s xs s1 \<Longrightarrow> m_transactionMap s1 h = None \<Longrightarrow> tx_fresh s1 tx \<Longrightarrow> tx_unused s1 tx
    \<Longrightarrow> added_outputs t tx s1 = Inr (ix, maps) \<Longrightarrow> grows s (xs @ [(t, tx, h)]) (added t tx h maps s1)"

lemma grows_Nil_iff [simp]: "grows s [] s' \<longleftrightarrow> s' = s"
  by (subst grows.simps) auto

lemma grows_snoc_iff:
  "grows s (xs @ [(t, tx, h)]) s' \<longleftrightarrow>
     (\<exists>s1 ix maps. grows s xs s1 \<and> m_transactionMap s1 h = None \<and> tx_fresh s1 tx \<and> tx_unused s1 tx
        \<and> added_outputs t tx s1 = Inr (ix, maps) \<and> s' = added t tx h maps s1)"
  by (subst grows.simps) (auto; blast)

lemma grows_trans: "grows s1 ys s2 \<Longrightarrow> grows s xs s1 \<Longrightarrow> grows s (xs @ ys) s2"
proof (induction rule: grows.induct)
  case (grows_snoc ys s2 h tx t ix maps)
  then show ?case using grows.grows_snoc [of s "xs @ ys" s2 h tx t ix maps] by simp
qed simp

lemma grows_append: "grows s (xs @ ys) s2 \<longleftrightarrow> (\<exists>s1. grows s xs s1 \<and> grows s1 ys s2)"
proof
  show "grows s (xs @ ys) s2 \<Longrightarrow> \<exists>s1. grows s xs s1 \<and> grows s1 ys s2"
  proof (induction ys arbitrary: s2 rule: rev_induct)
    case (snoc y ys)
    obtain t tx h where y: "y = (t, tx, h)" by (cases y)
    from snoc(2) have "grows s ((xs @ ys) @ [(t, tx, h)]) s2" by (simp add: y)
    then obtain s1 ix maps where 1: "grows s (xs @ ys) s1" "m_transactionMap s1 h = None" "tx_fresh s1 tx"
      "tx_unused s1 tx" "added_outputs t tx s1 = Inr (ix, maps)" "s2 = added t tx h maps s1"
      unfolding grows_snoc_iff by blast
    then obtain s0 where "grows s xs s0" "grows s0 ys s1" using snoc(1) by blast
    then show ?case using 1 unfolding y grows_snoc_iff by blast
  qed simp
qed (auto intro: grows_trans)

lemma grows_one:
  "grows s [(t, tx, h)] s' \<longleftrightarrow>
     m_transactionMap s h = None \<and> tx_fresh s tx \<and> tx_unused s tx
     \<and> (\<exists>ix maps. added_outputs t tx s = Inr (ix, maps) \<and> s' = added t tx h maps s)"
  using grows_snoc_iff [of s "[]" t tx h s'] by simp

text \<open>Nothing but the caches changes.\<close>

lemma grows_same:
  assumes "grows s xs s'"
  shows "m_blocks s' = m_blocks s" and "m_blockIndex s' = m_blockIndex s" and "bc_checkpoints s' = bc_checkpoints s"
    and "bc_generatedIndex s' = bc_generatedIndex s" and "bc_timestampIndex s' = bc_timestampIndex s"
    and "bc_orphanIndex s' = bc_orphanIndex s" and "m_alternative_chains s' = m_alternative_chains s"
    and "m_current_block_cumul_sz_limit s' = m_current_block_cumul_sz_limit s"
    and "m_is_in_checkpoint_zone s' = m_is_in_checkpoint_zone s"
  using assms by (induction rule: grows.induct) (simp_all add: added_def)

lemma keys_ok_added:
  "keys_ok (m_outputs s) \<Longrightarrow> added_outputs t tx s = Inr (ix, maps) \<Longrightarrow> keys_ok (m_outputs (added t tx h maps s))"
  using keys_ok_pushes [of t 0 "tx_outputs tx" _ ix maps] by (fastforce simp: added_outputs_def added_def)

lemma grows_keys_ok: "grows s xs s' \<Longrightarrow> keys_ok (m_outputs s) \<Longrightarrow> keys_ok (m_outputs s')"
  by (induction rule: grows.induct) (auto intro: keys_ok_added)

section \<open>Shrinking again\<close>

definition undo :: "ledger_step \<Rightarrow> transaction \<times> hash_t" where
  "undo x = (fst (snd x), snd (snd x))"

lemma undo_simp [simp]: "undo (t, tx, h) = (tx, h)"
  by (simp add: undo_def)

definition has_multisig :: "transaction \<Rightarrow> bool" where
  "has_multisig tx \<longleftrightarrow> (\<exists>out \<in> set (tx_outputs tx). is_multisig out)"

lemma grows_pop:
  assumes "grows s xs s'" and "keys_ok (m_outputs s)"
  shows "pop_each (map undo (rev xs)) s' = Inr s
    \<or> (pop_each (map undo (rev xs)) s' = Inl AssertFailed \<and> (\<exists>x \<in> set (map undo xs). has_multisig (fst x)))"
  using assms
proof (induction rule: grows.induct)
  case (grows_snoc xs s1 h tx t ix maps)
  have "popTransaction tx h (added t tx h maps s1) = Inr s1
    \<or> (popTransaction tx h (added t tx h maps s1) = Inl AssertFailed \<and> has_multisig tx)"
    using popTransaction_added [OF grows_snoc(2,3,5)] grows_snoc(4) grows_keys_ok [OF grows_snoc(1,7)]
    by (auto simp: tx_unused_def has_multisig_def)
  then show ?case using grows_snoc by auto
qed simp

section \<open>What a grown ledger holds\<close>

definition step_images :: "ledger_step list \<Rightarrow> key_image_t list" where
  "step_images xs = concat (map (\<lambda>(t, tx, h). key_images (tx_inputs tx)) xs)"

definition step_refs :: "ledger_step list \<Rightarrow> (u64 \<times> u32) list" where
  "step_refs xs = concat (map (\<lambda>(t, tx, h). multisig_refs (tx_inputs tx)) xs)"

definition step_hashes :: "ledger_step list \<Rightarrow> hash_t list" where
  "step_hashes xs = map (snd \<circ> snd) xs"

lemma step_simps [simp]:
  "step_images [] = []" "step_images (xs @ ys) = step_images xs @ step_images ys"
  "step_images ((t, tx, h) # xs) = key_images (tx_inputs tx) @ step_images xs"
  "step_refs [] = []" "step_refs (xs @ ys) = step_refs xs @ step_refs ys"
  "step_refs ((t, tx, h) # xs) = multisig_refs (tx_inputs tx) @ step_refs xs"
  "step_hashes [] = []" "step_hashes (xs @ ys) = step_hashes xs @ step_hashes ys"
  "step_hashes ((t, tx, h) # xs) = h # step_hashes xs"
  by (simp_all add: step_images_def step_refs_def step_hashes_def)

lemma grows_images:
  assumes "grows s xs s'"
  shows "m_spent_keys s' = m_spent_keys s \<union> set (step_images xs)"
    and "distinct (step_images xs)" and "set (step_images xs) \<inter> m_spent_keys s = {}"
  using assms
  by (induction rule: grows.induct) (auto simp: added_def tx_fresh_def images_fresh_def)

lemma grows_map:
  assumes "grows s xs s'"
  shows "m_transactionMap s' = m_transactionMap s ++ map_of (map (\<lambda>(t, tx, h). (h, t)) xs)"
    and "distinct (step_hashes xs)" and "set (step_hashes xs) \<inter> dom (m_transactionMap s) = {}"
proof -
  have "m_transactionMap s' = m_transactionMap s ++ map_of (map (\<lambda>(t, tx, h). (h, t)) xs)
      \<and> distinct (step_hashes xs) \<and> set (step_hashes xs) \<inter> dom (m_transactionMap s) = {}"
    using assms
  proof (induction rule: grows.induct)
    case (grows_snoc xs s1 h tx t ix maps)
    let ?ts = "map_of (map (\<lambda>(t, tx, h). (h, t)) xs)"
    have h: "m_transactionMap s h = None" "?ts h = None"
      using grows_snoc by (auto simp: map_add_None)
    have "h \<notin> set (step_hashes xs)"
      using h(2) by (force simp: map_of_eq_None_iff step_hashes_def)
    moreover have "m_transactionMap s ++ ([h \<mapsto> t] ++ ?ts) = (m_transactionMap s ++ ?ts)(h \<mapsto> t)"
      using h(2) by (auto simp: fun_eq_iff map_add_def split: option.splits)
    ultimately show ?case using grows_snoc h by (auto simp: added_def)
  qed simp
  then show "m_transactionMap s' = m_transactionMap s ++ map_of (map (\<lambda>(t, tx, h). (h, t)) xs)"
    and "distinct (step_hashes xs)" and "set (step_hashes xs) \<inter> dom (m_transactionMap s) = {}"
    by simp_all
qed

lemma push_output_ref:
  assumes "ref_ok (snd maps) r"
  shows "ref_ok (snd (push_output t i out maps)) r
    \<and> ref_used (snd (push_output t i out maps)) r = ref_used (snd maps) r"
  using assms by (auto simp: push_output_def ref_ok_def ref_used_def nth_append)

lemma push_outputs_ref:
  assumes "push_outputs t i outs maps = Inr (ix, maps')" and "ref_ok (snd maps) r"
  shows "ref_ok (snd maps') r \<and> ref_used (snd maps') r = ref_used (snd maps) r"
  using assms
proof (induction outs arbitrary: i maps ix)
  case (Cons out outs)
  obtain ix1 where "push_outputs t (i + 1) outs (push_output t i out maps) = Inr (ix1, maps')"
    using Cons(2) unfolding push_outputs_Inr by blast
  then show ?case using Cons(1) push_output_ref [OF Cons(3), of t i out] by simp
qed simp

lemma put_all_used:
  "ref_ok m r \<Longrightarrow> ref_used (put_all True rs m) r \<longleftrightarrow> r \<in> set rs \<or> ref_used m r"
  by (induction rs arbitrary: m) (auto simp: ref_used_put)

lemma added_ref:
  assumes "added_outputs t tx s = Inr (ix, maps)" and "ref_ok (m_multisignatureOutputs s) r"
  shows "ref_ok (m_multisignatureOutputs (added t tx h maps s)) r"
    and "ref_used (m_multisignatureOutputs (added t tx h maps s)) r \<longleftrightarrow>
      r \<in> set (multisig_refs (tx_inputs tx)) \<or> ref_used (m_multisignatureOutputs s) r"
  using push_outputs_ref [of t 0 "tx_outputs tx" _ ix maps r] assms
  by (auto simp: added_outputs_def added_def put_all_used)

lemma grows_refs:
  assumes "grows s xs s'"
  shows "distinct (step_refs xs)"
    and "\<And>r. r \<in> set (step_refs xs) \<Longrightarrow> ref_ok (m_multisignatureOutputs s') r \<and> ref_used (m_multisignatureOutputs s') r"
proof -
  have "distinct (step_refs xs) \<and>
      (\<forall>r \<in> set (step_refs xs). ref_ok (m_multisignatureOutputs s') r \<and> ref_used (m_multisignatureOutputs s') r)"
    using assms
  proof (induction rule: grows.induct)
    case (grows_snoc xs s1 h tx t ix maps)
    note ref = added_ref [OF grows_snoc(5)]
    show ?case using grows_snoc ref by (auto simp: tx_fresh_def tx_unused_def)
  qed simp
  then show "distinct (step_refs xs)"
    and "\<And>r. r \<in> set (step_refs xs) \<Longrightarrow> ref_ok (m_multisignatureOutputs s') r \<and> ref_used (m_multisignatureOutputs s') r"
    by auto
qed

section \<open>Growing by a block\<close>

text \<open>What \<open>Core::check_tx_semantic\<close> asks of the inputs of a transaction.\<close>

definition semantic_ok :: "transaction \<Rightarrow> bool" where
  "semantic_ok tx \<longleftrightarrow> distinct (key_images (tx_inputs tx)) \<and> distinct (multisig_refs (tx_inputs tx))"

lemma spend_keys_cases:
  "distinct (key_images ins) \<Longrightarrow> set (key_images ins) \<inter> spent = {} \<Longrightarrow>
   spend_keys earlier ins spent = Inl AssertFailed \<or> (\<exists>spent'. spend_keys earlier ins spent = Inr (True, spent'))"
proof (induction earlier ins spent rule: spend_keys.induct)
  case (2 earlier inp ins spent)
  then show ?case by (cases inp) (auto simp: insert_spent_def)
qed simp

lemma validateInput_True:
  assumes "validateInput env s amount n i ph sigs = Inr True"
  shows "ref_ok (m_multisignatureOutputs s) (amount, i) \<and> \<not> ref_used (m_multisignatureOutputs s) (amount, i)"
proof -
  obtain outs where "m_multisignatureOutputs s amount = Some outs" "\<not> length outs \<le> unat i" "\<not> mou_isUsed (outs ! unat i)"
    using assms unfolding validateInput_def by (auto simp: Let_def split: if_splits option.splits)
  then show ?thesis by (simp add: ref_ok_def ref_used_def vector_at_def)
qed

lemma check_inputs_loop_True:
  "check_inputs_loop env s ph ins sigs pmax = Inr (True, pmax') \<Longrightarrow>
     set (key_images ins) \<inter> m_spent_keys s = {}
     \<and> (\<forall>r \<in> set (multisig_refs ins). ref_ok (m_multisignatureOutputs s) r \<and> \<not> ref_used (m_multisignatureOutputs s) r)"
proof (induction env s ph ins sigs pmax rule: check_inputs_loop.induct)
  case (3 env s ph inp ins sig sigs pmax)
  show ?case
  proof (cases inp)
    case (KeyInput amount offsets img)
    then obtain pmax1 where "\<not> have_tx_keyimg_as_spent s img" "offsets \<noteq> []"
      "check_tx_input env s amount offsets img ph sig pmax = Inr (True, pmax1)"
      "check_inputs_loop env s ph ins sigs pmax1 = Inr (True, pmax')"
      using 3(3) by (auto split: if_splits sum.splits bool.splits)
    then show ?thesis using 3(1) [OF KeyInput, of "(True, pmax1)" True pmax1] KeyInput
      by (auto simp: have_tx_keyimg_as_spent_def)
  next
    case (MultisigInput amount n i)
    then have v: "validateInput env s amount n i ph sig = Inr True" "check_inputs_loop env s ph ins sigs pmax = Inr (True, pmax')"
      using 3(3) by (auto split: sum.splits bool.splits)
    then show ?thesis using 3(2) [OF MultisigInput, of True] MultisigInput validateInput_True [OF v(1)] by auto
  qed (use 3(3) in auto)
qed simp_all

lemma pushTransaction_grows:
  assumes run: "pushTransaction be h t s = Inr (r, be', s')" and new: "m_transactionMap s h = None"
    and tx: "tx = te_tx (be_transactions be ! unat (ti_transaction t))" and sem: "semantic_ok tx"
    and fresh: "set (key_images (tx_inputs tx)) \<inter> m_spent_keys s = {}"
    and refs: "\<forall>r \<in> set (multisig_refs (tx_inputs tx)). ref_ok (m_multisignatureOutputs s) r \<and> \<not> ref_used (m_multisignatureOutputs s) r"
  shows "grows s [(t, tx, h)] s'" and "map te_tx (be_transactions be') = map te_tx (be_transactions be)"
    and "be_bl be' = be_bl be"
proof -
  have len: "unat (ti_transaction t) < length (be_transactions be)"
    using run new by (auto simp: pushTransaction_def Let_def split: if_splits)
  have "spend_keys [] (tx_inputs tx) (m_spent_keys s) \<noteq> Inr (False, x)" for x
    using spend_keys_cases [of "tx_inputs tx" "m_spent_keys s" "[]"] sem fresh by (auto simp: semantic_ok_def)
  then have "r = True"
    using run new len sem
    by (auto simp: pushTransaction_def Let_def checkMultisignatureInputsDiff_iff semantic_ok_def simp flip: tx
        split: if_splits sum.splits bool.splits prod.splits)
  with run obtain ix maps where *: "tx_fresh s tx" "added_outputs t tx s = Inr (ix, maps)" "s' = added t tx h maps s"
    "be' = be\<lparr>be_transactions := (be_transactions be)[unat (ti_transaction t) :=
       (be_transactions be ! unat (ti_transaction t))\<lparr>m_global_output_indexes := ix\<rparr>]\<rparr>"
    unfolding \<open>r = True\<close> pushTransaction_True tx by blast
  show "grows s [(t, tx, h)] s'" using * new refs unfolding grows_one tx_unused_def by blast
  show "map te_tx (be_transactions be') = map te_tx (be_transactions be)"
    using len by (simp add: *(4) map_update)
      (metis length_map list_update_id nth_map)
  show "be_bl be' = be_bl be" by (simp add: *(4))
qed

text \<open>The transactions of one block with their indexes.\<close>

fun indexed :: "u32 \<Rightarrow> u16 \<Rightarrow> (transaction \<times> hash_t) list \<Rightarrow> ledger_step list" where
  "indexed b t [] = []"
| "indexed b t ((tx, h) # xs) = (\<lparr>ti_block = b, ti_transaction = t\<rparr>, tx, h) # indexed b (t + 1) xs"

definition written_size :: "transaction \<Rightarrow> u64" where
  "written_size tx = (case tx_to_bytes tx of None \<Rightarrow> 0 | Some b \<Rightarrow> of_nat (length b))"

definition paid_fee :: "transaction \<Rightarrow> u64" where
  "paid_fee tx = getInputAmount tx - getOutputAmount tx"

lemma grows_Cons: "grows s [x] s1 \<Longrightarrow> grows s1 xs s2 \<Longrightarrow> grows s (x # xs) s2"
  using grows_trans [of s1 xs s2 s "[x]"] by simp

lemma grows_one_dom: "grows s [(t, tx, h)] s' \<Longrightarrow> dom (m_transactionMap s') = insert h (dom (m_transactionMap s))"
  by (auto simp: grows_one added_def)

lemma push_loop_grows:
  assumes "push_loop env txs hs t be sz fees s = Inr (r, be', sz', fees', s')"
    and "unat (ti_transaction t) + 1 = length (be_transactions be)"
    and "length (be_transactions be) + length txs \<le> 65536"
    and "distinct hs" and "set hs \<inter> dom (m_transactionMap s) = {}" and "list_all semantic_ok txs"
  shows "\<exists>k \<le> length txs. k \<le> length hs \<and> (r \<longrightarrow> k = length txs)
    \<and> grows s (indexed (ti_block t) (ti_transaction t + 1) (take k (zip txs hs))) s'
    \<and> map te_tx (be_transactions be') = map te_tx (be_transactions be) @ take k txs \<and> be_bl be' = be_bl be
    \<and> sz' = sz + sum_list (map written_size (take k txs)) \<and> fees' = fees + sum_list (map paid_fee (take k txs))"
  using assms
proof (induction txs arbitrary: hs t be sz fees s)
  case Nil
  then show ?case by auto
next
  case (Cons tx txs)
  obtain h hs' where hs: "hs = h # hs'" using Cons(2) by (cases hs) auto
  note prems = Cons.prems [unfolded hs]
  let ?be1 = "be\<lparr>be_transactions := be_transactions be @ [\<lparr>te_tx = tx, m_global_output_indexes = []\<rparr>]\<rparr>"
  let ?t = "t\<lparr>ti_transaction := ti_transaction t + 1\<rparr>"
  obtain ok pmax where chk: "checkTransactionInputs env s tx = Inr (ok, pmax)"
    using prems(1) by (auto simp: Let_def split: sum.splits)
  show ?case
  proof (cases ok)
    case False
    then have "r = False" "be' = be" "sz' = sz" "fees' = fees" "s' = s" using prems(1) chk by (auto simp: Let_def)
    then show ?thesis by (intro exI [of _ 0]) simp
  next
    case True
    obtain r2 be2 s2 where push: "pushTransaction ?be1 h ?t s = Inr (r2, be2, s2)"
      using prems(1) chk True by (auto simp: Let_def split: sum.splits)
    then have run: "push_loop env txs hs' ?t be2 (sz + written_size tx) (fees + paid_fee tx) s2 = Inr (r, be', sz', fees', s')"
      using prems(1) chk True by (simp add: Let_def written_size_def paid_fee_def)
    have "unat (ti_transaction t + 1) = unat (ti_transaction t) + 1"
      using prems(2,3) by (simp add: unat_word_ariths)
    then have u: "unat (ti_transaction ?t) = length (be_transactions be)" using prems(2) by simp
    have chk': "checkTransactionInputs env s tx = Inr (True, pmax)" using chk True by simp
    note inp = check_inputs_loop_True [OF chk' [unfolded checkTransactionInputs_def]]
    have g: "grows s [(?t, tx, h)] s2" and te: "map te_tx (be_transactions be2) = map te_tx (be_transactions be) @ [tx]"
      and bl: "be_bl be2 = be_bl be"
      using pushTransaction_grows [OF push _ _ _, of tx] u inp prems(5,6) by (auto simp: nth_append)
    have len: "length (be_transactions be2) = length (be_transactions be) + 1"
      using arg_cong [OF te, of length] by simp
    have "\<exists>k \<le> length txs. k \<le> length hs' \<and> (r \<longrightarrow> k = length txs)
      \<and> grows s2 (indexed (ti_block ?t) (ti_transaction ?t + 1) (take k (zip txs hs'))) s'
      \<and> map te_tx (be_transactions be') = map te_tx (be_transactions be2) @ take k txs \<and> be_bl be' = be_bl be2
      \<and> sz' = sz + written_size tx + sum_list (map written_size (take k txs))
      \<and> fees' = fees + paid_fee tx + sum_list (map paid_fee (take k txs))"
      using u len prems(3-6) grows_one_dom [OF g] by (intro Cons.IH [OF run]) auto
    then obtain k where k: "k \<le> length txs" "k \<le> length hs'" "r \<longrightarrow> k = length txs"
      "grows s2 (indexed (ti_block ?t) (ti_transaction ?t + 1) (take k (zip txs hs'))) s'"
      "map te_tx (be_transactions be') = map te_tx (be_transactions be2) @ take k txs" "be_bl be' = be_bl be2"
      "sz' = sz + written_size tx + sum_list (map written_size (take k txs))"
      "fees' = fees + paid_fee tx + sum_list (map paid_fee (take k txs))"
      by blast
    have eta: "\<lparr>ti_block = ti_block t, ti_transaction = ti_transaction t + 1\<rparr> = ?t" by (cases t) simp
    show ?thesis
      using k te bl grows_Cons [OF g k(4)] by (intro exI [of _ "Suc k"]) (simp add: eta hs)
  qed
qed

text \<open>A block whose transactions are new to the chain, with what the pool and the core have made sure of.\<close>

definition block_new :: "block \<Rightarrow> transaction list \<Rightarrow> blockchain \<Rightarrow> bool" where
  "block_new b txs s \<longleftrightarrow>
     map tx_hash txs = transactionHashes b \<and> distinct (tx_hash (baseTransaction b) # transactionHashes b)
     \<and> set (tx_hash (baseTransaction b) # transactionHashes b) \<inter> dom (m_transactionMap s) = {}
     \<and> list_all semantic_ok txs \<and> length txs < 65535"

definition block_steps :: "nat \<Rightarrow> transaction list \<Rightarrow> ledger_step list" where
  "block_steps n txs = indexed (of_nat n) 0 (map (\<lambda>tx. (tx, tx_hash tx)) txs)"

lemma map_undo_indexed [simp]: "map undo (indexed b t xs) = xs"
  by (induction b t xs rule: indexed.induct) simp_all

lemma pop_each_append:
  "pop_each (xs @ ys) s = (case pop_each xs s of Inl e \<Rightarrow> Inl e | Inr s \<Rightarrow> pop_each ys s)"
  by (induction xs s rule: pop_each.induct) (simp_all split: sum.splits)

lemma zip_hashes: "zip txs (map tx_hash txs) = map (\<lambda>tx. (tx, tx_hash tx)) txs"
  by (induction txs) simp_all

lemma popTransactions_grown:
  assumes "map te_tx (be_transactions be) = baseTransaction (be_bl be) # txs"
    and "\<exists>rest. transactionHashes (be_bl be) = map tx_hash txs @ rest"
    and "grows s (block_steps n (baseTransaction (be_bl be) # txs)) s'" and "keys_ok (m_outputs s)"
  shows "popTransactions be (tx_hash (baseTransaction (be_bl be))) s' = Inr s
    \<or> (popTransactions be (tx_hash (baseTransaction (be_bl be))) s' = Inl AssertFailed
        \<and> (\<exists>tx \<in> set (baseTransaction (be_bl be) # txs). has_multisig tx))"
proof -
  let ?b = "be_bl be"
  obtain rest where rest: "transactionHashes ?b = map tx_hash txs @ rest" using assms(2) by blast
  have ne: "be_transactions be \<noteq> []" using assms(1) by auto
  have txs: "map te_tx (tl (be_transactions be)) = txs" using assms(1) by (cases "be_transactions be") auto
  have len: "length (be_transactions be) = Suc (length txs)" using arg_cong [OF assms(1), of length] by simp
  have z: "zip txs (transactionHashes ?b) = map (\<lambda>tx. (tx, tx_hash tx)) txs"
    using zip_append1 [of txs "[]" "transactionHashes ?b"] by (simp add: rest zip_hashes)
  have hl: "\<not> length (transactionHashes ?b) < length txs" by (simp add: rest)
  have pop: "pop_each (rev (map (\<lambda>tx. (tx, tx_hash tx)) (baseTransaction ?b # txs))) s' = Inr s
      \<or> (pop_each (rev (map (\<lambda>tx. (tx, tx_hash tx)) (baseTransaction ?b # txs))) s' = Inl AssertFailed
          \<and> (\<exists>x \<in> set (map (\<lambda>tx. (tx, tx_hash tx)) (baseTransaction ?b # txs)). has_multisig (fst x)))"
    using grows_pop [OF assms(3,4)] unfolding block_steps_def rev_map [symmetric] map_undo_indexed .
  moreover have "popTransactions be (tx_hash (baseTransaction ?b)) s' =
      pop_each (rev (map (\<lambda>tx. (tx, tx_hash tx)) (baseTransaction ?b # txs))) s'"
    using ne hl by (simp add: popTransactions_def Let_def txs z pop_each_append split: sum.splits)
  ultimately show ?thesis by simp
qed

definition block_size :: "block \<Rightarrow> transaction list \<Rightarrow> u64" where
  "block_size b txs = tx_size (baseTransaction b) + sum_list (map written_size txs)"

definition block_fees :: "transaction list \<Rightarrow> u64" where
  "block_fees txs = sum_list (map paid_fee txs)"

text \<open>The one refusal that does not take the transactions of the block back.\<close>

definition oversized :: "chain_env \<Rightarrow> block \<Rightarrow> transaction list \<Rightarrow> blockchain \<Rightarrow> bool" where
  "oversized env b txs s \<longleftrightarrow>
     checkCumulativeBlockSize env (block_size b txs) (of_nat (length (m_blocks s))) = Inr False"

definition completed :: "chain_env \<Rightarrow> block \<Rightarrow> transaction list \<Rightarrow> u64 \<Rightarrow> blockchain \<Rightarrow> block_entry \<Rightarrow> bool" where
  "completed env b txs difficulty s be \<longleftrightarrow>
     be_bl be = b \<and> map te_tx (be_transactions be) = baseTransaction b # txs
     \<and> be_height be = of_nat (length (m_blocks s)) \<and> block_cumulative_size be = block_size b txs
     \<and> cumulative_difficulty be = difficulty + (if m_blocks s = [] then 0 else cumulative_difficulty (last (m_blocks s)))
     \<and> (\<exists>reward emission. validate_miner_transaction env s b (block_size b txs) (getCoinsInCirculation s) (block_fees txs)
           = Inr (Some (reward, emission))
         \<and> already_generated_coins be = getCoinsInCirculation s + emission)"

lemma validate_miner_blocks:
  "m_blocks s' = m_blocks s \<Longrightarrow> validate_miner_transaction env s' = validate_miner_transaction env s"
  by (simp add: fun_eq_iff validate_miner_transaction_def get_last_n_blocks_sizes_def getBackwardBlocksSize_def)

lemma base_pushed:
  assumes "pushTransaction (new_block_entry b) h t s = Inr (r, be, s')" and "ti_transaction t = 0"
    and "tx_inputs (baseTransaction b) = [BaseInput i]" and "m_transactionMap s h = None"
  shows "grows s [(t, baseTransaction b, h)] s'" and "map te_tx (be_transactions be) = [baseTransaction b]"
    and "be_bl be = b"
  using pushTransaction_grows [OF assms(1,4) refl] assms(2,3) by (simp_all add: new_block_entry_def semantic_ok_def)

lemma finish_block_cases:
  assumes run: "finish_block env b diff be sz fees h bvc s1 = Inr (r, bvc', s')"
    and be: "map te_tx (be_transactions be) = baseTransaction b # txs" "be_bl be = b"
    and sizes: "sz = block_size b txs" "fees = block_fees txs" and h: "h = tx_hash (baseTransaction b)"
    and g: "grows s (block_steps n (baseTransaction b # txs)) s1" and n: "n = length (m_blocks s)"
    and new: "block_new b txs s" and keys: "keys_ok (m_outputs s)"
  shows "(\<not> r \<and> s' = s) \<or> (\<not> r \<and> oversized env b txs s \<and> s' = s1) \<or>
    (r \<and> \<not> oversized env b txs s \<and> bvc' = bvc\<lparr>bvc_added_to_main_chain := True\<rparr>
      \<and> (\<exists>be s2. completed env b txs diff s be \<and> pushEntry be s1 = Inr s2
          \<and> s' = update_next_comulative_size_limit env s2))"
proof -
  note same = grows_same [OF g]
  have over: "oversized env b txs s \<longleftrightarrow> checkCumulativeBlockSize env sz (of_nat (length (m_blocks s1))) = Inr False"
    by (simp add: oversized_def same sizes)
  obtain fits where fits: "checkCumulativeBlockSize env sz (of_nat (length (m_blocks s1))) = Inr fits"
    using run by (auto simp: finish_block_def split: sum.splits)
  show ?thesis
  proof (cases fits)
    case False
    then show ?thesis using run fits over by (auto simp: finish_block_def)
  next
    case True
    let ?coins = "getCoinsInCirculation s"
    have coins: "(if m_blocks s1 = [] then 0 else already_generated_coins (last (m_blocks s1))) = ?coins"
      by (simp add: getCoinsInCirculation_def same)
    obtain v where v: "validate_miner_transaction env s1 b sz ?coins fees = Inr v"
      using run fits True by (auto simp: finish_block_def Let_def coins split: sum.splits)
    show ?thesis
    proof (cases v)
      case None
      have pop: "popTransactions be h s1 = Inr s \<or> popTransactions be h s1 = Inl AssertFailed"
        using popTransactions_grown [of be txs s n s1] be g new keys h by (auto simp: block_new_def)
      then show ?thesis using run fits True v None by (auto simp: finish_block_def coins)
    next
      case (Some re)
      obtain reward emission where re: "re = (reward, emission)" by (cases re)
      let ?be = "be\<lparr>be_height := of_nat (length (m_blocks s1)), block_cumulative_size := sz,
                       cumulative_difficulty := diff
                         + (if m_blocks s1 = [] then 0 else cumulative_difficulty (last (m_blocks s1))),
                       already_generated_coins := ?coins + emission\<rparr>"
      obtain s2 where s2: "pushEntry ?be s1 = Inr s2"
        using run fits True v Some re by (auto simp: finish_block_def coins Let_def split: sum.splits)
      have "completed env b txs diff s ?be"
        using v Some re be by (simp add: completed_def same sizes validate_miner_blocks [OF same(1)])
      then show ?thesis
        using run fits True over v Some re s2 by (auto simp: finish_block_def coins Let_def)
    qed
  qed
qed

lemma push_transactions_cases:
  assumes run: "push_transactions env b txs diff bvc s = Inr (r, bvc', s')"
    and base: "tx_inputs (baseTransaction b) = [BaseInput i]"
    and new: "block_new b txs s" and keys: "keys_ok (m_outputs s)"
  shows "(\<not> r \<and> s' = s)
    \<or> (\<not> r \<and> oversized env b txs s \<and> grows s (block_steps (length (m_blocks s)) (baseTransaction b # txs)) s')
    \<or> (r \<and> \<not> oversized env b txs s \<and> bvc' = bvc\<lparr>bvc_added_to_main_chain := True\<rparr>
        \<and> (\<exists>s1 be s2. grows s (block_steps (length (m_blocks s)) (baseTransaction b # txs)) s1
            \<and> completed env b txs diff s be \<and> pushEntry be s1 = Inr s2
            \<and> s' = update_next_comulative_size_limit env s2))"
proof -
  let ?n = "length (m_blocks s)" and ?h = "tx_hash (baseTransaction b)"
  let ?t = "\<lparr>ti_block = of_nat ?n, ti_transaction = 0\<rparr> :: transaction_index"
  obtain r0 be0 s0 where push: "pushTransaction (new_block_entry b) ?h ?t s = Inr (r0, be0, s0)"
    using run by (auto simp: push_transactions_def Let_def split: sum.splits)
  have "m_transactionMap s ?h = None" using new by (auto simp: block_new_def)
  note b0 = base_pushed [OF push _ base this, simplified]
  obtain r1 be1 sz fees s1 where loop:
    "push_loop env txs (transactionHashes b) ?t be0 (tx_size (baseTransaction b)) 0 s0 = Inr (r1, be1, sz, fees, s1)"
    using run push by (auto simp: push_transactions_def Let_def split: sum.splits)
  have len0: "length (be_transactions be0) = 1" using arg_cong [OF b0(2), of length] by simp
  have p: "unat (ti_transaction ?t) + 1 = length (be_transactions be0)" "length (be_transactions be0) + length txs \<le> 65536"
    "distinct (transactionHashes b)" "set (transactionHashes b) \<inter> dom (m_transactionMap s0) = {}" "list_all semantic_ok txs"
    using new len0 unfolding grows_one_dom [OF b0(1)] by (auto simp: block_new_def)
  obtain k where k0: "k \<le> length txs" "r1 \<longrightarrow> k = length txs"
    "grows s0 (indexed (ti_block ?t) (ti_transaction ?t + 1) (take k (zip txs (transactionHashes b)))) s1"
    "map te_tx (be_transactions be1) = map te_tx (be_transactions be0) @ take k txs" "be_bl be1 = be_bl be0"
    "sz = tx_size (baseTransaction b) + sum_list (map written_size (take k txs))"
    "fees = 0 + sum_list (map paid_fee (take k txs))"
    using push_loop_grows [OF loop p] by blast
  then have k: "r1 \<longrightarrow> k = length txs"
    "grows s0 (indexed (of_nat ?n) 1 (take k (zip txs (transactionHashes b)))) s1"
    "map te_tx (be_transactions be1) = baseTransaction b # take k txs" "be_bl be1 = b"
    "sz = tx_size (baseTransaction b) + sum_list (map written_size (take k txs))"
    "fees = sum_list (map paid_fee (take k txs))"
    using b0 by simp_all
  have hashes: "map tx_hash txs = transactionHashes b" using new by (simp add: block_new_def)
  have "take k (zip txs (transactionHashes b)) = map (\<lambda>tx. (tx, tx_hash tx)) (take k txs)"
    by (simp add: zip_hashes take_map flip: hashes)
  then have g: "grows s (block_steps ?n (baseTransaction b # take k txs)) s1"
    using grows_Cons [OF b0(1) k(2)] by (simp add: block_steps_def)
  show ?thesis
  proof (cases r1)
    case True
    then show ?thesis
      using finish_block_cases [of env b diff be1 sz fees ?h bvc s1 r bvc' s' txs s ?n] run push loop k g new keys
      by (auto simp: push_transactions_def Let_def block_size_def block_fees_def)
  next
    case False
    have "\<exists>rest. transactionHashes b = map tx_hash (take k txs) @ rest"
      by (rule exI [of _ "map tx_hash (drop k txs)"]) (simp flip: hashes map_append)
    then have "popTransactions be1 ?h s1 = Inr s \<or> popTransactions be1 ?h s1 = Inl AssertFailed"
      using popTransactions_grown [of be1 "take k txs" s ?n s1] k(3,4) g keys by auto
    then show ?thesis using run push loop False by (auto simp: push_transactions_def Let_def)
  qed
qed

lemma prevalidated_base:
  "prevalidate_miner_transaction env b height \<Longrightarrow> tx_inputs (baseTransaction b) = [BaseInput height]"
  by (cases "tx_inputs (baseTransaction b)"; cases "tl (tx_inputs (baseTransaction b))")
    (auto simp: prevalidate_miner_transaction_def split: transaction_input.splits)

text \<open>What a block has passed when its transactions are added.\<close>

definition block_checked :: "chain_env \<Rightarrow> block \<Rightarrow> hash_t \<Rightarrow> u64 \<Rightarrow> blockchain \<Rightarrow> bool" where
  "block_checked env b blockHash difficulty s \<longleftrightarrow>
     getHash b = Inr blockHash \<and> blockHash \<notin> set (m_blockIndex s) \<and> getTailId s = Inr (previousBlockHash b)
     \<and> check_block_timestamp_main env s b \<and> getDifficultyForNextBlock env s = Inr difficulty \<and> difficulty \<noteq> 0
     \<and> block_accepted env b blockHash difficulty s = Inr True
     \<and> prevalidate_miner_transaction env b (of_nat (length (m_blocks s)))"

lemma pushBlock_transactions_checked:
  assumes "pushBlock_transactions env b txs bvc s = Inr (r, bvc', s')"
  shows "(\<not> r \<and> s' = s) \<or>
    (\<exists>h difficulty. block_checked env b h difficulty s
       \<and> push_transactions env b txs difficulty bvc s = Inr (r, bvc', s'))"
  using assms unfolding pushBlock_transactions_def block_checked_def hasBlock_def
  by (auto split: sum.splits if_splits bool.splits)

lemma pushBlock_transactions_cases:
  assumes "pushBlock_transactions env b txs bvc s = Inr (r, bvc', s')"
    and "block_new b txs s" and "keys_ok (m_outputs s)"
  shows "(\<not> r \<and> s' = s)
    \<or> (\<not> r \<and> oversized env b txs s \<and> grows s (block_steps (length (m_blocks s)) (baseTransaction b # txs)) s')
    \<or> (r \<and> bvc' = bvc\<lparr>bvc_added_to_main_chain := True\<rparr>
        \<and> (\<exists>h difficulty s1 be s2. block_checked env b h difficulty s
            \<and> grows s (block_steps (length (m_blocks s)) (baseTransaction b # txs)) s1
            \<and> completed env b txs difficulty s be \<and> pushEntry be s1 = Inr s2
            \<and> s' = update_next_comulative_size_limit env s2))"
  using pushBlock_transactions_checked [OF assms(1)]
proof (elim disjE exE conjE)
  fix h difficulty
  assume c: "block_checked env b h difficulty s" and run: "push_transactions env b txs difficulty bvc s = Inr (r, bvc', s')"
  have "tx_inputs (baseTransaction b) = [BaseInput (of_nat (length (m_blocks s)))]"
    using c by (auto simp: block_checked_def dest: prevalidated_base)
  from push_transactions_cases [OF run this assms(2,3)] c show ?thesis by blast
qed simp

end
