(* ===== verification/ChainInv.thy ===== *)
theory ChainInv
  imports Chain
begin

text \<open>
  The invariant of the main chain and its consequences: adding and removing blocks keep it, no image and no
  multisignature output is spent twice, the checkpoints hold, and the caches are those \<open>rebuildCache\<close> computes.
\<close>

section \<open>The invariant\<close>

definition entry_txs :: "block_entry \<Rightarrow> transaction list" where
  "entry_txs be = map te_tx (be_transactions be)"

definition chain_steps :: "block_entry list \<Rightarrow> ledger_step list" where
  "chain_steps bes = concat (map (\<lambda>(n, be). block_steps n (entry_txs be)) (enumerate 0 bes))"

lemma chain_steps_simps [simp]:
  "chain_steps [] = []"
  "chain_steps (bes @ [be]) = chain_steps bes @ block_steps (length bes) (entry_txs be)"
  by (simp_all add: chain_steps_def enumerate_append_eq)

definition empty_caches :: "blockchain \<Rightarrow> blockchain" where
  "empty_caches s = s\<lparr>m_transactionMap := Map.empty, m_spent_keys := {}, m_outputs := Map.empty,
     m_multisignatureOutputs := Map.empty, bc_paymentIdIndex := []\<rparr>"

definition stored_ok :: "nat \<Rightarrow> block_entry \<Rightarrow> bool" where
  "stored_ok n be \<longleftrightarrow>
     (\<exists>txs. entry_txs be = baseTransaction (be_bl be) # txs \<and> map tx_hash txs = transactionHashes (be_bl be)
        \<and> list_all semantic_ok txs \<and> length txs < 65535)
     \<and> be_height be = of_nat n \<and> tx_inputs (baseTransaction (be_bl be)) = [BaseInput (of_nat n)]"

definition links_ok :: "block_entry list \<Rightarrow> hash_t list \<Rightarrow> bool" where
  "links_ok bes hs \<longleftrightarrow>
     (\<forall>n < length bes. previousBlockHash (be_bl (bes ! n)) = (if n = 0 then NULL_HASH else hs ! (n - 1)))"

definition index_ok :: "block_entry list \<Rightarrow> hash_t list \<Rightarrow> bool" where
  "index_ok bes hs \<longleftrightarrow> list_all2 (\<lambda>be h. getHash (be_bl be) = Inr h) bes hs \<and> distinct hs"

definition checkpoints_hold :: "checkpoints \<Rightarrow> hash_t list \<Rightarrow> bool" where
  "checkpoints_hold points hs \<longleftrightarrow> (\<forall>n < length hs. fst (checkpoints_check points (of_nat n) (hs ! n)))"

definition indices_ok :: "blockchain \<Rightarrow> bool" where
  "indices_ok s \<longleftrightarrow>
     bc_generatedIndex s = generated_of (map (\<lambda>be. length (transactionHashes (be_bl be))) (m_blocks s))
     \<and> sorted (map fst (bc_timestampIndex s))
     \<and> mset (bc_timestampIndex s) = mset (zip (map (\<lambda>be. timestamp (be_bl be)) (m_blocks s)) (m_blockIndex s))"

definition chain_inv :: "blockchain \<Rightarrow> bool" where
  "chain_inv s \<longleftrightarrow>
     grows (empty_caches s) (chain_steps (m_blocks s)) s
     \<and> (\<forall>n < length (m_blocks s). stored_ok n (m_blocks s ! n))
     \<and> length (m_blocks s) < 4294967296
     \<and> index_ok (m_blocks s) (m_blockIndex s) \<and> links_ok (m_blocks s) (m_blockIndex s)
     \<and> points_ok (bc_checkpoints s) \<and> checkpoints_hold (bc_checkpoints s) (m_blockIndex s)
     \<and> indices_ok s"

lemma index_ok_length: "index_ok bes hs \<Longrightarrow> length hs = length bes"
  by (auto simp: index_ok_def dest: list_all2_lengthD)

lemma keys_ok_chain: "chain_inv s \<Longrightarrow> keys_ok (m_outputs s)"
  by (auto simp: chain_inv_def empty_caches_def dest: grows_keys_ok)

text \<open>The caches of one state in the frame of another.\<close>

definition reframe :: "blockchain \<Rightarrow> blockchain \<Rightarrow> blockchain" where
  "reframe s0 s = s0\<lparr>m_transactionMap := m_transactionMap s, m_spent_keys := m_spent_keys s, m_outputs := m_outputs s,
     m_multisignatureOutputs := m_multisignatureOutputs s, bc_paymentIdIndex := bc_paymentIdIndex s\<rparr>"

lemma grows_reframe: "grows s xs s' \<Longrightarrow> grows (reframe s0 s) xs (reframe s0 s')"
proof (induction rule: grows.induct)
  case (grows_snoc xs s1 h tx t ix maps)
  have "m_transactionMap (reframe s0 s1) h = None" "tx_fresh (reframe s0 s1) tx" "tx_unused (reframe s0 s1) tx"
    "added_outputs t tx (reframe s0 s1) = Inr (ix, maps)"
    using grows_snoc by (simp_all add: reframe_def tx_fresh_def tx_unused_def added_outputs_def)
  moreover have "reframe s0 (added t tx h maps s1) = added t tx h maps (reframe s0 s1)"
    by (simp add: reframe_def added_def)
  ultimately show ?case using grows.grows_snoc [OF grows_snoc.IH] by simp
qed simp

lemma reframe_self: "reframe s s = s"
  by (simp add: reframe_def)

lemma reframe_empty: "reframe s0 (empty_caches s) = empty_caches s0"
  by (simp add: reframe_def empty_caches_def)

section \<open>Adding a block\<close>

lemma index_ok_snoc:
  assumes "index_ok bes hs" and "getHash (be_bl be) = Inr h" and "h \<notin> set hs"
  shows "index_ok (bes @ [be]) (hs @ [h])"
  using assms by (auto simp: index_ok_def intro: list_all2_appendI)

lemma links_ok_snoc:
  assumes "links_ok bes hs" and "length hs = length bes"
    and "previousBlockHash (be_bl be) = (if bes = [] then NULL_HASH else last hs)"
  shows "links_ok (bes @ [be]) (hs @ [h])"
proof -
  have "hs ! (length bes - 1) = last hs" if "bes \<noteq> []"
    using that assms(2) last_conv_nth [of hs] by (cases "hs = []") simp_all
  then show ?thesis
    using assms by (auto simp: links_ok_def nth_append less_Suc_eq)
qed

lemma checkpoints_hold_snoc:
  assumes "checkpoints_hold points hs" and "fst (checkpoints_check points (of_nat (length hs)) h)"
  shows "checkpoints_hold points (hs @ [h])"
  using assms by (auto simp: checkpoints_hold_def nth_append less_Suc_eq)

lemma accepted_checkpoint:
  assumes "block_accepted env b h difficulty s = Inr True" and "points_ok (bc_checkpoints s)"
  shows "fst (checkpoints_check (bc_checkpoints s) (getHeight s) h)"
proof (cases "isCheckpoint (bc_checkpoints s) (getHeight s)")
  case True
  then show ?thesis using assms by (simp add: block_accepted_def)
next
  case False
  then have "map_of (bc_checkpoints s) (getHeight s) = None"
    using isCheckpoint_iff [OF assms(2)] by (force simp: map_of_eq_None_iff)
  then show ?thesis by (simp add: checkpoints_check_def)
qed

lemma indices_ok_snoc:
  assumes "indices_ok s" and "length (m_blockIndex s) = length (m_blocks s)" and "length (m_blocks s) < 4294967295"
    and "tx_inputs (baseTransaction (be_bl be)) = [BaseInput (of_nat (length (m_blocks s)))]"
    and "generated_add (be_bl be) (bc_generatedIndex s) = Inr (r, g)"
  shows "indices_ok (s\<lparr>m_blocks := m_blocks s @ [be], m_blockIndex := m_blockIndex s @ [h],
    bc_timestampIndex := timestamp_add (timestamp (be_bl be)) h (bc_timestampIndex s), bc_generatedIndex := g\<rparr>)"
proof -
  let ?ns = "map (\<lambda>be. length (transactionHashes (be_bl be))) (m_blocks s)"
  have "base_height (be_bl be) = Inr (of_nat (length ?ns))" using assms(4) by (simp add: base_height_def)
  then have "g = generated_of (?ns @ [length (transactionHashes (be_bl be))])"
    using generated_add_of [of ?ns "be_bl be"] assms(1,3,5) by (simp add: indices_ok_def)
  then show ?thesis
    using assms(1,2) by (simp add: indices_ok_def timestamps.add_ok timestamps.add_mset)
qed

lemma getTailId_index:
  "index_ok (m_blocks s) (m_blockIndex s) \<Longrightarrow>
   getTailId s = Inr (if m_blocks s = [] then NULL_HASH else last (m_blockIndex s))"
  using index_ok_length [of "m_blocks s" "m_blockIndex s"] by (auto simp: getTailId_def bi_getTailId_def)

lemma chain_inv_pushEntry:
  assumes inv: "chain_inv s" and new: "block_new b txs s" and c: "block_checked env b h difficulty s"
    and g: "grows s (block_steps (length (m_blocks s)) (baseTransaction b # txs)) s1"
    and be: "completed env b txs difficulty s be" and push: "pushEntry be s1 = Inr s2"
  shows "chain_inv s2" and "m_blocks s2 = m_blocks s @ [be]" and "m_blockIndex s2 = m_blockIndex s @ [h]"
    and "s2 = s1\<lparr>m_blocks := m_blocks s @ [be], m_blockIndex := m_blockIndex s @ [h],
      bc_timestampIndex := timestamp_add (timestamp b) h (bc_timestampIndex s),
      bc_generatedIndex := generated_of (map (\<lambda>be. length (transactionHashes (be_bl be))) (m_blocks s @ [be]))\<rparr>"
proof -
  note same = grows_same [OF g]
  have idx: "index_ok (m_blocks s) (m_blockIndex s)" using inv by (simp add: chain_inv_def)
  note len = index_ok_length [OF idx]
  have bl: "be_bl be = b" and h: "getHash b = Inr h" and h_new: "h \<notin> set (m_blockIndex s)"
    using be c by (simp_all add: completed_def block_checked_def)
  obtain r gen where gen: "generated_add b (bc_generatedIndex s1) = Inr (r, gen)"
    using push h bl by (auto simp: pushEntry_def split: sum.splits)
  have s2: "s2 = s1\<lparr>m_blocks := m_blocks s @ [be], m_blockIndex := m_blockIndex s @ [h],
      bc_timestampIndex := timestamp_add (timestamp b) h (bc_timestampIndex s), bc_generatedIndex := gen\<rparr>"
    and size: "unat (of_nat (Suc (length (m_blocks s))) :: u32) = Suc (length (m_blocks s))"
    using push h h_new bl gen by (auto simp: pushEntry_def Let_def bi_push_def bi_size_def same len split: if_splits)
  have "Suc (length (m_blocks s)) mod 4294967296 = Suc (length (m_blocks s))"
    using size by (simp only: unsigned_of_nat) (simp add: take_bit_eq_mod)
  then have short: "length (m_blocks s) < 4294967295" by arith
  have base: "tx_inputs (baseTransaction b) = [BaseInput (of_nat (length (m_blocks s)))]"
    using c by (auto simp: block_checked_def dest: prevalidated_base)
  show blocks: "m_blocks s2 = m_blocks s @ [be]" and hashes: "m_blockIndex s2 = m_blockIndex s @ [h]"
    by (simp_all add: s2)
  have ind: "indices_ok (s1\<lparr>m_blocks := m_blocks s1 @ [be], m_blockIndex := m_blockIndex s1 @ [h],
      bc_timestampIndex := timestamp_add (timestamp (be_bl be)) h (bc_timestampIndex s1), bc_generatedIndex := gen\<rparr>)"
    using inv short base gen len
    by (intro indices_ok_snoc) (simp_all add: same bl chain_inv_def indices_ok_def)
  then show "s2 = s1\<lparr>m_blocks := m_blocks s @ [be], m_blockIndex := m_blockIndex s @ [h],
      bc_timestampIndex := timestamp_add (timestamp b) h (bc_timestampIndex s),
      bc_generatedIndex := generated_of (map (\<lambda>be. length (transactionHashes (be_bl be))) (m_blocks s @ [be]))\<rparr>"
    by (simp add: s2 indices_ok_def same)
  have txs: "entry_txs be = baseTransaction b # txs" using be by (simp add: completed_def entry_txs_def)
  have "grows (empty_caches s) (chain_steps (m_blocks s) @ block_steps (length (m_blocks s)) (entry_txs be)) s1"
    using inv g by (auto simp: chain_inv_def txs intro: grows_trans)
  from grows_reframe [OF this, of s2]
  have "grows (empty_caches s2) (chain_steps (m_blocks s2)) (reframe s2 s1)"
    by (simp add: reframe_empty blocks)
  moreover have "reframe s2 s1 = s2" by (simp add: s2 reframe_def)
  moreover have "stored_ok (length (m_blocks s)) be"
    using be new base by (simp add: stored_ok_def txs completed_def block_new_def)
  then have "\<forall>n < length (m_blocks s2). stored_ok n (m_blocks s2 ! n)"
    using inv by (auto simp: chain_inv_def blocks nth_append less_Suc_eq)
  moreover have "index_ok (m_blocks s2) (m_blockIndex s2)"
    using idx h h_new by (simp add: blocks hashes index_ok_snoc bl)
  moreover have "links_ok (m_blocks s2) (m_blockIndex s2)"
    using inv c len getTailId_index [OF idx]
    by (auto simp: blocks hashes chain_inv_def block_checked_def bl intro!: links_ok_snoc)
  moreover have "checkpoints_hold (bc_checkpoints s2) (m_blockIndex s2)"
    using inv c len accepted_checkpoint [of env b h difficulty s]
    by (auto simp: hashes s2 same chain_inv_def block_checked_def getHeight_def intro!: checkpoints_hold_snoc)
  ultimately show "chain_inv s2"
    using inv ind short unfolding chain_inv_def by (simp add: s2 same bl)
qed

lemma chain_inv_reframe:
  assumes "chain_inv s" and "reframe s' s = s'" and "m_blocks s' = m_blocks s" and "m_blockIndex s' = m_blockIndex s"
    and "bc_checkpoints s' = bc_checkpoints s" and "bc_timestampIndex s' = bc_timestampIndex s"
    and "bc_generatedIndex s' = bc_generatedIndex s"
  shows "chain_inv s'"
proof -
  have "grows (empty_caches s) (chain_steps (m_blocks s)) s" using assms(1) by (simp add: chain_inv_def)
  from grows_reframe [OF this, of s'] show ?thesis
    using assms unfolding chain_inv_def indices_ok_def by (simp add: reframe_empty)
qed

lemma update_limit_same:
  "\<exists>l. update_next_comulative_size_limit env s = s\<lparr>m_current_block_cumul_sz_limit := l\<rparr>"
  by (auto simp: update_next_comulative_size_limit_def Let_def)

lemma chain_inv_limit: "chain_inv s \<Longrightarrow> chain_inv (s\<lparr>m_current_block_cumul_sz_limit := l\<rparr>)"
  by (rule chain_inv_reframe) (simp_all add: reframe_def)

section \<open>Removing a block\<close>

lemma popBlock_run:
  assumes inv: "chain_inv s" and blocks: "m_blocks s = bes @ [be]"
    and save: "saveTransactions env s (tl (entry_txs be)) p = Inr p'"
  obtains s0 where "grows (empty_caches s) (chain_steps bes) s0"
    and "popBlock env (last (m_blockIndex s)) (s, p) = Inr (s0\<lparr>m_blocks := bes, m_blockIndex := butlast (m_blockIndex s),
        bc_timestampIndex := snd (timestamp_remove (timestamp (be_bl be)) (last (m_blockIndex s)) (bc_timestampIndex s)),
        bc_generatedIndex := generated_of (map (\<lambda>be. length (transactionHashes (be_bl be))) bes)\<rparr>, p')
      \<or> popBlock env (last (m_blockIndex s)) (s, p) = Inl AssertFailed \<and> (\<exists>tx \<in> set (entry_txs be). has_multisig tx)"
proof -
  let ?n = "length bes" and ?b = "be_bl be"
  have ok: "stored_ok ?n be" using inv blocks by (auto simp: chain_inv_def nth_append)
  then obtain txs where txs: "entry_txs be = baseTransaction ?b # txs" "map tx_hash txs = transactionHashes ?b"
    by (auto simp: stored_ok_def)
  have "grows (empty_caches s) (chain_steps bes @ block_steps ?n (entry_txs be)) s"
    using inv blocks by (simp add: chain_inv_def)
  then obtain s0 where g0: "grows (empty_caches s) (chain_steps bes) s0" and g: "grows s0 (block_steps ?n (entry_txs be)) s"
    by (auto simp: grows_append)
  have keys: "keys_ok (m_outputs s0)" using grows_keys_ok [OF g0] by (simp add: empty_caches_def)
  note same = grows_same [OF g]
  have pop: "popTransactions be (tx_hash (baseTransaction ?b)) s = Inr s0
    \<or> (popTransactions be (tx_hash (baseTransaction ?b)) s = Inl AssertFailed \<and> (\<exists>tx \<in> set (entry_txs be). has_multisig tx))"
    using popTransactions_grown [of be txs s0 ?n s] txs g keys by (auto simp: entry_txs_def)
  have short: "?n < 4294967295" using inv blocks by (simp add: chain_inv_def)
  have "base_height ?b = Inr (of_nat ?n)" using ok by (simp add: base_height_def stored_ok_def)
  with short have gen: "generated_remove ?b (bc_generatedIndex s)
      = Inr (True, generated_of (map (\<lambda>be. length (transactionHashes (be_bl be))) bes))"
    using inv generated_remove_of [of "map (\<lambda>be. length (transactionHashes (be_bl be))) bes" ?b] blocks
    by (simp add: chain_inv_def indices_ok_def)
  have len: "length (m_blockIndex s) = Suc ?n"
    using inv blocks by (auto simp: chain_inv_def dest: index_ok_length)
  then have ne: "m_blockIndex s \<noteq> []" by auto
  have len': "unat (bi_size (butlast (m_blockIndex s))) = ?n"
    using short len by (simp add: bi_size_def unsigned_of_nat take_bit_nat_eq_self)
  have save': "saveTransactions env s (map te_tx (tl (be_transactions be))) p = Inr p'"
    using save by (simp add: entry_txs_def map_tl)
  from g0 show ?thesis
    by (rule that) (use pop in \<open>auto simp: popBlock_def blocks Let_def save' same [symmetric] gen bi_pop_def ne len'\<close>)
qed

lemma popBlock_cases:
  assumes inv: "chain_inv s" and blocks: "m_blocks s = bes @ [be]"
    and run: "popBlock env (last (m_blockIndex s)) (s, p) = Inr (s', p')"
  obtains s0 where "grows (empty_caches s) (chain_steps bes) s0"
    and "s' = s0\<lparr>m_blocks := bes, m_blockIndex := butlast (m_blockIndex s),
      bc_timestampIndex := snd (timestamp_remove (timestamp (be_bl be)) (last (m_blockIndex s)) (bc_timestampIndex s)),
      bc_generatedIndex := generated_of (map (\<lambda>be. length (transactionHashes (be_bl be))) bes)\<rparr>"
    and "saveTransactions env s (tl (entry_txs be)) p = Inr p'"
proof -
  obtain q where save: "saveTransactions env s (tl (entry_txs be)) p = Inr q"
    using run by (auto simp: popBlock_def blocks Let_def entry_txs_def map_tl split: sum.splits)
  obtain s0 where g0: "grows (empty_caches s) (chain_steps bes) s0"
    and pop: "popBlock env (last (m_blockIndex s)) (s, p) = Inr (s0\<lparr>m_blocks := bes, m_blockIndex := butlast (m_blockIndex s),
        bc_timestampIndex := snd (timestamp_remove (timestamp (be_bl be)) (last (m_blockIndex s)) (bc_timestampIndex s)),
        bc_generatedIndex := generated_of (map (\<lambda>be. length (transactionHashes (be_bl be))) bes)\<rparr>, q)
      \<or> popBlock env (last (m_blockIndex s)) (s, p) = Inl AssertFailed \<and> (\<exists>tx \<in> set (entry_txs be). has_multisig tx)"
    by (rule popBlock_run [OF inv blocks save])
  show ?thesis by (rule that [OF g0]) (use pop run save in simp_all)
qed

lemma chain_inv_pop:
  assumes inv: "chain_inv s" and blocks: "m_blocks s = bes @ [be]"
    and run: "popBlock env (last (m_blockIndex s)) (s, p) = Inr (s', p')"
  shows "chain_inv s'" and "m_blocks s' = bes" and "m_blockIndex s' = butlast (m_blockIndex s)"
proof -
  let ?h = "last (m_blockIndex s)" and ?hs = "butlast (m_blockIndex s)" and ?t = "timestamp (be_bl be)"
  from popBlock_cases [OF inv blocks run] obtain s0 where g0: "grows (empty_caches s) (chain_steps bes) s0"
    and s': "s' = s0\<lparr>m_blocks := bes, m_blockIndex := ?hs,
      bc_timestampIndex := snd (timestamp_remove ?t ?h (bc_timestampIndex s)),
      bc_generatedIndex := generated_of (map (\<lambda>be. length (transactionHashes (be_bl be))) bes)\<rparr>" .
  note same = grows_same [OF g0]
  have idx: "index_ok (bes @ [be]) (m_blockIndex s)" using inv blocks by (simp add: chain_inv_def)
  then have len: "length (m_blockIndex s) = Suc (length bes)" by (simp add: index_ok_length)
  then have hs: "m_blockIndex s = ?hs @ [?h]" by (metis append_butlast_last_id length_0_conv nat.distinct(1))
  with len have len': "length ?hs = length bes" by simp
  show blocks': "m_blocks s' = bes" and hashes': "m_blockIndex s' = ?hs" by (simp_all add: s')
  have "grows (empty_caches s') (chain_steps bes) (reframe s' s0)"
    using grows_reframe [OF g0, of s'] by (simp add: reframe_empty)
  moreover have "reframe s' s0 = s'" by (simp add: s' reframe_def)
  moreover have "index_ok bes ?hs"
    using idx len' by (subst (asm) hs) (auto simp: index_ok_def list_all2_append)
  moreover have "links_ok bes ?hs"
    using inv len len' by (auto simp: chain_inv_def links_ok_def blocks nth_append nth_butlast less_SucI split: if_splits)
  moreover have "checkpoints_hold (bc_checkpoints s) ?hs"
    using inv len by (auto simp: chain_inv_def checkpoints_hold_def nth_butlast)
  moreover have "sorted (map fst (bc_timestampIndex s'))
     \<and> mset (bc_timestampIndex s') = mset (zip (map (\<lambda>be. timestamp (be_bl be)) bes) ?hs)"
  proof -
    have "mset (bc_timestampIndex s) = mset (zip (map (\<lambda>be. timestamp (be_bl be)) bes @ [?t]) (?hs @ [?h]))"
      using inv hs by (simp add: chain_inv_def indices_ok_def blocks)
    moreover have "sorted (map fst (bc_timestampIndex s))" using inv by (simp add: chain_inv_def indices_ok_def)
    ultimately show ?thesis using len' by (simp add: s' timestamps.remove_ok timestamps.remove_mset)
  qed
  moreover have "\<forall>n < length bes. stored_ok n (bes ! n)"
  proof (intro allI impI)
    fix n assume "n < length bes"
    moreover have "\<forall>n < Suc (length bes). stored_ok n ((bes @ [be]) ! n)" using inv blocks by (simp add: chain_inv_def)
    ultimately show "stored_ok n (bes ! n)" by (metis less_SucI nth_append)
  qed
  ultimately show "chain_inv s'"
    using inv unfolding chain_inv_def indices_ok_def
    by (simp add: blocks' hashes' blocks same s' empty_caches_def)
qed

section \<open>Rebuilding the caches\<close>

text \<open>\<open>rebuildCache\<close> does not touch the index of the payment ids: the other caches of one state in the frame of another.\<close>

definition recast :: "blockchain \<Rightarrow> blockchain \<Rightarrow> blockchain" where
  "recast s0 s = s0\<lparr>m_transactionMap := m_transactionMap s, m_spent_keys := m_spent_keys s, m_outputs := m_outputs s,
     m_multisignatureOutputs := m_multisignatureOutputs s\<rparr>"

lemma recast_index [simp]:
  "m_blockIndex (recast s0 s) = m_blockIndex s0"
  "(recast s0 s)\<lparr>m_blockIndex := hs\<rparr> = recast (s0\<lparr>m_blockIndex := hs\<rparr>) s"
  by (simp_all add: recast_def)

lemma rebuild_transaction_grows:
  assumes "grows s [(t, tx, tx_hash tx)] s'"
  shows "rebuild_transaction t tx (recast s0 s) = Inr (recast s0 s')"
proof -
  obtain ix keys multis where *: "m_transactionMap s (tx_hash tx) = None" "tx_fresh s tx"
    "added_outputs t tx s = Inr (ix, keys, multis)" "s' = added t tx (tx_hash tx) (keys, multis) s"
    using assms by (auto simp: grows_one)
  then have "rebuild_inputs (tx_inputs tx) (m_spent_keys s) (m_multisignatureOutputs s)
      = Inr (m_spent_keys s \<union> set (key_images (tx_inputs tx)),
             put_all True (multisig_refs (tx_inputs tx)) (m_multisignatureOutputs s))"
    by (simp add: rebuild_inputs_Inr tx_fresh_def images_fresh_def)
  with * show ?thesis
    by (simp add: rebuild_transaction_def recast_def tx_fresh_def add_outputs_def added_outputs_def added_def map_insert_def)
qed

lemma rebuild_transactions_grows:
  "grows s (indexed b t (map (\<lambda>tx. (tx, tx_hash tx)) txs)) s' \<Longrightarrow>
   rebuild_transactions b t txs (recast s0 s) = Inr (recast s0 s')"
proof (induction txs arbitrary: t s)
  case (Cons tx txs)
  let ?x = "(\<lparr>ti_block = b, ti_transaction = t\<rparr>, tx, tx_hash tx)"
  have "grows s ([?x] @ indexed b (t + 1) (map (\<lambda>tx. (tx, tx_hash tx)) txs)) s'" using Cons.prems by simp
  then obtain s1 where "grows s [?x] s1" "grows s1 (indexed b (t + 1) (map (\<lambda>tx. (tx, tx_hash tx)) txs)) s'"
    unfolding grows_append by blast
  then show ?case using Cons.IH [of s1 "t + 1"] by (simp add: rebuild_transaction_grows)
qed simp

lemma rebuild_blocks_snoc:
  "rebuild_blocks b (bes @ [be]) s =
     (case rebuild_blocks b bes s of Inl e \<Rightarrow> Inl e | Inr s \<Rightarrow> rebuild_block (b + of_nat (length bes)) be s)"
  by (induction b bes s rule: rebuild_blocks.induct) (simp_all add: algebra_simps split: sum.splits)

lemma rebuild_blocks_grows:
  assumes "grows s (chain_steps bes) s'" and "\<forall>n < length bes. stored_ok n (bes ! n)" and "index_ok bes hs"
  shows "rebuild_blocks 0 bes (recast (s0\<lparr>m_blockIndex := []\<rparr>) s) = Inr (recast (s0\<lparr>m_blockIndex := hs\<rparr>) s')"
  using assms
proof (induction bes arbitrary: s' hs rule: rev_induct)
  case (snoc be bes)
  obtain hs0 h where hs: "hs = hs0 @ [h]" "index_ok bes hs0" "getHash (be_bl be) = Inr h" "h \<notin> set hs0"
    using snoc.prems(3) by (auto simp: index_ok_def list_all2_append1 list_all2_Cons1)
  obtain s1 where s1: "grows s (chain_steps bes) s1" "grows s1 (block_steps (length bes) (entry_txs be)) s'"
    using snoc.prems(1) by (auto simp: grows_append)
  have "\<forall>n < length bes. stored_ok n (bes ! n)" using snoc.prems(2) by (metis less_SucI length_append_singleton nth_append)
  from snoc.IH [OF s1(1) this hs(2)]
  have IH: "rebuild_blocks 0 bes (recast (s0\<lparr>m_blockIndex := []\<rparr>) s) = Inr (recast (s0\<lparr>m_blockIndex := hs0\<rparr>) s1)" .
  have "stored_ok (length bes) be" using snoc.prems(2) by (auto simp: nth_append)
  then have short: "length (be_transactions be) < 65536"
    by (auto simp: stored_ok_def entry_txs_def dest: arg_cong [where f = length])
  have "rebuild_transactions (of_nat (length bes)) 0 (entry_txs be) (recast (s0\<lparr>m_blockIndex := hs\<rparr>) s1)
      = Inr (recast (s0\<lparr>m_blockIndex := hs\<rparr>) s')"
    using s1(2) by (intro rebuild_transactions_grows) (simp add: block_steps_def)
  then show ?case
    unfolding rebuild_blocks_snoc IH using hs short by (simp add: rebuild_block_def bi_push_def entry_txs_def)
qed (simp add: index_ok_def)

lemma rebuildCache_chain:
  assumes "chain_inv s"
  shows "rebuildCache s = Inr s"
proof -
  have "clear_caches s = recast (s\<lparr>m_blockIndex := []\<rparr>) (empty_caches s)"
    by (simp add: clear_caches_def recast_def empty_caches_def)
  moreover have "recast (s\<lparr>m_blockIndex := m_blockIndex s\<rparr>) s = s" by (simp add: recast_def)
  ultimately show ?thesis
    using assms rebuild_blocks_grows [of "empty_caches s" "m_blocks s" s "m_blockIndex s" s]
    by (simp add: rebuildCache_def chain_inv_def)
qed

section \<open>What the chain spends\<close>

lemma grows_det: "grows s xs a \<Longrightarrow> grows s xs b \<Longrightarrow> a = b"
proof (induction xs arbitrary: a b rule: rev_induct)
  case (snoc x xs)
  obtain t tx h where "x = (t, tx, h)" by (cases x)
  with snoc show ?case by (auto simp: grows_snoc_iff) (metis Inr_inject Pair_inject)
qed simp

lemma remove1_mm_emplace: "(k, v) \<notin> set xs \<Longrightarrow> remove1 (k, v) (mm_emplace k v xs) = xs"
  by (induction k v xs rule: mm_emplace.induct) auto

lemma timestamp_remove_add: "(t, h) \<notin> set index \<Longrightarrow> snd (timestamp_remove t h (timestamp_add t h index)) = index"
  by (simp add: timestamp_remove_def timestamp_add_def mm_erase_remove1 remove1_mm_emplace)

end
