(* ===== verification/ChainProps.thy ===== *)
theory ChainProps
  imports ChainInv
begin

text \<open>
  The properties of adding and removing blocks of the main chain, and a sample chain on which they are exercised.
\<close>

section \<open>A sample chain\<close>

definition sample_env :: chain_env where
  "sample_env = \<lparr>env_currency = default_currency, env_time = 1000000,
     env_slow_hash = \<lambda>_ _. NULL_HASH, env_check_ring_signature = \<lambda>_ _ _ _. True, env_check_signature = \<lambda>_ _ _. True\<rparr>"

definition sample_block :: block where
  "sample_block = \<lparr>majorVersion = 1, minorVersion = 0, nonce = 70, timestamp = 0, previousBlockHash = NULL_HASH,
     baseTransaction = \<lparr>tx_version = 1, unlockTime = 60, tx_inputs = [BaseInput 0],
       tx_outputs = [\<lparr>out_amount = 1, out_target = KeyOutput (replicate 32 0)\<rparr>], tx_extra = [],
       signatures = []\<rparr>,
     transactionHashes = []\<rparr>"

lemma sample_checks:
  "check_hash NULL_HASH 1" "tx_size (baseTransaction sample_block) = 41"
  "prevalidate_miner_transaction sample_env sample_block 0"
  "getBlockReward default_currency 0 41 0 0 = Inr (Some (1, 1))" "maxBlockCumulativeSize default_currency 0 = Inr 20480"
  by code_simp+

lemma sample_blob: "\<exists>blob. getBlob sample_block = Inr blob"
  by (simp add: getBlob_def get_block_tree_hash_def get_tx_tree_hash_def tree_hash_def sample_block_def)

lemma sample_fields:
  "previousBlockHash sample_block = NULL_HASH" "transactionHashes sample_block = []" "timestamp sample_block = 0"
  "tx_inputs (baseTransaction sample_block) = [BaseInput 0]"
  "tx_outputs (baseTransaction sample_block) = [\<lparr>out_amount = 1, out_target = KeyOutput (replicate 32 0)\<rparr>]"
  by (simp_all add: sample_block_def)

lemma sample_difficulty: "getDifficultyForNextBlock sample_env blockchain_new = Inr 1"
  by (simp add: getDifficultyForNextBlock_def sample_env_def blockchain_new_def nextDifficulty_def next_difficulty_def
      default_currency_def)

lemma sample_pushed:
  "\<exists>s. pushBlock_transactions sample_env sample_block [] bvc_new blockchain_new
      = Inr (True, bvc_new\<lparr>bvc_added_to_main_chain := True\<rparr>, s)"
proof -
  obtain blob where blob: "getBlob sample_block = Inr blob" using sample_blob by blast
  have hash: "getHash sample_block = Inr (cn_fast_hash (write_string blob))" by (simp add: getHash_def blob)
  have acc: "block_accepted sample_env sample_block (cn_fast_hash (write_string blob)) 1 blockchain_new = Inr True"
    by (simp add: block_accepted_def blockchain_new_def isCheckpoint_def checkProofOfWork_def getLongHash_def blob
        sample_env_def sample_checks)
  let ?t = "\<lparr>ti_block = 0, ti_transaction = 0\<rparr>"
  have push: "\<exists>be s. pushTransaction (new_block_entry sample_block) (tx_hash (baseTransaction sample_block)) ?t blockchain_new
     = Inr (True, be, s) \<and> be_bl be = sample_block \<and> m_blocks s = [] \<and> m_blockIndex s = [] \<and> bc_generatedIndex s = generated_new"
    by (simp add: pushTransaction_def new_block_entry_def blockchain_new_def checkMultisignatureInputsDiff_def
        sample_fields add_outputs_def vector_at_def Let_def)
  then obtain be s where push: "pushTransaction (new_block_entry sample_block) (tx_hash (baseTransaction sample_block)) ?t blockchain_new
     = Inr (True, be, s)" and be: "be_bl be = sample_block" "m_blocks s = []" "m_blockIndex s = []" "bc_generatedIndex s = generated_new"
    by blast
  have "validate_miner_transaction sample_env s sample_block 41 0 0 = Inr (Some (1, 1))"
    by (simp add: validate_miner_transaction_def get_last_n_blocks_sizes_def be medianValue_def sample_fields sample_checks
        sample_env_def)
  moreover have "checkCumulativeBlockSize sample_env 41 0 = Inr True"
    by (simp add: checkCumulativeBlockSize_def sample_env_def sample_checks)
  ultimately have "\<exists>s'. finish_block sample_env sample_block 1 be 41 0 (tx_hash (baseTransaction sample_block)) bvc_new s
      = Inr (True, bvc_new\<lparr>bvc_added_to_main_chain := True\<rparr>, s')"
    by (simp add: finish_block_def be Let_def pushEntry_def hash bi_push_def bi_size_def generated_add_def generated_new_def
        base_height_def sample_fields)
  moreover have "check_block_timestamp_main sample_env blockchain_new sample_block"
    by (simp add: check_block_timestamp_main_def check_block_timestamp_def sample_fields blockchain_new_def sample_env_def
        default_currency_def)
  moreover have "m_blocks blockchain_new = []" "m_blockIndex blockchain_new = []" by (simp_all add: blockchain_new_def)
  ultimately show ?thesis
    using acc push
    by (simp add: pushBlock_transactions_def hash getTailId_def sample_difficulty sample_fields sample_checks
        push_transactions_def hasBlock_def)
qed

lemma chain_inv_new: "chain_inv (blockchain_new\<lparr>bc_checkpoints := points\<rparr>)" if "points_ok points"
  using that
  by (simp add: chain_inv_def blockchain_new_def empty_caches_def index_ok_def links_ok_def checkpoints_hold_def indices_ok_def
      generated_of_def generated_new_def)

lemma chain_inv_sample: "chain_inv blockchain_new"
  using chain_inv_new [of "[]"] by (simp add: points_ok_def blockchain_new_def)

lemma block_new_sample: "block_new sample_block [] blockchain_new"
  by (simp add: block_new_def sample_fields blockchain_new_def)

lemma fits_sample: "\<not> oversized sample_env sample_block [] blockchain_new"
  by (simp add: oversized_def block_size_def sample_checks sample_env_def checkCumulativeBlockSize_def blockchain_new_def)

section \<open>Adding and removing blocks\<close>

lemma pushed_chain:
  assumes "chain_inv s" and "block_new b txs s" and "pushBlock_transactions env b txs bvc s = Inr (True, bvc', s')"
  obtains h difficulty be s1 l where "block_checked env b h difficulty s" and "completed env b txs difficulty s be"
    and "grows s (block_steps (length (m_blocks s)) (baseTransaction b # txs)) s1" and "chain_inv s'"
    and "s' = s1\<lparr>m_blocks := m_blocks s @ [be], m_blockIndex := m_blockIndex s @ [h],
      bc_timestampIndex := timestamp_add (timestamp b) h (bc_timestampIndex s),
      bc_generatedIndex := generated_of (map (\<lambda>be. length (transactionHashes (be_bl be))) (m_blocks s @ [be])),
      m_current_block_cumul_sz_limit := l\<rparr>"
proof -
  obtain h difficulty s1 be s2 where *: "block_checked env b h difficulty s"
    "grows s (block_steps (length (m_blocks s)) (baseTransaction b # txs)) s1"
    "completed env b txs difficulty s be" "pushEntry be s1 = Inr s2" "s' = update_next_comulative_size_limit env s2"
    using pushBlock_transactions_cases [OF assms(3,2) keys_ok_chain [OF assms(1)]] by blast
  obtain l where l: "s' = s2\<lparr>m_current_block_cumul_sz_limit := l\<rparr>" using update_limit_same [of env s2] *(5) by blast
  note pushed = chain_inv_pushEntry [OF assms(1,2) *(1,2,3,4)]
  show ?thesis
    by (rule that [OF *(1,3,2), of l]) (use pushed(1) in \<open>simp add: l chain_inv_limit\<close>, simp add: l pushed(4))
qed








text \<open>The sample block under a limit of no bytes.\<close>

abbreviation tight_env :: chain_env where
  "tight_env \<equiv> sample_env\<lparr>env_currency := default_currency\<lparr>m_maxBlockSizeInitial := 0\<rparr>\<rparr>"


end
