(* ===== verification/Alternatives.thy ===== *)
theory Alternatives
  imports Blockchain
begin

text \<open>
  The alternative chains of \<open>Blockchain\<close> (\<open>src/cryptonote/core/blockchain.cpp\<close>): \<open>addNewBlock\<close>,
  \<open>handle_alternative_block\<close>, \<open>switch_to_alternative_blockchain\<close> and \<open>rollback_blockchain_switching\<close>.
\<close>

section \<open>Definitions\<close>

type_synonym chain_state = "blockchain \<times> tx_pool"
type_synonym alt_chain = "(hash_t \<times> block_entry) list"

subsection \<open>The branch of a block\<close>

text \<open>
  The loop that collects the branch from a block down to the main chain, an entry with its key, the lowest first.
  \<open>None\<close> is a loop that does not end.
\<close>

partial_function (option) alt_walk :: "(hash_t \<rightharpoonup> block_entry) \<Rightarrow> hash_t \<Rightarrow> alt_chain \<Rightarrow> alt_chain option" where
  "alt_walk alts h chain =
     (case alts h of
        None \<Rightarrow> Some chain
      | Some be \<Rightarrow> alt_walk alts (previousBlockHash (be_bl be)) ((h, be) # chain))"

declare alt_walk.simps [code]

primrec complete_loop :: "block_entry list \<Rightarrow> nat \<Rightarrow> nat \<Rightarrow> u64 list" where
  "complete_loop blocks 0 stop_offset = [timestamp (be_bl (blocks ! 0))]"
| "complete_loop blocks (Suc n) stop_offset =
     timestamp (be_bl (blocks ! Suc n)) # (if n = stop_offset then [] else complete_loop blocks n stop_offset)"

definition complete_timestamps_vector :: "chain_env \<Rightarrow> blockchain \<Rightarrow> nat \<Rightarrow> u64 list \<Rightarrow> bool \<times> u64 list" where
  "complete_timestamps_vector env s start_top_height timestamps =
     (let window = unat (m_timestampCheckWindow (env_currency env));
          need_elements = window - length timestamps
      in if window \<le> length timestamps then (True, timestamps)
         else if \<not> start_top_height < length (m_blocks s) then (False, timestamps)
         else
           let stop_offset = (if need_elements < start_top_height then start_top_height - need_elements else 0)
           in (True, timestamps @ complete_loop (m_blocks s) start_top_height stop_offset))"

text \<open>The result 0 is the code's own sign of an internal error.\<close>

definition get_next_difficulty_for_alternative_chain ::
  "chain_env \<Rightarrow> blockchain \<Rightarrow> block_entry list \<Rightarrow> block_entry \<Rightarrow> exn + u64" where
  "get_next_difficulty_for_alternative_chain env s alt_chain bei =
     (let n = difficultyBlocksCount env
      in if length alt_chain < n then
           let main_chain_stop_offset = unat (be_height (if alt_chain \<noteq> [] then hd alt_chain else bei));
               main_chain_count = min (n - min n (length alt_chain)) main_chain_stop_offset;
               main_chain_start_offset = main_chain_stop_offset - main_chain_count;
               main_chain_start_offset = (if main_chain_start_offset = 0 then 1 else main_chain_start_offset);
               main = drop main_chain_start_offset (take main_chain_stop_offset (m_blocks s))
           in if main_chain_start_offset < main_chain_stop_offset \<and> length (m_blocks s) < main_chain_stop_offset
              then Inl OutOfRange
              else if \<not> length alt_chain + length main \<le> n then Inr 0
              else nextDifficulty (env_currency env) (map (\<lambda>be. timestamp (be_bl be)) (main @ alt_chain))
                     (map cumulative_difficulty (main @ alt_chain))
         else if n = 0 \<and> alt_chain \<noteq> [] then Inl OutOfRange
         else
           let top = drop (length alt_chain - n) alt_chain
           in nextDifficulty (env_currency env) (map (\<lambda>be. timestamp (be_bl be)) top) (map cumulative_difficulty top))"

subsection \<open>Switching\<close>

text \<open>
  The loops that take the blocks from a height upwards off the main chain. The index of the loop is unsigned and
  below the height 0 it passes the end of the container.
\<close>

fun disconnect_loop :: "chain_env \<Rightarrow> nat \<Rightarrow> block list \<Rightarrow> chain_state \<Rightarrow> exn + block list \<times> chain_state" where
  "disconnect_loop env 0 disconnected_chain sp = Inr (disconnected_chain, sp)"
| "disconnect_loop env (Suc n) disconnected_chain sp =
     (if m_blocks (fst sp) = [] then Inl OutOfRange
      else
        let b = be_bl (last (m_blocks (fst sp)))
        in case getHash b of
             Inl e \<Rightarrow> Inl e
           | Inr h \<Rightarrow>
               (case popBlock env h sp of
                  Inl e \<Rightarrow> Inl e
                | Inr sp \<Rightarrow> disconnect_loop env n (b # disconnected_chain) sp))"

definition disconnect :: "chain_env \<Rightarrow> nat \<Rightarrow> chain_state \<Rightarrow> exn + block list \<times> chain_state" where
  "disconnect env height sp =
     (case disconnect_loop env (length (m_blocks (fst sp)) - height) [] sp of
        Inl e \<Rightarrow> Inl e
      | Inr r \<Rightarrow> if height = 0 \<or> m_blocks (fst sp) = [] then Inl OutOfRange else Inr r)"

fun reconnect_loop :: "chain_env \<Rightarrow> block list \<Rightarrow> chain_state \<Rightarrow> exn + bool \<times> chain_state" where
  "reconnect_loop env [] sp = Inr (True, sp)"
| "reconnect_loop env (b # bs) sp =
     (case pushBlock env b bvc_new sp of
        Inl e \<Rightarrow> Inl e
      | Inr (r, bvc, sp) \<Rightarrow>
          if \<not> (r \<and> bvc_added_to_main_chain bvc) then Inr (False, sp) else reconnect_loop env bs sp)"

definition rollback_blockchain_switching ::
  "chain_env \<Rightarrow> block list \<Rightarrow> nat \<Rightarrow> chain_state \<Rightarrow> exn + bool \<times> chain_state" where
  "rollback_blockchain_switching env original_chain rollback_height sp =
     (case disconnect env rollback_height sp of
        Inl e \<Rightarrow> Inl e
      | Inr (_, sp) \<Rightarrow> reconnect_loop env original_chain sp)"

text \<open>\<open>m_orthanBlocksIndex.add\<close> and \<open>remove\<close> on a block, and the removal of a branch from the alternatives.\<close>

definition add_orphan :: "block \<Rightarrow> blockchain \<Rightarrow> exn + blockchain" where
  "add_orphan b s =
     (case getHash b of
        Inl e \<Rightarrow> Inl e
      | Inr h \<Rightarrow>
          (case base_height b of
             Inl e \<Rightarrow> Inl e
           | Inr height \<Rightarrow> Inr (s\<lparr>bc_orphanIndex := orphan_add h height (bc_orphanIndex s)\<rparr>)))"

definition remove_orphan :: "block \<Rightarrow> blockchain \<Rightarrow> exn + blockchain" where
  "remove_orphan b s =
     (case getHash b of
        Inl e \<Rightarrow> Inl e
      | Inr h \<Rightarrow>
          (case base_height b of
             Inl e \<Rightarrow> Inl e
           | Inr height \<Rightarrow> Inr (s\<lparr>bc_orphanIndex := snd (orphan_remove h height (bc_orphanIndex s))\<rparr>)))"

fun erase_alternatives :: "alt_chain \<Rightarrow> blockchain \<Rightarrow> exn + blockchain" where
  "erase_alternatives [] s = Inr s"
| "erase_alternatives ((h, be) # chain) s =
     (case remove_orphan (be_bl be) s of
        Inl e \<Rightarrow> Inl e
      | Inr s \<Rightarrow> erase_alternatives chain (s\<lparr>m_alternative_chains := (m_alternative_chains s)(h := None)\<rparr>))"

text \<open>
  The loop that connects the branch: the flag is false after a block was refused, the old chain was put back and
  the rest of the branch was thrown away. Whether the old chain could be put back is not looked at.
\<close>

fun connect_loop ::
  "chain_env \<Rightarrow> block list \<Rightarrow> nat \<Rightarrow> alt_chain \<Rightarrow> chain_state \<Rightarrow> exn + bool \<times> chain_state" where
  "connect_loop env disconnected_chain split_height [] sp = Inr (True, sp)"
| "connect_loop env disconnected_chain split_height ((h, be) # chain) sp =
     (case pushBlock env (be_bl be) bvc_new sp of
        Inl e \<Rightarrow> Inl e
      | Inr (r, bvc, sp) \<Rightarrow>
          if \<not> r \<or> \<not> bvc_added_to_main_chain bvc then
            (case rollback_blockchain_switching env disconnected_chain split_height sp of
               Inl e \<Rightarrow> Inl e
             | Inr (_, s, p) \<Rightarrow>
                 (case erase_alternatives ((h, be) # chain) s of
                    Inl e \<Rightarrow> Inl e
                  | Inr s \<Rightarrow> Inr (False, s, p)))
          else connect_loop env disconnected_chain split_height chain sp)"

text \<open>
  The loop that keeps the old chain as an alternative; \<open>handle\<close> is \<open>handle_alternative_block\<close> without its message.
\<close>

type_synonym alt_handler =
  "block \<Rightarrow> hash_t \<Rightarrow> block_verification_context \<Rightarrow> chain_state \<Rightarrow> exn + bool \<times> block_verification_context \<times> chain_state"

fun keep_loop :: "alt_handler \<Rightarrow> block list \<Rightarrow> chain_state \<Rightarrow> exn + bool \<times> chain_state" where
  "keep_loop handle [] sp = Inr (True, sp)"
| "keep_loop handle (b # bs) sp =
     (case getHash b of
        Inl e \<Rightarrow> Inl e
      | Inr h \<Rightarrow>
          (case handle b h bvc_new sp of
             Inl e \<Rightarrow> Inl e
           | Inr (r, _, sp) \<Rightarrow> if \<not> r then Inr (False, sp) else keep_loop handle bs sp))"

definition switch_to_alternative_blockchain ::
  "chain_env \<Rightarrow> alt_handler \<Rightarrow> alt_chain \<Rightarrow> bool \<Rightarrow> chain_state \<Rightarrow> exn + bool \<times> chain_state" where
  "switch_to_alternative_blockchain env handle alt_chain discard_disconnected_chain sp =
     (let split_height = unat (be_height (snd (hd alt_chain)))
      in if alt_chain = [] then Inr (False, sp)
         else if \<not> split_height < length (m_blocks (fst sp)) then Inr (False, sp)
         else
           case disconnect env split_height sp of
             Inl e \<Rightarrow> Inl e
           | Inr (disconnected_chain, sp) \<Rightarrow>
               (case connect_loop env disconnected_chain split_height alt_chain sp of
                  Inl e \<Rightarrow> Inl e
                | Inr (False, sp) \<Rightarrow> Inr (False, sp)
                | Inr (True, sp) \<Rightarrow>
                    (case (if discard_disconnected_chain then Inr (True, sp) else keep_loop handle disconnected_chain sp) of
                       Inl e \<Rightarrow> Inl e
                     | Inr (False, sp) \<Rightarrow>
                         (case rollback_blockchain_switching env disconnected_chain split_height sp of
                            Inl e \<Rightarrow> Inl e
                          | Inr (_, sp) \<Rightarrow> Inr (False, sp))
                     | Inr (True, s, p) \<Rightarrow>
                         (case erase_alternatives alt_chain s of
                            Inl e \<Rightarrow> Inl e
                          | Inr s \<Rightarrow> Inr (True, s, p)))))"

subsection \<open>A block that does not extend the main chain\<close>

text \<open>
  The timestamps the block is compared with: those of its branch and, below it, of the main chain. \<open>None\<close> is a
  branch that does not connect to the main chain.
\<close>

definition branch_timestamps :: "chain_env \<Rightarrow> blockchain \<Rightarrow> alt_chain \<Rightarrow> u32 option \<Rightarrow> exn + u64 list option" where
  "branch_timestamps env s alt_chain mainPrev =
     (let timestamps = map (\<lambda>(_, be). timestamp (be_bl be)) (rev alt_chain)
      in if alt_chain \<noteq> [] then
           let front = snd (hd alt_chain)
           in if \<not> unat (be_height front) < length (m_blocks s) then Inr None
              else
                case block_at s (unat (be_height front - 1)) of
                  Inl e \<Rightarrow> Inl e
                | Inr be \<Rightarrow>
                    (case getHash (be_bl be) of
                       Inl e \<Rightarrow> Inl e
                     | Inr h \<Rightarrow>
                         if h \<noteq> previousBlockHash (be_bl front) then Inr None
                         else Inr (Some (snd (complete_timestamps_vector env s (unat (be_height front - 1)) timestamps))))
         else
           case mainPrev of
             None \<Rightarrow> Inr None
           | Some mainPrevHeight \<Rightarrow>
               Inr (Some (snd (complete_timestamps_vector env s (unat mainPrevHeight) timestamps))))"

text \<open>
  The end of \<open>handle_alternative_block\<close>: the block is entered among the alternatives, and the main chain is switched to
  its branch when it is a checkpoint or has more work behind it.
\<close>

definition enter_alternative ::
  "chain_env \<Rightarrow> alt_handler \<Rightarrow> alt_chain \<Rightarrow> block_entry \<Rightarrow> bool \<Rightarrow> hash_t \<Rightarrow> block_verification_context \<Rightarrow> chain_state
   \<Rightarrow> exn + bool \<times> block_verification_context \<times> chain_state" where
  "enter_alternative env handle alt_chain bei is_a_checkpoint h bvc sp =
     (let (s, p) = sp
      in if m_alternative_chains s h \<noteq> None then Inr (False, bvc, s, p)
         else
           case add_orphan (be_bl bei) (s\<lparr>m_alternative_chains := (m_alternative_chains s)(h \<mapsto> bei)\<rparr>) of
             Inl e \<Rightarrow> Inl e
           | Inr s \<Rightarrow>
               if m_blocks s = [] \<and> \<not> is_a_checkpoint then Inl OutOfRange
               else if is_a_checkpoint \<or> cumulative_difficulty (last (m_blocks s)) < cumulative_difficulty bei then
                 (case switch_to_alternative_blockchain env handle (alt_chain @ [(h, bei)]) is_a_checkpoint (s, p) of
                    Inl e \<Rightarrow> Inl e
                  | Inr (True, sp) \<Rightarrow>
                      Inr (True, bvc\<lparr>bvc_added_to_main_chain := True, bvc_switched_to_alt_chain := True\<rparr>, sp)
                  | Inr (False, sp) \<Rightarrow> Inr (False, bvc_failed bvc, sp))
               else Inr (True, bvc, s, p))"

definition connect_alternative ::
  "chain_env \<Rightarrow> alt_handler \<Rightarrow> alt_chain \<Rightarrow> u32 option \<Rightarrow> block \<Rightarrow> hash_t \<Rightarrow> block_verification_context \<Rightarrow> chain_state
   \<Rightarrow> exn + bool \<times> block_verification_context \<times> chain_state" where
  "connect_alternative env handle alt_chain mainPrev b h bvc sp =
     (let (s, p) = sp
      in case branch_timestamps env s alt_chain mainPrev of
           Inl e \<Rightarrow> Inl e
         | Inr None \<Rightarrow> Inr (False, bvc, s, p)
         | Inr (Some timestamps) \<Rightarrow>
             if \<not> check_block_timestamp env timestamps b then Inr (False, bvc_failed bvc, s, p)
             else
               let mainPrevHeight = (case mainPrev of None \<Rightarrow> 0 | Some i \<Rightarrow> i);
                   height = (if alt_chain \<noteq> [] then be_height (snd (last alt_chain)) + 1 else mainPrevHeight + 1);
                   bei = \<lparr>be_bl = b, be_height = height, block_cumulative_size = 0, cumulative_difficulty = 0,
                          already_generated_coins = 0, be_transactions = []\<rparr>;
                   (ok, is_a_checkpoint) = checkpoints_check (bc_checkpoints s) height h
               in if \<not> ok then Inr (False, bvc_failed bvc, s, p)
                  else
                    let s = s\<lparr>m_is_in_checkpoint_zone := False\<rparr>
                    in case get_next_difficulty_for_alternative_chain env s (map snd alt_chain) bei of
                         Inl e \<Rightarrow> Inl e
                       | Inr current_diff \<Rightarrow>
                           if current_diff = 0 then Inr (False, bvc, s, p)
                           else case checkProofOfWork (env_slow_hash env) b current_diff of
                             Inl e \<Rightarrow> Inl e
                           | Inr False \<Rightarrow> Inr (False, bvc_failed bvc, s, p)
                           | Inr True \<Rightarrow>
                               if \<not> prevalidate_miner_transaction env b height then Inr (False, bvc_failed bvc, s, p)
                               else
                                 (case (if alt_chain \<noteq> [] then Inr (cumulative_difficulty (snd (last alt_chain)))
                                        else case block_at s (unat mainPrevHeight) of
                                          Inl e \<Rightarrow> Inl e | Inr be \<Rightarrow> Inr (cumulative_difficulty be)) of
                                    Inl e \<Rightarrow> Inl e
                                  | Inr work \<Rightarrow>
                                      enter_alternative env handle alt_chain (bei\<lparr>cumulative_difficulty := work + current_diff\<rparr>)
                                        is_a_checkpoint h bvc (s, p)))"

text \<open>
  \<open>handle_alternative_block\<close>. The switch it may start enters the blocks of the old chain through the same function;
  the first argument bounds how deep such switches may nest.
\<close>

primrec handle_alternative_block :: "nat \<Rightarrow> chain_env \<Rightarrow> alt_handler" where
  "handle_alternative_block 0 env = (\<lambda>b h bvc sp. Inl DoesNotReturn)"
| "handle_alternative_block (Suc n) env = (\<lambda>b h bvc sp.
     let (s, p) = sp; block_height = get_block_height b
     in if block_height = 0 then Inr (False, bvc_failed bvc, s, p)
        else if \<not> isAllowed (bc_checkpoints s) (getHeight s) block_height then Inr (False, bvc_failed bvc, s, p)
        else case getBlockCumulativeSize s p b of
          Inl e \<Rightarrow> Inl e
        | Inr (_, cumulativeSize) \<Rightarrow>
            (case checkCumulativeBlockSize env cumulativeSize (ucast block_height) of
               Inl e \<Rightarrow> Inl e
             | Inr False \<Rightarrow> Inr (False, bvc_failed bvc, s, p)
             | Inr True \<Rightarrow>
                 let mainPrev = getBlockHeight (previousBlockHash b) (m_blockIndex s)
                 in if m_alternative_chains s (previousBlockHash b) \<noteq> None \<or> mainPrev \<noteq> None then
                      (case alt_walk (m_alternative_chains s) (previousBlockHash b) [] of
                         None \<Rightarrow> Inl DoesNotReturn
                       | Some alt_chain \<Rightarrow>
                           connect_alternative env (handle_alternative_block n env) alt_chain mainPrev b h bvc (s, p))
                    else Inr (True, bvc\<lparr>bvc_marked_as_orphaned := True\<rparr>, s, p)))"

definition addNewBlock :: "nat \<Rightarrow> chain_env \<Rightarrow> block \<Rightarrow> block_verification_context \<Rightarrow> chain_state
   \<Rightarrow> exn + bool \<times> block_verification_context \<times> chain_state" where
  "addNewBlock n env bl bvc sp =
     (case getHash bl of
        Inl e \<Rightarrow> Inl e
      | Inr h \<Rightarrow>
          if haveBlock (fst sp) h then Inr (False, bvc\<lparr>bvc_already_exists := True\<rparr>, sp)
          else case getTailId (fst sp) of
            Inl e \<Rightarrow> Inl e
          | Inr tail \<Rightarrow>
              if previousBlockHash bl \<noteq> tail
              then handle_alternative_block n env bl h (bvc\<lparr>bvc_added_to_main_chain := False\<rparr>) sp
              else pushBlock env bl bvc sp)"

end
