(* ===== verification/Shuffle.thy ===== *)
theory Shuffle
  imports Prelude "HOL-Library.Multiset"
begin

text \<open>
  \<open>ShuffleGenerator\<close> of \<open>src/common/ShuffleGenerator.h\<close>: the numbers below a bound in random order, without
  holding the table of the numbers.
\<close>

section \<open>Definitions\<close>

record shuffle =
  sg_selected :: "u64 \<rightharpoonup> u64"
  sg_count :: u64

definition shuffle_new :: "u64 \<Rightarrow> shuffle" where
  "shuffle_new n = \<lparr>sg_selected = Map.empty, sg_count = n\<rparr>"

text \<open>\<open>draw\<close> stands for the random engine behind \<open>std::uniform_int_distribution\<close>; it is given the bound.\<close>

definition shuffle_next :: "(u64 \<Rightarrow> u64) \<Rightarrow> shuffle \<Rightarrow> exn + u64 \<times> shuffle" where
  "shuffle_next draw g =
     (if sg_count g = 0 then Inl OutOfRange
      else
        let cnt = sg_count g - 1;
            val = draw cnt;
            rval = (case sg_selected g cnt of Some v \<Rightarrow> v | None \<Rightarrow> cnt)
        in case sg_selected g val of
             Some v \<Rightarrow> Inr (v, \<lparr>sg_selected = (sg_selected g)(val \<mapsto> rval), sg_count = cnt\<rparr>)
           | None \<Rightarrow> Inr (val, \<lparr>sg_selected = (sg_selected g)(val \<mapsto> rval), sg_count = cnt\<rparr>))"

definition shuffle_reset :: "u64 \<Rightarrow> shuffle \<Rightarrow> shuffle" where
  "shuffle_reset n g = g\<lparr>sg_count := n, sg_selected := Map.empty\<rparr>"

text \<open>A run of the generator, one engine per call.\<close>

fun shuffle_run :: "(u64 \<Rightarrow> u64) list \<Rightarrow> shuffle \<Rightarrow> exn + u64 list \<times> shuffle" where
  "shuffle_run [] g = Inr ([], g)"
| "shuffle_run (draw # draws) g =
     (case shuffle_next draw g of
        Inl e \<Rightarrow> Inl e
      | Inr (v, g) \<Rightarrow> (case shuffle_run draws g of Inl e \<Rightarrow> Inl e | Inr (vs, g) \<Rightarrow> Inr (v # vs, g)))"

section \<open>The generator shuffles\<close>

text \<open>The table the generator stands for: position \<open>i\<close> holds \<open>i\<close> unless something was moved there.\<close>

definition slot :: "shuffle \<Rightarrow> nat \<Rightarrow> u64" where
  "slot g i = (case sg_selected g (of_nat i) of Some v \<Rightarrow> v | None \<Rightarrow> of_nat i)"

definition remaining :: "shuffle \<Rightarrow> u64 list" where
  "remaining g = map (slot g) [0..<unat (sg_count g)]"

lemma below_u64: "k < unat (n :: u64) \<Longrightarrow> unat (of_nat k :: u64) = k"
  using unat_lt64 [of n] by (simp add: unat_of_nat_u64)

lemma take_slot:
  assumes "i \<le> n"
  shows "mset (map (\<lambda>j. if j = i then f n else f j) [0..<n]) = mset (map f [0..<Suc n]) - {#f i#}"
proof (cases "i = n")
  case True
  then have eq: "map (\<lambda>j. if j = i then f n else f j) [0..<n] = map f [0..<n]" by simp
  show ?thesis unfolding eq using True by simp
next
  case False
  then have i: "i < n" using assms by simp
  have "[0..<n] = [0..<i] @ i # [Suc i..<n]" using i upt_add_eq_append [of 0 i "n - i"] by (simp add: upt_conv_Cons)
  then have "map (\<lambda>j. if j = i then f n else f j) [0..<n] = map f [0..<i] @ f n # map f [Suc i..<n]"
    and "map f [0..<Suc n] = map f [0..<i] @ f i # map f [Suc i..<n] @ [f n]" by simp_all
  then show ?thesis by (simp del: mset_map)
qed

lemma shuffle_next_remaining:
  assumes "sg_count g \<noteq> 0" and "draw (sg_count g - 1) \<le> sg_count g - 1"
  obtains v g' where "shuffle_next draw g = Inr (v, g')" and "sg_count g' = sg_count g - 1"
    and "mset (remaining g) = add_mset v (mset (remaining g'))"
proof -
  define n where "n = unat (sg_count g - 1)"
  have count: "unat (sg_count g) = Suc n" using assms(1) unat_gt_0 [of "sg_count g"] by (simp add: n_def unat_minus_one)
  define i where "i = unat (draw (sg_count g - 1))"
  have i: "i \<le> n" using assms(2) by (simp add: i_def n_def word_le_nat_alt)
  have of_i: "of_nat i = draw (sg_count g - 1)" and of_n: "of_nat n = sg_count g - 1" by (simp_all add: i_def n_def)
  define g' where "g' = \<lparr>sg_selected = (sg_selected g)(of_nat i \<mapsto> slot g n), sg_count = sg_count g - 1\<rparr>"
  have run: "shuffle_next draw g = Inr (slot g i, g')"
    using assms(1) by (auto simp: shuffle_next_def Let_def g'_def slot_def of_i of_n split: option.splits)
  have "slot g' j = (if j = i then slot g n else slot g j)" if "j < n" for j
  proof -
    have "of_nat j = (of_nat i :: u64) \<longleftrightarrow> j = i"
    proof -
      have "unat (of_nat i :: u64) = i" "unat (of_nat j :: u64) = j"
        using below_u64 [of j "sg_count g"] that count by (simp_all add: i_def)
      then show ?thesis by metis
    qed
    then show ?thesis by (simp add: slot_def g'_def)
  qed
  then have "remaining g' = map (\<lambda>j. if j = i then slot g n else slot g j) [0..<n]"
    by (simp add: remaining_def g'_def n_def)
  then have "mset (remaining g') = mset (remaining g) - {#slot g i#}"
    using take_slot [OF i, of "slot g"] by (simp add: remaining_def count)
  moreover have "slot g i \<in># mset (remaining g)" using i by (simp add: remaining_def count del: upt_Suc)
  ultimately show ?thesis using that [OF run] by (simp add: g'_def)
qed

text \<open>
  C36: called as often as its bound says, the generator returns every number below the bound exactly once,
  whatever the random engine draws within its bounds.
\<close>

theorem shuffle_permutation:
  assumes "list_all (\<lambda>draw. \<forall>bound. draw bound \<le> bound) draws" and "length draws = unat n"
  shows "\<exists>vs g. shuffle_run draws (shuffle_new n) = Inr (vs, g) \<and> distinct vs \<and> set vs = {v. v < n} \<and> sg_count g = 0"
proof -
  have run: "\<exists>vs g'. shuffle_run draws g = Inr (vs, g') \<and> sg_count g' = 0 \<and> mset vs = mset (remaining g)"
    if "list_all (\<lambda>draw. \<forall>bound. draw bound \<le> bound) draws" "length draws = unat (sg_count g)" for draws g
    using that
  proof (induction draws arbitrary: g)
    case Nil
    then show ?case by (simp add: remaining_def unat_eq_zero)
  next
    case (Cons draw draws)
    then have "sg_count g \<noteq> 0" "draw (sg_count g - 1) \<le> sg_count g - 1" by auto
    then obtain v g' where g': "shuffle_next draw g = Inr (v, g')" "sg_count g' = sg_count g - 1"
      "mset (remaining g) = add_mset v (mset (remaining g'))" by (rule shuffle_next_remaining)
    have "length draws = unat (sg_count g')"
      using Cons.prems(2) g'(2) \<open>sg_count g \<noteq> 0\<close> by (simp add: unat_minus_one)
    then show ?case using Cons.IH [of g'] Cons.prems(1) g' by auto
  qed
  have rem: "remaining (shuffle_new n) = map of_nat [0..<unat n]"
    by (simp add: remaining_def shuffle_new_def slot_def)
  obtain vs g where vs: "shuffle_run draws (shuffle_new n) = Inr (vs, g)" "sg_count g = 0"
    "mset vs = mset (map of_nat [0..<unat n] :: u64 list)"
    using run [OF assms(1), of "shuffle_new n"] assms(2) by (auto simp: shuffle_new_def rem [unfolded shuffle_new_def])
  have "distinct (map of_nat [0..<unat n] :: u64 list)"
    by (auto simp: distinct_map inj_on_def dest: arg_cong [where f = unat] simp: below_u64)
  moreover have "set (map of_nat [0..<unat n] :: u64 list) = {v. v < n}"
  proof (intro set_eqI iffI)
    fix v :: u64
    assume "v \<in> {v. v < n}"
    then show "v \<in> set (map of_nat [0..<unat n])" by (auto simp: word_less_nat_alt intro!: image_eqI [of _ _ "unat v"])
  qed (auto simp: word_less_nat_alt below_u64)
  ultimately show ?thesis using vs by (metis mset_eq_imp_distinct_iff mset_eq_setD)
qed

theorem shuffle_permutation_witness:
  "\<exists>vs g. shuffle_run [\<lambda>b. 0, \<lambda>b. b, \<lambda>b. 0] (shuffle_new 3) = Inr (vs, g) \<and> distinct vs \<and> set vs = {v. v < 3}"
  using shuffle_permutation [of "[\<lambda>b. 0, \<lambda>b. b, \<lambda>b. 0]" 3] by auto

end
