(* ===== verification/Queries.thy ===== *)
theory Queries
  imports Alternatives Shuffle
begin

text \<open>
  The rest of \<open>Blockchain\<close> (\<open>src/cryptonote/core/blockchain.cpp\<close>): what the node and its clients ask the chain,
  and how the chain is set up.
\<close>

section \<open>Definitions\<close>

subsection \<open>Blocks\<close>

definition getBlockIdByHeight :: "blockchain \<Rightarrow> u32 \<Rightarrow> exn + hash_t" where
  "getBlockIdByHeight s height =
     (if \<not> height < bi_size (m_blockIndex s) then Inl AssertFailed else getBlockId height (m_blockIndex s))"

definition getTailId_height :: "blockchain \<Rightarrow> exn + hash_t \<times> u32" where
  "getTailId_height s =
     (if m_blocks s = [] then Inl AssertFailed
      else case getTailId s of Inl e \<Rightarrow> Inl e | Inr h \<Rightarrow> Inr (h, getHeight s - 1))"

definition getBlockByHash :: "blockchain \<Rightarrow> hash_t \<Rightarrow> exn + block option" where
  "getBlockByHash s blockHash =
     (case getBlockHeight blockHash (m_blockIndex s) of
        Some height \<Rightarrow>
          (case block_at s (unat height) of Inl e \<Rightarrow> Inl e | Inr be \<Rightarrow> Inr (Some (be_bl be)))
      | None \<Rightarrow> Inr (map_option be_bl (m_alternative_chains s blockHash)))"

definition getAlreadyGeneratedCoins :: "blockchain \<Rightarrow> hash_t \<Rightarrow> exn + u64 option" where
  "getAlreadyGeneratedCoins s h =
     (case getBlockHeight h (m_blockIndex s) of
        Some height \<Rightarrow>
          (case block_at s (unat height) of Inl e \<Rightarrow> Inl e | Inr be \<Rightarrow> Inr (Some (already_generated_coins be)))
      | None \<Rightarrow> Inr (map_option already_generated_coins (m_alternative_chains s h)))"

definition getBlockSize :: "blockchain \<Rightarrow> hash_t \<Rightarrow> exn + u64 option" where
  "getBlockSize s h =
     (case getBlockHeight h (m_blockIndex s) of
        Some height \<Rightarrow>
          (case block_at s (unat height) of Inl e \<Rightarrow> Inl e | Inr be \<Rightarrow> Inr (Some (block_cumulative_size be)))
      | None \<Rightarrow> Inr (map_option block_cumulative_size (m_alternative_chains s h)))"

definition isBlockInMainChain :: "blockchain \<Rightarrow> hash_t \<Rightarrow> bool" where
  "isBlockInMainChain s blockId = hasBlock blockId (m_blockIndex s)"

text \<open>
  \<open>getBlocks\<close> by height. The first form counts with \<open>size_t\<close>, the second with \<open>uint32_t\<close>; \<open>start_offset + count\<close> is
  computed with 32 bits in both.
\<close>

definition block_range :: "blockchain \<Rightarrow> u32 \<Rightarrow> u32 \<Rightarrow> block list" where
  "block_range s start_offset cnt =
     map be_bl (drop (unat start_offset) (take (unat (start_offset + cnt)) (m_blocks s)))"

definition getBlocks_range :: "blockchain \<Rightarrow> u32 \<Rightarrow> u32 \<Rightarrow> block list option" where
  "getBlocks_range s start_offset cnt =
     (if length (m_blocks s) \<le> unat start_offset then None else Some (block_range s start_offset cnt))"

fun blocks_with_transactions :: "blockchain \<Rightarrow> tx_pool \<Rightarrow> block list \<Rightarrow> exn + (block list \<times> transaction list) option" where
  "blocks_with_transactions s p [] = Inr (Some ([], []))"
| "blocks_with_transactions s p (b # bs) =
     (case getTransactions s p (transactionHashes b) False of
        Inl e \<Rightarrow> Inl e
      | Inr (txs, missed_ids) \<Rightarrow>
          if missed_ids \<noteq> [] then Inr None
          else case blocks_with_transactions s p bs of
            Inl e \<Rightarrow> Inl e
          | Inr None \<Rightarrow> Inr None
          | Inr (Some (bs, rest)) \<Rightarrow> Inr (Some (b # bs, txs @ rest)))"

definition getBlocks_full :: "blockchain \<Rightarrow> tx_pool \<Rightarrow> u32 \<Rightarrow> u32 \<Rightarrow> exn + (block list \<times> transaction list) option" where
  "getBlocks_full s p start_offset cnt =
     (if length (m_blocks s) \<le> unat start_offset then Inr None
      else blocks_with_transactions s p (block_range s start_offset cnt))"

text \<open>\<open>getBlocks\<close> by identity: the result, the blocks found and the ids missed. An index past the blocks ends the loop.\<close>

fun getBlocks_ids :: "blockchain \<Rightarrow> hash_t list \<Rightarrow> bool \<times> block list \<times> hash_t list" where
  "getBlocks_ids s [] = (True, [], [])"
| "getBlocks_ids s (bl_id # ids) =
     (case getBlockHeight bl_id (m_blockIndex s) of
        None \<Rightarrow> (let (r, bs, missed) = getBlocks_ids s ids in (r, bs, bl_id # missed))
      | Some height \<Rightarrow>
          if \<not> unat height < length (m_blocks s) then (False, [], [])
          else let (r, bs, missed) = getBlocks_ids s ids in (r, be_bl (m_blocks s ! unat height) # bs, missed))"

text \<open>\<open>handleGetObjects\<close> does not look at the result of \<open>getBlocks\<close>.\<close>

record get_objects_response =
  rsp_txs :: "bytes list"
  rsp_blocks :: "(bytes \<times> bytes list) list"
  rsp_missed_ids :: "hash_t list"
  rsp_current_blockchain_height :: u32

definition pack_block :: "block \<Rightarrow> bytes" where
  "pack_block b = (case block_to_bytes b of None \<Rightarrow> [] | Some d \<Rightarrow> d)"

definition pack_tx :: "transaction \<Rightarrow> bytes" where
  "pack_tx tx = (case tx_to_bytes tx of None \<Rightarrow> [] | Some d \<Rightarrow> d)"

fun pack_blocks :: "blockchain \<Rightarrow> tx_pool \<Rightarrow> block list \<Rightarrow> hash_t list \<Rightarrow> exn + (bytes \<times> bytes list) list \<times> hash_t list" where
  "pack_blocks s p [] missed_ids = Inr ([], missed_ids)"
| "pack_blocks s p (b # bs) missed_ids =
     (case getTransactions s p (transactionHashes b) False of
        Inl e \<Rightarrow> Inl e
      | Inr (txs, missed) \<Rightarrow>
          (case pack_blocks s p bs (missed_ids @ missed) of
             Inl e \<Rightarrow> Inl e
           | Inr (es, missed_ids) \<Rightarrow> Inr ((pack_block b, map pack_tx txs) # es, missed_ids)))"

definition handleGetObjects :: "blockchain \<Rightarrow> tx_pool \<Rightarrow> hash_t list \<Rightarrow> hash_t list \<Rightarrow> exn + get_objects_response" where
  "handleGetObjects s p block_ids txs_ids =
     (case getBlocks_ids s block_ids of
        (_, blocks, missed_ids) \<Rightarrow>
          (case pack_blocks s p blocks missed_ids of
             Inl e \<Rightarrow> Inl e
           | Inr (entries, missed_ids) \<Rightarrow>
               (case getTransactions s p txs_ids False of
                  Inl e \<Rightarrow> Inl e
                | Inr (txs, missed) \<Rightarrow>
                    Inr \<lparr>rsp_txs = map pack_tx txs, rsp_blocks = entries, rsp_missed_ids = missed_ids @ missed,
                         rsp_current_blockchain_height = getHeight s\<rparr>)))"

subsection \<open>Synchronisation\<close>

text \<open>The loop for \<open>i = 1, 2, 4, \<dots>\<close> over the branch, the head first.\<close>

function sparse_branch :: "'a list \<Rightarrow> nat \<Rightarrow> 'a list" where
  "sparse_branch c i = (if 0 < i \<and> i \<le> length c then c ! (i - 1) # sparse_branch c (2 * i) else [])"
  by pat_completeness auto
termination by (relation "measure (\<lambda>(c, i). Suc (length c) - i)") auto

definition doBuildSparseChain :: "blockchain \<Rightarrow> hash_t \<Rightarrow> exn + hash_t list" where
  "doBuildSparseChain s startBlockId =
     (if bi_size (m_blockIndex s) = 0 then Inl AssertFailed
      else if hasBlock startBlockId (m_blockIndex s) then bi_buildSparseChain startBlockId (m_blockIndex s)
      else case m_alternative_chains s startBlockId of
        None \<Rightarrow> Inl AssertFailed
      | Some _ \<Rightarrow>
          (case alt_walk (m_alternative_chains s) startBlockId [] of
             None \<Rightarrow> Inl DoesNotReturn
           | Some chain \<Rightarrow>
               let alternativeChain = map fst (rev chain);
                   blockchainAncestor = previousBlockHash (be_bl (snd (hd chain)))
               in if \<not> hasBlock blockchainAncestor (m_blockIndex s) then Inl AssertFailed
                  else case bi_buildSparseChain blockchainAncestor (m_blockIndex s) of
                    Inl e \<Rightarrow> Inl e
                  | Inr sparseMainChain \<Rightarrow> Inr (sparse_branch alternativeChain 1 @ sparseMainChain)))"

definition buildSparseChain :: "blockchain \<Rightarrow> exn + hash_t list" where
  "buildSparseChain s =
     (if bi_size (m_blockIndex s) = 0 then Inl AssertFailed
      else case bi_getTailId (m_blockIndex s) of Inl e \<Rightarrow> Inl e | Inr h \<Rightarrow> doBuildSparseChain s h)"

definition buildSparseChain_from :: "blockchain \<Rightarrow> hash_t \<Rightarrow> exn + hash_t list" where
  "buildSparseChain_from s startBlockId =
     (if \<not> haveBlock s startBlockId then Inl AssertFailed else doBuildSparseChain s startBlockId)"

definition findBlockchainSupplement :: "blockchain \<Rightarrow> hash_t list \<Rightarrow> exn + u32" where
  "findBlockchainSupplement s qblock_ids =
     (if qblock_ids = [] then Inl AssertFailed
      else case getBlockId 0 (m_blockIndex s) of
        Inl e \<Rightarrow> Inl e
      | Inr genesisId \<Rightarrow>
          if last qblock_ids \<noteq> genesisId then Inl AssertFailed
          else case findSupplement qblock_ids (m_blockIndex s) of
            None \<Rightarrow> Inl OutOfRange
          | Some i \<Rightarrow> Inr i)"

definition findBlockchainSupplement_ids :: "blockchain \<Rightarrow> hash_t list \<Rightarrow> u64 \<Rightarrow> exn + hash_t list \<times> u32 \<times> u32" where
  "findBlockchainSupplement_ids s remoteBlockIds maxCount =
     (case findBlockchainSupplement s remoteBlockIds of
        Inl e \<Rightarrow> Inl e
      | Inr startBlockIndex \<Rightarrow>
          Inr (getBlockIds startBlockIndex (ucast maxCount) (m_blockIndex s), getHeight s, startBlockIndex))"

text \<open>
  \<open>std::lower_bound\<close> over the blocks from an offset: the search halves the range whether or not the timestamps are
  in order.
\<close>

function lower_bound_loop :: "block_entry list \<Rightarrow> u64 \<Rightarrow> nat \<Rightarrow> nat \<Rightarrow> nat" where
  "lower_bound_loop blocks t first len =
     (if len = 0 then first
      else
        let half = len div 2; middle = first + half
        in if timestamp (be_bl (blocks ! middle)) < t then lower_bound_loop blocks t (middle + 1) (len - half - 1)
           else lower_bound_loop blocks t first half)"
  by pat_completeness auto
termination by (relation "measure (\<lambda>(_, _, _, len). len)") (auto simp: Let_def)

definition getLowerBound :: "chain_env \<Rightarrow> blockchain \<Rightarrow> u64 \<Rightarrow> u64 \<Rightarrow> exn + u32 option" where
  "getLowerBound env s t startOffset =
     (if \<not> unat startOffset < length (m_blocks s) then Inl AssertFailed
      else
        let bound = lower_bound_loop (m_blocks s) (t - m_blockFutureTimeLimit (env_currency env)) (unat startOffset)
              (length (m_blocks s) - unat startOffset)
        in Inr (if bound = length (m_blocks s) then None else Some (of_nat bound)))"

subsection \<open>Outputs\<close>

definition get_out_by_msig_gindex :: "blockchain \<Rightarrow> u64 \<Rightarrow> u64 \<Rightarrow> exn + (public_key_t list \<times> u8) option" where
  "get_out_by_msig_gindex s amount gindex =
     (case m_multisignatureOutputs s amount of
        None \<Rightarrow> Inr None
      | Some usages \<Rightarrow>
          if length usages \<le> unat gindex then Inr None
          else
            let msigUsage = usages ! unat gindex
            in case transactionByIndex s (mou_transactionIndex msigUsage) of
                 Inl e \<Rightarrow> Inl e
               | Inr entry \<Rightarrow>
                   let outs = tx_outputs (te_tx entry); i = unat (mou_outputIndex msigUsage)
                   in if \<not> i < length outs then Inl OutOfRange
                      else case out_target (outs ! i) of
                        MultisigOutput ks n \<Rightarrow> Inr (Some (ks, n))
                      | KeyOutput _ \<Rightarrow> Inr None)"

definition getMultisigOutputReference :: "blockchain \<Rightarrow> u64 \<Rightarrow> u32 \<Rightarrow> exn + (hash_t \<times> u16) option" where
  "getMultisigOutputReference s amount i =
     (case m_multisignatureOutputs s amount of
        None \<Rightarrow> Inr None
      | Some usages \<Rightarrow>
          if length usages \<le> unat i then Inr None
          else
            let usage = usages ! unat i
            in case transactionByIndex s (mou_transactionIndex usage) of
                 Inl e \<Rightarrow> Inl e
               | Inr entry \<Rightarrow> Inr (Some (tx_hash (te_tx entry), mou_outputIndex usage)))"

text \<open>
  \<open>add_out_to_get_random_outs\<close>: the entry with the index and the key, or \<open>None\<close> for an output that is not offered.
\<close>

definition add_out_to_get_random_outs ::
  "chain_env \<Rightarrow> blockchain \<Rightarrow> (transaction_index \<times> u16) list \<Rightarrow> nat \<Rightarrow> exn + (u64 \<times> public_key_t) option" where
  "add_out_to_get_random_outs env s amount_outs i =
     (if \<not> i < length amount_outs then Inl OutOfRange
      else
        let (index, o_index) = amount_outs ! i
        in case transactionByIndex s index of
             Inl e \<Rightarrow> Inl e
           | Inr entry \<Rightarrow>
               let outs = tx_outputs (te_tx entry)
               in if \<not> unat o_index < length outs then Inr None
                  else case out_target (outs ! unat o_index) of
                    MultisigOutput _ _ \<Rightarrow> Inr None
                  | KeyOutput k \<Rightarrow>
                      if \<not> is_tx_spendtime_unlocked env s (unlockTime (te_tx entry)) then Inr None
                      else Inr (Some (ucast (of_nat i :: u32), k)))"

text \<open>The loop from the newest output down; the sum is computed with 64 bits.\<close>

primrec allowed_loop :: "chain_env \<Rightarrow> blockchain \<Rightarrow> (transaction_index \<times> u16) list \<Rightarrow> nat \<Rightarrow> nat" where
  "allowed_loop env s amount_outs 0 = 0"
| "allowed_loop env s amount_outs (Suc i) =
     (if ucast (ti_block (fst (amount_outs ! i))) + m_minedMoneyUnlockWindow (env_currency env) \<le> (ucast (getHeight s) :: u64)
      then Suc i else allowed_loop env s amount_outs i)"

definition find_end_of_allowed_index :: "chain_env \<Rightarrow> blockchain \<Rightarrow> (transaction_index \<times> u16) list \<Rightarrow> nat" where
  "find_end_of_allowed_index env s amount_outs = allowed_loop env s amount_outs (length amount_outs)"

text \<open>The draws for one amount: \<open>j\<close> calls of the generator are left.\<close>

fun random_loop ::
  "chain_env \<Rightarrow> blockchain \<Rightarrow> (transaction_index \<times> u16) list \<Rightarrow> u64 \<Rightarrow> (nat \<Rightarrow> u64 \<Rightarrow> u64) \<Rightarrow> nat \<Rightarrow> shuffle
   \<Rightarrow> (u64 \<times> public_key_t) list \<Rightarrow> exn + (u64 \<times> public_key_t) list" where
  "random_loop env s amount_outs outs_count draw 0 g result_outs = Inr result_outs"
| "random_loop env s amount_outs outs_count draw (Suc j) g result_outs =
     (if \<not> length result_outs < unat outs_count then Inr result_outs
      else case shuffle_next (draw j) g of
        Inl e \<Rightarrow> Inl e
      | Inr (i, g) \<Rightarrow>
          (case add_out_to_get_random_outs env s amount_outs (unat i) of
             Inl e \<Rightarrow> Inl e
           | Inr r \<Rightarrow>
               random_loop env s amount_outs outs_count draw j g
                 (case r of None \<Rightarrow> result_outs | Some out \<Rightarrow> result_outs @ [out])))"

fun getRandomOutsByAmount ::
  "chain_env \<Rightarrow> blockchain \<Rightarrow> u64 \<Rightarrow> (nat \<Rightarrow> nat \<Rightarrow> u64 \<Rightarrow> u64) \<Rightarrow> u64 list \<Rightarrow> exn + (u64 \<times> (u64 \<times> public_key_t) list) list" where
  "getRandomOutsByAmount env s outs_count draw [] = Inr []"
| "getRandomOutsByAmount env s outs_count draw (amount # amounts) =
     (case (case m_outputs s amount of
              None \<Rightarrow> Inr []
            | Some amount_outs \<Rightarrow>
                let up_index_limit = find_end_of_allowed_index env s amount_outs
                in random_loop env s amount_outs outs_count (draw (length amounts)) up_index_limit (shuffle_new (of_nat up_index_limit)) []) of
        Inl e \<Rightarrow> Inl e
      | Inr outs \<Rightarrow>
          (case getRandomOutsByAmount env s outs_count draw amounts of
             Inl e \<Rightarrow> Inl e
           | Inr rest \<Rightarrow> Inr ((amount, outs) # rest)))"

subsection \<open>The files of the indices\<close>

text \<open>
  \<open>BlockchainIndicesSerializer\<close> (\<open>blockchain/serializer/blockchain_indices.hpp\<close>). \<open>cache_major\<close> and \<open>indices_major\<close> are the
  configured versions \<open>blockcache_archive\<close> and \<open>blockcache_indices_archive\<close>; a multimap is written as the list of its
  entries in its iteration order and read by inserting them one by one.
\<close>

fun readMulti_loop ::
  "'k reader \<Rightarrow> 'v reader \<Rightarrow> ('k \<Rightarrow> 'v \<Rightarrow> ('k \<times> 'v) list \<Rightarrow> ('k \<times> 'v) list) \<Rightarrow> nat \<Rightarrow> ('k \<times> 'v) list \<Rightarrow> ('k \<times> 'v) list reader" where
  "readMulti_loop rdk rdv ins 0 m b = Inr (m, b)"
| "readMulti_loop rdk rdv ins (Suc n) m b =
     (case read_pair rdk rdv b of
        Inl e \<Rightarrow> Inl e
      | Inr ((k, v), b) \<Rightarrow> readMulti_loop rdk rdv ins n (ins k v m) b)"

definition readMulti ::
  "'k reader \<Rightarrow> 'v reader \<Rightarrow> ('k \<Rightarrow> 'v \<Rightarrow> ('k \<times> 'v) list \<Rightarrow> ('k \<times> 'v) list) \<Rightarrow> ('k \<times> 'v) list \<Rightarrow> ('k \<times> 'v) list reader" where
  "readMulti rdk rdv ins m b =
     (case read_u64 b of Inl e \<Rightarrow> Inl e | Inr (n, b) \<Rightarrow> readMulti_loop rdk rdv ins (unat n) m b)"

definition sr_payment :: "payment_index \<Rightarrow> payment_index reader" where
  "sr_payment = readMulti (read_pod 32) (read_pod 32) (\<lambda>k v m. (k, v) # m)"

definition sw_payment :: "payment_index \<Rightarrow> bytes" where
  "sw_payment = writeMap write_pod write_pod"

definition sr_timestamp :: "timestamp_index \<Rightarrow> timestamp_index reader" where
  "sr_timestamp = readMulti read_u64 (read_pod 32) mm_emplace"

definition sw_timestamp :: "timestamp_index \<Rightarrow> bytes" where
  "sw_timestamp = writeMap write_u64 write_pod"

definition sr_generated :: "generated_index \<Rightarrow> generated_index reader" where
  "sr_generated g b =
     (case readMulti read_u32 read_u64 (\<lambda>k v m. if map_of m k = None then (k, v) # m else m) (gi_index g) b of
        Inl e \<Rightarrow> Inl e
      | Inr (m, b) \<Rightarrow>
          (case read_u64 b of Inl e \<Rightarrow> Inl e | Inr (n, b) \<Rightarrow> Inr (\<lparr>gi_index = m, lastGeneratedTxNumber = n\<rparr>, b)))"

definition sw_generated :: "generated_index \<Rightarrow> bytes" where
  "sw_generated g = writeMap write_u32 write_u64 (gi_index g) @ write_u64 (lastGeneratedTxNumber g)"

definition sw_indices :: "u8 \<Rightarrow> u8 \<Rightarrow> hash_t \<Rightarrow> blockchain \<Rightarrow> bytes" where
  "sw_indices cache_major indices_major lastBlockHash s =
     write_u8 cache_major @
     (if cache_major \<noteq> indices_major then []
      else write_pod lastBlockHash @ sw_payment (bc_paymentIdIndex s) @ sw_timestamp (bc_timestampIndex s)
        @ sw_generated (bc_generatedIndex s))"

text \<open>The flag is \<open>loaded\<close>.\<close>

definition sr_indices :: "u8 \<Rightarrow> hash_t \<Rightarrow> blockchain \<Rightarrow> (bool \<times> blockchain) reader" where
  "sr_indices indices_major lastBlockHash s b =
     (case read_u8 b of
        Inl e \<Rightarrow> Inl e
      | Inr (version, b) \<Rightarrow>
          if version \<noteq> indices_major then Inr ((False, s), b)
          else case read_pod 32 b of
            Inl e \<Rightarrow> Inl e
          | Inr (blockHash, b) \<Rightarrow>
              if blockHash \<noteq> lastBlockHash then Inr ((False, s), b)
              else case sr_payment (bc_paymentIdIndex s) b of
                Inl e \<Rightarrow> Inl e
              | Inr (payment, b) \<Rightarrow>
                  (case sr_timestamp (bc_timestampIndex s) b of
                     Inl e \<Rightarrow> Inl e
                   | Inr (stamps, b) \<Rightarrow>
                       (case sr_generated (bc_generatedIndex s) b of
                          Inl e \<Rightarrow> Inl e
                        | Inr (generated, b) \<Rightarrow>
                            Inr ((True, s\<lparr>bc_paymentIdIndex := payment, bc_timestampIndex := stamps,
                              bc_generatedIndex := generated\<rparr>), b))))"

definition storeBlockchainIndices :: "u8 \<Rightarrow> u8 \<Rightarrow> blockchain \<Rightarrow> exn + bytes" where
  "storeBlockchainIndices cache_major indices_major s =
     (case getTailId s of Inl e \<Rightarrow> Inl e | Inr h \<Rightarrow> Inr (sw_indices cache_major indices_major h s))"

text \<open>The rebuilding loops of \<open>loadBlockchainIndices\<close>.\<close>

fun index_blocks :: "block_entry list \<Rightarrow> blockchain \<Rightarrow> exn + blockchain" where
  "index_blocks [] s = Inr s"
| "index_blocks (be # bes) s =
     (case getHash (be_bl be) of
        Inl e \<Rightarrow> Inl e
      | Inr h \<Rightarrow>
          (case generated_add (be_bl be) (bc_generatedIndex s) of
             Inl e \<Rightarrow> Inl e
           | Inr (_, g) \<Rightarrow>
               if 65536 \<le> length (be_transactions be) then Inl DoesNotReturn
               else
                 index_blocks bes (s\<lparr>bc_timestampIndex := timestamp_add (timestamp (be_bl be)) h (bc_timestampIndex s),
                   bc_generatedIndex := g,
                   bc_paymentIdIndex := fold (\<lambda>te index. snd (payment_add (te_tx te) index)) (be_transactions be)
                     (bc_paymentIdIndex s)\<rparr>)))"

definition rebuild_indices :: "blockchain \<Rightarrow> exn + blockchain" where
  "rebuild_indices s =
     index_blocks (m_blocks s) (s\<lparr>bc_paymentIdIndex := [], bc_timestampIndex := [],
       bc_generatedIndex := generated_clear (bc_generatedIndex s)\<rparr>)"

text \<open>A file that cannot be opened is \<open>None\<close>; a read that throws leaves indices that the rebuilding clears.\<close>

definition loadBlockchainIndices :: "u8 \<Rightarrow> bytes option \<Rightarrow> blockchain \<Rightarrow> exn + blockchain" where
  "loadBlockchainIndices indices_major index_file s =
     (if m_blocks s = [] then Inl OutOfRange
      else case getHash (be_bl (last (m_blocks s))) of
        Inl e \<Rightarrow> Inl e
      | Inr lastBlockHash \<Rightarrow>
          (case (case index_file of None \<Rightarrow> Inl EndOfStream | Some d \<Rightarrow> sr_indices indices_major lastBlockHash s d) of
             Inr ((True, s), _) \<Rightarrow> Inr s
           | _ \<Rightarrow> rebuild_indices s))"

subsection \<open>Setting up the chain\<close>

text \<open>
  \<open>resetAndSetGenesisBlock\<close>; \<open>m_multisignatureOutputs\<close> is the one container that is not cleared.
\<close>

definition resetAndSetGenesisBlock :: "nat \<Rightarrow> chain_env \<Rightarrow> block \<Rightarrow> chain_state \<Rightarrow> exn + bool \<times> chain_state" where
  "resetAndSetGenesisBlock n env b sp =
     (let (s, p) = sp;
          s = s\<lparr>m_blocks := [], m_blockIndex := [], m_transactionMap := Map.empty, m_spent_keys := {},
                m_alternative_chains := Map.empty, m_outputs := Map.empty, bc_paymentIdIndex := [],
                bc_timestampIndex := [], bc_generatedIndex := generated_clear (bc_generatedIndex s), bc_orphanIndex := []\<rparr>
      in case addNewBlock n env b bvc_new (s, p) of
           Inl e \<Rightarrow> Inl e
         | Inr (_, bvc, sp) \<Rightarrow> Inr (bvc_added_to_main_chain bvc \<and> \<not> bvc_verifivation_failed bvc, sp))"

text \<open>
  \<open>init\<close>, from the blocks the block files hold (\<open>m_blocks s\<close>). The cache file is read as well, but never counts as
  loaded, so that \<open>rebuildCache\<close> always replaces what was read. The difficulty is only computed for a message.
\<close>

definition blockchain_init ::
  "chain_env \<Rightarrow> block \<Rightarrow> hash_t \<Rightarrow> u8 \<Rightarrow> bytes option \<Rightarrow> bool \<Rightarrow> chain_state \<Rightarrow> exn + bool \<times> chain_state" where
  "blockchain_init env genesisBlock genesisBlockHash indices_major index_file load_existing sp =
     (case (if load_existing \<and> m_blocks (fst sp) \<noteq> [] then
              (case rebuildCache (fst sp) of
                 Inl e \<Rightarrow> Inl e
               | Inr s \<Rightarrow> loadBlockchainIndices indices_major index_file s)
            else Inr ((fst sp)\<lparr>m_blocks := []\<rparr>)) of
        Inl e \<Rightarrow> Inl e
      | Inr s \<Rightarrow>
          (case (if m_blocks s = [] then
                   (case pushBlock env genesisBlock bvc_new (s, snd sp) of
                      Inl e \<Rightarrow> Inl e
                    | Inr (_, bvc, sp) \<Rightarrow> Inr (\<not> bvc_verifivation_failed bvc, sp))
                 else
                   (case getHash (be_bl (m_blocks s ! 0)) of
                      Inl e \<Rightarrow> Inl e
                    | Inr firstBlockHash \<Rightarrow> Inr (firstBlockHash = genesisBlockHash, s, snd sp))) of
             Inl e \<Rightarrow> Inl e
           | Inr (False, sp) \<Rightarrow> Inr (False, sp)
           | Inr (True, s, p) \<Rightarrow>
               let s = update_next_comulative_size_limit env s
               in if m_blocks s = [] then Inl OutOfRange
                  else case getDifficultyForNextBlock env s of Inl e \<Rightarrow> Inl e | Inr _ \<Rightarrow> Inr (True, s, p)))"

end
