(* ===== verification/Core.thy ===== *)
theory Core
  imports Queries
begin

text \<open>
  The node: \<open>core\<close> of \<open>src/cryptonote/core/core.cpp\<close>, which feeds transactions and blocks from the network to the pool
  and the chain, makes block templates for the miner and answers queries. Its state is the chain with the pool.
\<close>

section \<open>Definitions\<close>

subsection \<open>Transactions from the network\<close>

fun keyimages_diff_loop :: "transaction_input list \<Rightarrow> key_image_t set \<Rightarrow> bool" where
  "keyimages_diff_loop [] ki = True"
| "keyimages_diff_loop (inp # ins) ki =
     (case inp of
        KeyInput _ _ img \<Rightarrow> if img \<in> ki then False else keyimages_diff_loop ins (insert img ki)
      | _ \<Rightarrow> keyimages_diff_loop ins ki)"

definition check_tx_inputs_keyimages_diff :: "transaction \<Rightarrow> bool" where
  "check_tx_inputs_keyimages_diff tx = keyimages_diff_loop (tx_inputs tx) {}"

text \<open>\<open>check_key\<close> stands for the test that a public key is a point of the curve.\<close>

definition check_tx_semantic :: "(public_key_t \<Rightarrow> bool) \<Rightarrow> transaction \<Rightarrow> bool" where
  "check_tx_semantic check_key tx =
     (if tx_inputs tx = [] then False
      else if \<not> check_inputs_types_supported tx then False
      else if \<not> check_outs_valid check_key tx then False
      else if \<not> check_money_overflow tx then False
      else if get_inputs_money_amount tx < get_outs_money_amount tx then False
      else if \<not> check_tx_inputs_keyimages_diff tx then False
      else checkMultisignatureInputsDiff tx)"

text \<open>
  \<open>m_mempool.add_tx\<close> with the chain as the validator. A check of the inputs that throws is passed on where \<open>add_tx\<close>
  reaches it.
\<close>

definition core_add_tx ::
  "chain_env \<Rightarrow> blockchain \<Rightarrow> transaction \<Rightarrow> hash_t \<Rightarrow> u64 \<Rightarrow> tx_verification_context \<Rightarrow> bool \<Rightarrow> tx_pool
   \<Rightarrow> exn + bool \<times> tx_verification_context \<times> tx_pool" where
  "core_add_tx env s tx h blob_size tvc kept p =
     (let cur = env_currency env;
          fee = get_inputs_money_amount tx - get_outs_money_amount tx;
          reaches = check_inputs_types_supported tx \<and> get_outs_money_amount tx \<le> get_inputs_money_amount tx
            \<and> (kept \<or> fee = 0 \<and> isFusionTransaction cur tx blob_size \<or> \<not> fee < m_mininumFee cur)
            \<and> (kept \<or> \<not> haveSpentInputs p tx)
      in case checkTransactionInputs_max env s tx block_info_clear of
           Inl e \<Rightarrow> if reaches then Inl e
             else add_tx cur (validator_of env s) (env_time env) tx h blob_size kept tvc p
         | Inr _ \<Rightarrow> add_tx cur (validator_of env s) (env_time env) tx h blob_size kept tvc p)"

definition add_new_tx ::
  "chain_env \<Rightarrow> transaction \<Rightarrow> hash_t \<Rightarrow> u64 \<Rightarrow> tx_verification_context \<Rightarrow> bool \<Rightarrow> chain_state
   \<Rightarrow> exn + bool \<times> tx_verification_context \<times> chain_state" where
  "add_new_tx env tx h blob_size tvc kept sp =
     (if haveTransaction (fst sp) h then Inr (True, tvc, sp)
      else if have_tx (snd sp) h then Inr (True, tvc, sp)
      else case core_add_tx env (fst sp) tx h blob_size tvc kept (snd sp) of
        Inl e \<Rightarrow> Inl e
      | Inr (r, tvc, p) \<Rightarrow> Inr (r, tvc, fst sp, p))"

text \<open>\<open>check_tx_syntax\<close> always returns true.\<close>

definition handleIncomingTransaction ::
  "(public_key_t \<Rightarrow> bool) \<Rightarrow> chain_env \<Rightarrow> transaction \<Rightarrow> hash_t \<Rightarrow> u64 \<Rightarrow> tx_verification_context \<Rightarrow> bool \<Rightarrow> chain_state
   \<Rightarrow> exn + bool \<times> tx_verification_context \<times> chain_state" where
  "handleIncomingTransaction check_key env tx h blob_size tvc kept sp =
     (if \<not> check_tx_semantic check_key tx then Inr (False, tvc\<lparr>m_verifivation_failed := True\<rparr>, sp)
      else add_new_tx env tx h blob_size tvc kept sp)"

definition handle_incoming_tx ::
  "(public_key_t \<Rightarrow> bool) \<Rightarrow> chain_env \<Rightarrow> bytes \<Rightarrow> bool \<Rightarrow> chain_state
   \<Rightarrow> exn + bool \<times> tx_verification_context \<times> chain_state" where
  "handle_incoming_tx check_key env tx_blob kept sp =
     (if unat (m_maxTxSize (env_currency env)) < length tx_blob
      then Inr (False, tvc_new\<lparr>m_verifivation_failed := True\<rparr>, sp)
      else case parseAndValidateTransaction tx_blob of
        None \<Rightarrow> Inr (False, tvc_new\<lparr>m_verifivation_failed := True\<rparr>, sp)
      | Some (tx, h, _) \<Rightarrow>
          handleIncomingTransaction check_key env tx h (of_nat (length tx_blob)) tvc_new kept sp)"

subsection \<open>Blocks from the network\<close>

text \<open>
  \<open>handle_incoming_block\<close>; \<open>None\<close> in the last place is that nothing is relayed, otherwise it holds the block and its
  transactions as they are sent with the height. The miner is only told to stop and start.
\<close>

definition core_getBlockIdByHeight :: "blockchain \<Rightarrow> u32 \<Rightarrow> exn + hash_t" where
  "core_getBlockIdByHeight s height = (if height < getHeight s then getBlockIdByHeight s height else Inr NULL_HASH)"

definition relay_of ::
  "block \<Rightarrow> chain_state \<Rightarrow> exn + bool \<times> (bytes \<times> bytes list \<times> u32) option" where
  "relay_of b sp =
     (case getTransactions (fst sp) (snd sp) (transactionHashes b) False of
        Inl e \<Rightarrow> Inl e
      | Inr (txs, missed_txs) \<Rightarrow>
          if missed_txs \<noteq> [] then
            (case core_getBlockIdByHeight (fst sp) (get_block_height b) of
               Inl e \<Rightarrow> Inl e
             | Inr main_id \<Rightarrow>
                 (case getHash b of Inl e \<Rightarrow> Inl e | Inr h \<Rightarrow> if main_id \<noteq> h then Inr (True, None) else Inr (False, None)))
          else if length txs \<noteq> length (transactionHashes b) then Inr (False, None)
          else case block_to_bytes b of
            None \<Rightarrow> Inr (False, None)
          | Some blob \<Rightarrow> Inr (True, Some (blob, map pack_tx txs, getHeight (fst sp))))"

definition handle_incoming_block ::
  "nat \<Rightarrow> chain_env \<Rightarrow> block \<Rightarrow> block_verification_context \<Rightarrow> bool \<Rightarrow> chain_state
   \<Rightarrow> exn + bool \<times> block_verification_context \<times> chain_state \<times> (bytes \<times> bytes list \<times> u32) option" where
  "handle_incoming_block n env b bvc relay_block sp =
     (case addNewBlock n env b bvc sp of
        Inl e \<Rightarrow> Inl e
      | Inr (_, bvc, sp) \<Rightarrow>
          if relay_block \<and> bvc_added_to_main_chain bvc then
            (case relay_of b sp of Inl e \<Rightarrow> Inl e | Inr (r, msg) \<Rightarrow> Inr (r, bvc, sp, msg))
          else Inr (True, bvc, sp, None))"

definition handle_incoming_block_blob ::
  "nat \<Rightarrow> chain_env \<Rightarrow> bytes \<Rightarrow> block_verification_context \<Rightarrow> bool \<Rightarrow> chain_state
   \<Rightarrow> exn + bool \<times> block_verification_context \<times> chain_state \<times> (bytes \<times> bytes list \<times> u32) option" where
  "handle_incoming_block_blob n env block_blob bvc relay_block sp =
     (if unat (m_maxBlockBlobSize (env_currency env)) < length block_blob then Inr (False, bvc_failed bvc, sp, None)
      else case block_from_bytes block_blob of
        None \<Rightarrow> Inr (False, bvc_failed bvc, sp, None)
      | Some b \<Rightarrow> handle_incoming_block n env b bvc relay_block sp)"

definition handle_block_found ::
  "nat \<Rightarrow> chain_env \<Rightarrow> block \<Rightarrow> chain_state \<Rightarrow> exn + bool \<times> chain_state \<times> (bytes \<times> bytes list \<times> u32) option" where
  "handle_block_found n env b sp =
     (case handle_incoming_block n env b bvc_new True sp of
        Inl e \<Rightarrow> Inl e
      | Inr (_, bvc, sp, msg) \<Rightarrow> Inr (bvc_added_to_main_chain bvc, sp, msg))"

text \<open>\<open>addChain\<close>: the number of blocks handled.\<close>

fun add_chain_txs :: "(public_key_t \<Rightarrow> bool) \<Rightarrow> chain_env \<Rightarrow> transaction list \<Rightarrow> chain_state \<Rightarrow> exn + bool \<times> chain_state" where
  "add_chain_txs check_key env [] sp = Inr (True, sp)"
| "add_chain_txs check_key env (tx # txs) sp =
     (case handleIncomingTransaction check_key env tx (tx_hash tx) (tx_size tx) tvc_new True sp of
        Inl e \<Rightarrow> Inl e
      | Inr (r, _, sp) \<Rightarrow> if \<not> r then Inr (False, sp) else add_chain_txs check_key env txs sp)"

fun addChain ::
  "nat \<Rightarrow> (public_key_t \<Rightarrow> bool) \<Rightarrow> chain_env \<Rightarrow> (block \<times> transaction list) list \<Rightarrow> chain_state \<Rightarrow> exn + nat \<times> chain_state" where
  "addChain n check_key env [] sp = Inr (0, sp)"
| "addChain n check_key env ((b, txs) # chain) sp =
     (case add_chain_txs check_key env txs sp of
        Inl e \<Rightarrow> Inl e
      | Inr (False, sp) \<Rightarrow> Inr (0, sp)
      | Inr (True, sp) \<Rightarrow>
          (case addNewBlock n env b bvc_new sp of
             Inl e \<Rightarrow> Inl e
           | Inr (_, bvc, sp) \<Rightarrow>
               if bvc_marked_as_orphaned bvc \<or> bvc_verifivation_failed bvc then Inr (0, sp)
               else case addChain n check_key env chain sp of
                 Inl e \<Rightarrow> Inl e
               | Inr (k, sp) \<Rightarrow> Inr (Suc k, sp)))"

subsection \<open>Block templates\<close>

text \<open>
  The loop that fits the size of the miner transaction to the size it was made for; \<open>k\<close> tries are left and \<open>keys n\<close>
  are the random transaction key of call \<open>n\<close> of \<open>constructMinerTx\<close> and the output keys derived with it. \<open>None\<close> is the
  result false.
\<close>

fun template_loop ::
  "currency \<Rightarrow> u8 \<Rightarrow> (nat \<Rightarrow> public_key_t \<times> (nat \<Rightarrow> public_key_t option)) \<Rightarrow> u32 \<Rightarrow> u64 \<Rightarrow> u64 \<Rightarrow> u64 \<Rightarrow> bytes \<Rightarrow> u64
   \<Rightarrow> nat \<Rightarrow> nat \<Rightarrow> u64 \<Rightarrow> transaction \<Rightarrow> exn + transaction option" where
  "template_loop cur version keys height median_size coins fee ex_nonce txs_size 0 n cumulative_size tx0 = Inr None"
| "template_loop cur version keys height median_size coins fee ex_nonce txs_size (Suc k) n cumulative_size tx0 =
     (case constructMinerTx cur version (fst (keys n)) (snd (keys n)) height median_size coins cumulative_size fee ex_nonce 11 tx0 of
        Inl e \<Rightarrow> Inl e
      | Inr None \<Rightarrow> Inr None
      | Inr (Some tx) \<Rightarrow>
          if cumulative_size - txs_size < tx_size tx then
            template_loop cur version keys height median_size coins fee ex_nonce txs_size k (Suc n) (txs_size + tx_size tx) tx
          else if tx_size tx < cumulative_size - txs_size then
            let delta = cumulative_size - txs_size - tx_size tx;
                tx1 = tx\<lparr>tx_extra := tx_extra tx @ replicate (unat delta) 0\<rparr>;
                tx2 = tx1\<lparr>tx_extra := butlast (tx_extra tx1)\<rparr>
            in if cumulative_size \<noteq> txs_size + tx_size tx1 then
                 if cumulative_size + 1 \<noteq> txs_size + tx_size tx1 then Inr None
                 else if cumulative_size \<noteq> txs_size + tx_size tx2 then
                   template_loop cur version keys height median_size coins fee ex_nonce txs_size k (Suc n)
                     (cumulative_size + (delta - 1)) tx2
                 else Inr (Some tx2)
               else Inr (Some tx1)
          else if cumulative_size \<noteq> txs_size + tx_size tx then Inr None
          else Inr (Some tx))"

definition empty_tx :: transaction where
  "empty_tx = \<lparr>tx_version = 0, unlockTime = 0, tx_inputs = [], tx_outputs = [], tx_extra = [], signatures = []\<rparr>"

text \<open>\<open>get_block_template\<close>: the block, the difficulty and the height, and the pool after its checks.\<close>

definition get_block_template ::
  "chain_env \<Rightarrow> hard_fork list \<Rightarrow> u8 \<Rightarrow> (nat \<Rightarrow> public_key_t \<times> (nat \<Rightarrow> public_key_t option)) \<Rightarrow> bytes \<Rightarrow> chain_state
   \<Rightarrow> exn + (block \<times> u64 \<times> u32) option \<times> chain_state" where
  "get_block_template env hardforks version keys ex_nonce sp =
     (let (s, p) = sp; cur = env_currency env; height = getHeight s
      in case getDifficultyForNextBlock env s of
           Inl e \<Rightarrow> Inl e
         | Inr diffic \<Rightarrow>
             if diffic = 0 then Inr (None, s, p)
             else case getTailId s of
               Inl e \<Rightarrow> Inl e
             | Inr tail \<Rightarrow>
                 let median_size = m_current_block_cumul_sz_limit s div 2;
                     coins = getCoinsInCirculation s
                 in case maxBlockCumulativeSize cur (ucast height) of
                      Inl e \<Rightarrow> Inl e
                    | Inr maxSize \<Rightarrow>
                        (case fill_block_template cur (validator_of env s) median_size maxSize p of
                           Inl e \<Rightarrow> Inl e
                         | Inr (hs, txs_size, fee, p) \<Rightarrow>
                             (case constructMinerTx cur version (fst (keys 0)) (snd (keys 0)) height median_size coins txs_size
                                     fee ex_nonce 11 empty_tx of
                                Inl e \<Rightarrow> Inl e
                              | Inr None \<Rightarrow> Inr (None, s, p)
                              | Inr (Some tx) \<Rightarrow>
                                  (case template_loop cur version keys height median_size coins fee ex_nonce txs_size 10 1
                                          (txs_size + tx_size tx) tx of
                                     Inl e \<Rightarrow> Inl e
                                   | Inr None \<Rightarrow> Inr (None, s, p)
                                   | Inr (Some tx) \<Rightarrow>
                                       Inr (Some (\<lparr>majorVersion = getMajorVersion hardforks (ucast height),
                                         minorVersion = getMinorVersion hardforks (ucast height), nonce = 0,
                                         timestamp = env_time env, previousBlockHash = tail, baseTransaction = tx,
                                         transactionHashes = hs\<rparr>, diffic, height), s, p)))))"

subsection \<open>Queries\<close>

text \<open>\<open>BLOCKS_IDS_SYNCHRONIZING_DEFAULT_COUNT\<close> and \<open>BLOCKS_SYNCHRONIZING_DEFAULT_COUNT\<close>.\<close>

abbreviation ids_default_count :: nat where "ids_default_count \<equiv> 10000"
abbreviation blocks_default_count :: nat where "blocks_default_count \<equiv> 200"

definition findStartAndFullOffsets :: "chain_env \<Rightarrow> blockchain \<Rightarrow> hash_t list \<Rightarrow> u64 \<Rightarrow> exn + (u32 \<times> u32) option" where
  "findStartAndFullOffsets env s knownBlockIds t =
     (if knownBlockIds = [] then Inr None
      else case getBlockIdByHeight s 0 of
        Inl e \<Rightarrow> Inl e
      | Inr genesisId \<Rightarrow>
          if last knownBlockIds \<noteq> genesisId then Inr None
          else case findBlockchainSupplement s knownBlockIds of
            Inl e \<Rightarrow> Inl e
          | Inr startOffset \<Rightarrow>
              (case getLowerBound env s t (ucast startOffset) of
                 Inl e \<Rightarrow> Inl e
               | Inr None \<Rightarrow> Inr (Some (startOffset, startOffset))
               | Inr (Some startFullOffset) \<Rightarrow> Inr (Some (startOffset, startFullOffset))))"

definition findIdsForShortBlocks :: "blockchain \<Rightarrow> u32 \<Rightarrow> u32 \<Rightarrow> exn + hash_t list" where
  "findIdsForShortBlocks s startOffset startFullOffset =
     (if \<not> startOffset \<le> startFullOffset then Inl AssertFailed
      else Inr (if startOffset < startFullOffset
                then getBlockIds startOffset (min (of_nat ids_default_count) (startFullOffset - startOffset)) (m_blockIndex s)
                else []))"

text \<open>An entry of the answer: the id, and for a recent block the block with its transactions.\<close>

fun full_entries ::
  "(transaction \<Rightarrow> 'tx) \<Rightarrow> blockchain \<Rightarrow> tx_pool \<Rightarrow> u64 \<Rightarrow> block list \<Rightarrow> exn + (hash_t \<times> (bytes \<times> 'tx list) option) list" where
  "full_entries pack s p t [] = Inr []"
| "full_entries pack s p t (b # bs) =
     (case getHash b of
        Inl e \<Rightarrow> Inl e
      | Inr h \<Rightarrow>
          (case (if timestamp b \<ge> t then
                   (case getTransactions s p (transactionHashes b) False of
                      Inl e \<Rightarrow> Inl e | Inr (txs, _) \<Rightarrow> Inr (Some (pack_block b, map pack txs)))
                 else Inr None) of
             Inl e \<Rightarrow> Inl e
           | Inr item \<Rightarrow>
               (case full_entries pack s p t bs of Inl e \<Rightarrow> Inl e | Inr items \<Rightarrow> Inr ((h, item) # items))))"

text \<open>
  \<open>queryBlocks\<close> sends whole transactions, \<open>queryBlocksLite\<close> their prefixes and hashes; \<open>pack\<close> tells them apart. The count
  of blocks that are left is computed with \<open>size_t\<close>. The result: the start height, the current height, the offset of the
  full blocks and the entries.
\<close>

definition query_blocks ::
  "(transaction \<Rightarrow> 'tx) \<Rightarrow> chain_env \<Rightarrow> chain_state \<Rightarrow> hash_t list \<Rightarrow> u64
   \<Rightarrow> exn + (u32 \<times> u32 \<times> u32 \<times> (hash_t \<times> (bytes \<times> 'tx list) option) list) option" where
  "query_blocks pack env sp knownBlockIds t =
     (let (s, p) = sp
      in case findStartAndFullOffsets env s knownBlockIds t of
           Inl e \<Rightarrow> Inl e
         | Inr None \<Rightarrow> Inr None
         | Inr (Some (startOffset, startFullOffset)) \<Rightarrow>
             (case findIdsForShortBlocks s startOffset startFullOffset of
                Inl e \<Rightarrow> Inl e
              | Inr blockIds \<Rightarrow>
                  let ids = map (\<lambda>h. (h, None)) blockIds;
                      blocksLeft = min (ids_default_count - length ids) blocks_default_count
                  in if blocksLeft = 0 then Inr (Some (startOffset, getHeight s, startFullOffset, ids))
                     else
                       (case full_entries pack s p t
                               (case getBlocks_range s startFullOffset (of_nat blocksLeft) of None \<Rightarrow> [] | Some bs \<Rightarrow> bs) of
                          Inl e \<Rightarrow> Inl e
                        | Inr items \<Rightarrow> Inr (Some (startOffset, getHeight s, startFullOffset, ids @ items)))))"

definition queryBlocks ::
  "chain_env \<Rightarrow> chain_state \<Rightarrow> hash_t list \<Rightarrow> u64 \<Rightarrow> exn + (u32 \<times> u32 \<times> u32 \<times> (hash_t \<times> (bytes \<times> bytes list) option) list) option" where
  "queryBlocks = query_blocks pack_tx"

definition queryBlocksLite ::
  "chain_env \<Rightarrow> chain_state \<Rightarrow> hash_t list \<Rightarrow> u64
   \<Rightarrow> exn + (u32 \<times> u32 \<times> u32 \<times> (hash_t \<times> (bytes \<times> (transaction \<times> hash_t) list) option) list) option" where
  "queryBlocksLite = query_blocks (\<lambda>tx. (tx, tx_hash tx))"

fun blocks_of_hashes :: "blockchain \<Rightarrow> hash_t list \<Rightarrow> exn + block list option" where
  "blocks_of_hashes s [] = Inr (Some [])"
| "blocks_of_hashes s (h # hs) =
     (case getBlockByHash s h of
        Inl e \<Rightarrow> Inl e
      | Inr None \<Rightarrow> Inr None
      | Inr (Some b) \<Rightarrow>
          (case blocks_of_hashes s hs of
             Inl e \<Rightarrow> Inl e
           | Inr r \<Rightarrow> Inr (map_option ((#) b) r)))"

definition getOrphanBlocksByHeight :: "blockchain \<Rightarrow> u32 \<Rightarrow> exn + block list option" where
  "getOrphanBlocksByHeight s height =
     (case orphan_find height (bc_orphanIndex s) of
        (False, _) \<Rightarrow> Inr None
      | (True, blockHashes) \<Rightarrow> blocks_of_hashes s blockHashes)"

definition getBlocksByTimestamp :: "blockchain \<Rightarrow> u64 \<Rightarrow> u64 \<Rightarrow> u64 \<Rightarrow> exn + (block list \<times> u32) option" where
  "getBlocksByTimestamp s timestampBegin timestampEnd blocksNumberLimit =
     (case timestamp_find timestampBegin timestampEnd blocksNumberLimit (bc_timestampIndex s) of
        None \<Rightarrow> Inr None
      | Some (False, _, _) \<Rightarrow> Inr None
      | Some (True, blockHashes, n) \<Rightarrow>
          (case blocks_of_hashes s blockHashes of
             Inl e \<Rightarrow> Inl e
           | Inr r \<Rightarrow> Inr (map_option (\<lambda>bs. (bs, n)) r)))"

definition getTransactionsByPaymentId :: "chain_state \<Rightarrow> hash_t \<Rightarrow> exn + transaction list option" where
  "getTransactionsByPaymentId sp paymentId =
     (case payment_find paymentId (bc_paymentIdIndex (fst sp)) of
        (False, _) \<Rightarrow> Inr None
      | (True, blockchainTransactionHashes) \<Rightarrow>
          (case payment_find paymentId (m_paymentIdIndex (snd sp)) of
             (False, _) \<Rightarrow> Inr None
           | (True, poolTransactionHashes) \<Rightarrow>
               (case getTransactions (fst sp) (snd sp) (blockchainTransactionHashes @ poolTransactionHashes) True of
                  Inl e \<Rightarrow> Inl e
                | Inr (txs, missed_txs) \<Rightarrow> Inr (if missed_txs \<noteq> [] then None else Some txs))))"

definition core_getBlock :: "chain_state \<Rightarrow> hash_t \<Rightarrow> exn + (block \<times> transaction list) option" where
  "core_getBlock sp blockId =
     (case getBlockByHash (fst sp) blockId of
        Inl e \<Rightarrow> Inl e
      | Inr None \<Rightarrow> Inr None
      | Inr (Some b) \<Rightarrow>
          (case getTransactions (fst sp) (snd sp) (transactionHashes b) True of
             Inl e \<Rightarrow> Inl e
           | Inr (txs, missedTxs) \<Rightarrow>
               if missedTxs \<noteq> [] \<and> isBlockInMainChain (fst sp) blockId then Inl AssertFailed
               else Inr (if missedTxs \<noteq> [] then None else Some (b, txs))))"

end
