(* ===== verification/Node.thy ===== *)
theory Node
  imports ChainProps Core
begin

text \<open>
  The chain and the pool together: every transaction of the pool has its hash as its id, uses no input twice and is
  not in the chain, so that a block finds its transactions in the pool exactly when it can add them to the chain.
\<close>

section \<open>The pool beside the chain\<close>

text \<open>\<open>T\<close> is the set of the transactions that are ever seen.\<close>

definition known :: "transaction set \<Rightarrow> transaction \<Rightarrow> bool" where
  "known T tx \<longleftrightarrow> semantic_ok tx \<and> tx \<in> T"

definition entry_sound :: "transaction set \<Rightarrow> transaction_details \<Rightarrow> bool" where
  "entry_sound T td \<longleftrightarrow> td_id td = tx_hash (td_tx td) \<and> known T (td_tx td)"

definition pool_sound :: "transaction set \<Rightarrow> tx_pool \<Rightarrow> bool" where
  "pool_sound T p \<longleftrightarrow> pool_inv p \<and> (\<forall>td \<in> set (m_transactions p). entry_sound T td)"

definition pool_ids :: "tx_pool \<Rightarrow> hash_t set" where
  "pool_ids p = td_id ` set (m_transactions p)"

definition apart :: "blockchain \<Rightarrow> tx_pool \<Rightarrow> bool" where
  "apart s p \<longleftrightarrow> pool_ids p \<inter> dom (m_transactionMap s) = {}"

lemma used_outputs_refs: "used_outputs ins = map (\<lambda>(a, i). (a, ucast i)) (multisig_refs ins)"
  by (induction ins rule: multisig_refs.induct) simp_all

lemma semantic_inputs:
  assumes "semantic_ok tx"
  shows "inputs_distinct tx"
proof -
  have "inj_on (\<lambda>(a, i :: u32). (a, ucast i :: u64)) X" for X :: "(u64 \<times> u32) set"
  proof (rule inj_onI)
    fix x y :: "u64 \<times> u32"
    assume "(\<lambda>(a, i). (a, ucast i :: u64)) x = (\<lambda>(a, i). (a, ucast i)) y"
    then have "fst x = fst y" "unat (ucast (snd x) :: u64) = unat (ucast (snd y) :: u64)" by (auto simp: case_prod_beta)
    then show "x = y" by (simp add: prod_eq_iff unat32_eq)
  qed
  with assms show ?thesis
    by (simp add: semantic_ok_def inputs_distinct_def used_outputs_refs distinct_map)
qed

text \<open>Whatever \<open>add_tx\<close> does, the pool holds the transactions it held, or one more.\<close>

lemma add_tx_transactions:
  assumes "add_tx cur V now tx i sz kept tvc p = Inr (r, tvc', q)"
  shows "m_transactions q = m_transactions p \<or> m_transactions q = fee_insert (new_entry V now tx i sz kept) (m_transactions p)"
proof -
  define td where "td = new_entry V now tx i sz kept"
  have ins: "m_transactions (pool_insert td p) = fee_insert td (m_transactions p)" by (simp add: pool_insert_def)
  define X where "X = addTransactionInputs i kept (tx_inputs tx) (pool_insert td p)"
  have "m_transactions q = m_transactions p \<or> (\<exists>b. X = Inr (b, q))"
    using add_tx_cases [of cur V now tx i sz kept tvc p, folded td_def, folded X_def]
  proof (rule disjE, goal_cases)
    case 1
    then show ?case using assms by auto
  next
    case 2
    note run = 2 [THEN conjunct2, THEN conjunct2, THEN conjunct2, THEN conjunct2, THEN conjunct2, THEN conjunct2, THEN conjunct2]
    show ?case
    proof (cases X)
      case (Inr z)
      obtain b q' where "z = (b, q')" by fastforce
      then show ?thesis using run assms Inr by (cases b) auto
    qed (use run assms in simp)
  qed
  then show ?thesis
    using addTransactionInputs_frame [of i kept "tx_inputs tx" "pool_insert td p"] ins unfolding td_def [symmetric] X_def by auto
qed

lemma known_txs:
  assumes "list_all (known T) txs"
  shows "list_all semantic_ok txs" and "set txs \<subseteq> T"
  using assms by (auto simp: list_all_iff known_def)

lemma add_tx_sound:
  assumes "pool_sound T p" and "known T tx" and "add_tx cur V now tx (tx_hash tx) sz kept tvc p = Inr (r, tvc', q)"
  shows "pool_sound T q" and "pool_ids q \<subseteq> insert (tx_hash tx) (pool_ids p)"
proof -
  have inv: "pool_inv q" using add_tx_inv [of p tx cur V now "tx_hash tx" sz kept tvc] assms
    by (auto simp: pool_sound_def known_def semantic_inputs)
  have td: "entry_sound T (new_entry V now tx (tx_hash tx) sz kept)" "td_id (new_entry V now tx (tx_hash tx) sz kept) = tx_hash tx"
    using assms(2) by (simp_all add: entry_sound_def new_entry_def)
  from add_tx_transactions [OF assms(3)] show "pool_sound T q" using inv td(1) assms(1) by (auto simp: pool_sound_def)
  from add_tx_transactions [OF assms(3)]
  show "pool_ids q \<subseteq> insert (tx_hash tx) (pool_ids p)" using td(2) by (auto simp: pool_ids_def)
qed

lemma take_tx_sound:
  assumes "pool_sound T p" and "take_tx h p = Inr (r, q)"
  shows "pool_sound T q" and "pool_ids q \<subseteq> pool_ids p"
    and "r = Some (tx, sz, fee) \<Longrightarrow> tx_hash tx = h \<and> known T tx \<and> h \<in> pool_ids p
      \<and> h \<notin> pool_ids q"
    and "r = None \<Longrightarrow> q = p"
proof -
  have inv: "pool_inv q" using take_tx_inv [of p h] assms by (auto simp: pool_sound_def)
  have "(r = None \<and> q = p) \<or> (\<exists>td \<in> set (m_transactions p). td_id td = h \<and> r = Some (td_tx td, blobSize td, td_fee td)
      \<and> m_transactions q = filter (\<lambda>x. td_id x \<noteq> h) (m_transactions p))"
  proof (cases "find (\<lambda>td. td_id td = h) (m_transactions p)")
    case None
    then show ?thesis using assms(2) by (simp add: take_tx_def)
  next
    case (Some td)
    then have td: "td \<in> set (m_transactions p)" "td_id td = h" by (auto simp: find_Some_iff)
    moreover obtain q' where "removeTransaction td p = Inr q'" "r = Some (td_tx td, blobSize td, td_fee td)" "q = q'"
      using assms(2) Some by (auto simp: take_tx_def split: sum.splits)
    ultimately show ?thesis using removeTransaction_frame [of td p q] by auto
  qed
  note cases = this
  show "pool_sound T q" using cases inv assms(1) by (auto simp: pool_sound_def)
  show "pool_ids q \<subseteq> pool_ids p" using cases by (auto simp: pool_ids_def)
  show "r = None \<Longrightarrow> q = p" using cases by auto
  assume "r = Some (tx, sz, fee)"
  then show "tx_hash tx = h \<and> known T tx \<and> h \<in> pool_ids p \<and> h \<notin> pool_ids q"
    using cases assms(1) by (auto simp: pool_sound_def entry_sound_def pool_ids_def)
qed

lemma pool_add_sound:
  assumes "pool_sound T p" and "known T tx" and "pool_add env s tx p = Inr (r, q)"
  shows "pool_sound T q \<and> pool_ids q \<subseteq> insert (tx_hash tx) (pool_ids p)"
proof (cases "r = False \<and> q = p")
  case False
  then obtain tvc where "add_tx (env_currency env) (validator_of env s) (env_time env) tx (tx_hash tx) (tx_size tx) True tvc_new p
      = Inr (r, tvc, q)"
    using assms(3) by (auto simp: pool_add_def Let_def split: sum.splits if_splits)
  then show ?thesis using add_tx_sound [OF assms(1,2)] by blast
qed (use assms(1) in auto)

lemma pool_add_all_sound:
  assumes "pool_sound T p" and "list_all (known T) txs" and "pool_add_all env s txs p = Inr q"
  shows "pool_sound T q \<and> pool_ids q \<subseteq> tx_hash ` set txs \<union> pool_ids p"
  using assms
proof (induction txs arbitrary: p)
  case (Cons tx txs)
  then obtain p1 where 1: "pool_add env s tx p = Inr (True, p1)" "pool_add_all env s txs p1 = Inr q"
    by (auto split: sum.splits bool.splits)
  with pool_add_sound [of T p tx env s True p1] Cons have p1: "pool_sound T p1"
    "pool_ids p1 \<subseteq> insert (tx_hash tx) (pool_ids p)" by auto
  with Cons.IH [of p1] Cons.prems(2) 1(2) have "pool_sound T q" "pool_ids q \<subseteq> tx_hash ` set txs \<union> pool_ids p1" by simp_all
  with p1(2) show ?case by auto
qed simp

lemma saveTransactions_sound:
  assumes "pool_sound T p" and "list_all (known T) txs" and "saveTransactions env s txs p = Inr q"
  shows "pool_sound T q" and "pool_ids q \<subseteq> tx_hash ` set txs \<union> pool_ids p"
  using pool_add_all_sound [of T p "rev txs" env s q] assms by (auto simp: saveTransactions_def)

lemma loadTransactions_sound:
  assumes "pool_sound T p" and "list_all (known T) taken" and "loadTransactions env s taken hs p = Inr (r, q)"
  shows "pool_sound T q \<and>
    (case r of
       None \<Rightarrow> pool_ids q \<subseteq> tx_hash ` set taken \<union> pool_ids p
     | Some txs \<Rightarrow> list_all (known T) txs \<and> map tx_hash txs = map tx_hash (rev taken) @ hs
         \<and> distinct hs \<and> set hs \<subseteq> pool_ids p
         \<and> pool_ids q \<subseteq> pool_ids p - set hs)"
  using assms
proof (induction hs arbitrary: taken p)
  case Nil
  then show ?case by auto
next
  case (Cons h hs)
  obtain x p1 where t: "take_tx h p = Inr (x, p1)" using Cons.prems(3) by (auto split: sum.splits)
  note ts = take_tx_sound [OF Cons.prems(1) t]
  show ?case
  proof (cases x)
    case None
    then obtain q' where "r = None" "pool_add_all env s taken p1 = Inr q'" "q = q'"
      using Cons.prems(3) t by (auto split: sum.splits)
    then have "pool_sound T q \<and> pool_ids q \<subseteq> tx_hash ` set taken \<union> pool_ids p1"
      using pool_add_all_sound [of T p1 taken env s q] ts(1) Cons.prems(2) by simp
    then show ?thesis using ts(2) \<open>r = None\<close> by auto
  next
    case (Some y)
    obtain tx sz fee where y: "x = Some (tx, sz, fee)" using Some by (cases y) auto
    have tx: "tx_hash tx = h" "known T tx" "h \<in> pool_ids p" "h \<notin> pool_ids p1"
      using ts(3) [OF y] by auto
    have "loadTransactions env s (tx # taken) hs p1 = Inr (r, q)" using Cons.prems(3) t y by simp
    from Cons.IH [OF ts(1) _ this] tx(2) Cons.prems(2)
    have IH: "pool_sound T q \<and> (case r of
       None \<Rightarrow> pool_ids q \<subseteq> tx_hash ` set (tx # taken) \<union> pool_ids p1
     | Some txs \<Rightarrow> list_all (known T) txs \<and> map tx_hash txs = map tx_hash (rev (tx # taken)) @ hs
         \<and> distinct hs \<and> set hs \<subseteq> pool_ids p1 \<and> pool_ids q \<subseteq> pool_ids p1 - set hs)" by simp
    show ?thesis
    proof (cases r)
      case None
      then show ?thesis using IH ts(2) tx(1,3) by auto
    next
      case (Some txs)
      then show ?thesis using IH ts(2) tx by auto
    qed
  qed
qed

section \<open>Blocks entering and leaving the node\<close>

text \<open>
  What is assumed of the blocks that are ever seen: two different coinbase transactions have different hashes, no
  coinbase transaction has the hash of another transaction, and the blocks are within the limits of the code's
  16-bit counters and of the cumulative size.
\<close>

definition coinbase_ids :: "block set \<Rightarrow> hash_t set" where
  "coinbase_ids S = (\<lambda>b. tx_hash (baseTransaction b)) ` S"

definition sane :: "chain_env \<Rightarrow> block set \<Rightarrow> transaction set \<Rightarrow> bool" where
  "sane env S T \<longleftrightarrow>
     inj_on tx_hash (baseTransaction ` S) \<and> tx_hash ` T \<inter> coinbase_ids S = {}
     \<and> (\<forall>b \<in> S. set (transactionHashes b) \<inter> coinbase_ids S = {})
     \<and> (\<forall>b \<in> S. length (transactionHashes b) < 65535)
     \<and> (\<forall>b \<in> S. \<forall>txs s. set txs \<subseteq> T \<longrightarrow> map tx_hash txs = transactionHashes b \<longrightarrow> \<not> oversized env b txs s)"

definition node_ok :: "block set \<Rightarrow> transaction set \<Rightarrow> chain_state \<Rightarrow> bool" where
  "node_ok S T sp \<longleftrightarrow>
     chain_inv (fst sp) \<and> pool_sound T (snd sp) \<and> apart (fst sp) (snd sp)
     \<and> be_bl ` set (m_blocks (fst sp)) \<subseteq> S \<and> (\<forall>be \<in> set (m_blocks (fst sp)). set (tl (entry_txs be)) \<subseteq> T)
     \<and> pool_ids (snd sp) \<inter> coinbase_ids S = {}"

lemma sane_coinbase:
  assumes "sane env S T" and "b \<in> S" and "c \<in> S"
  shows "tx_hash (baseTransaction b) \<notin> set (transactionHashes c)"
proof -
  have "set (transactionHashes c) \<inter> coinbase_ids S = {}" using assms(1,3) by (simp add: sane_def)
  moreover have "tx_hash (baseTransaction b) \<in> coinbase_ids S" using assms(2) by (simp add: coinbase_ids_def)
  ultimately show ?thesis by blast
qed

lemma step_hashes_chain:
  "set (step_hashes (chain_steps bes)) = (\<Union>be \<in> set bes. tx_hash ` set (entry_txs be))"
proof (induction bes rule: rev_induct)
  case (snoc be bes)
  have "set (step_hashes (indexed b t (map (\<lambda>tx. (tx, tx_hash tx)) txs))) = tx_hash ` set txs" for b t txs
    by (induction txs arbitrary: t) simp_all
  then show ?case using snoc by (auto simp: block_steps_def)
qed simp

lemma stored_hashes: "stored_ok n be \<Longrightarrow> tx_hash ` set (entry_txs be) = insert (tx_hash (baseTransaction (be_bl be))) (set (transactionHashes (be_bl be)))"
  by (auto simp: stored_ok_def simp flip: set_map)

lemma chain_dom:
  assumes "chain_inv s"
  shows "dom (m_transactionMap s) =
    (\<Union>be \<in> set (m_blocks s). insert (tx_hash (baseTransaction (be_bl be))) (set (transactionHashes (be_bl be))))"
proof -
  have g: "grows (empty_caches s) (chain_steps (m_blocks s)) s" using assms by (simp add: chain_inv_def)
  have "dom (m_transactionMap s) = set (step_hashes (chain_steps (m_blocks s)))"
    using grows_map(1) [OF g] by (force simp: empty_caches_def dom_map_of_conv_image_fst step_hashes_def)
  also have "\<dots> = (\<Union>be \<in> set (m_blocks s). tx_hash ` set (entry_txs be))" by (rule step_hashes_chain)
  also have "\<dots> = (\<Union>be \<in> set (m_blocks s). insert (tx_hash (baseTransaction (be_bl be))) (set (transactionHashes (be_bl be))))"
    using assms by (intro SUP_cong) (auto simp: chain_inv_def in_set_conv_nth dest!: stored_hashes)
  finally show ?thesis .
qed

lemma coinbase_fresh:
  assumes "chain_inv s" and "be_bl ` set (m_blocks s) \<subseteq> S" and "b \<in> S" and "sane env S T"
    and "tx_inputs (baseTransaction b) = [BaseInput (of_nat (length (m_blocks s)))]"
    and "length (m_blocks s) < 4294967296"
  shows "tx_hash (baseTransaction b) \<notin> dom (m_transactionMap s)"
proof
  assume "tx_hash (baseTransaction b) \<in> dom (m_transactionMap s)"
  then obtain be where "be \<in> set (m_blocks s)" and "tx_hash (baseTransaction b) = tx_hash (baseTransaction (be_bl be))
      \<or> tx_hash (baseTransaction b) \<in> set (transactionHashes (be_bl be))"
    unfolding chain_dom [OF assms(1)] by blast
  then obtain n where n: "n < length (m_blocks s)" and
    h: "tx_hash (baseTransaction b) = tx_hash (baseTransaction (be_bl (m_blocks s ! n)))
      \<or> tx_hash (baseTransaction b) \<in> set (transactionHashes (be_bl (m_blocks s ! n)))"
    by (metis in_set_conv_nth)
  have S: "be_bl (m_blocks s ! n) \<in> S" using assms(2) n by (auto simp: image_subset_iff)
  then have "tx_hash (baseTransaction b) \<notin> set (transactionHashes (be_bl (m_blocks s ! n)))"
    by (rule sane_coinbase [OF assms(4,3)])
  with h have "tx_hash (baseTransaction b) = tx_hash (baseTransaction (be_bl (m_blocks s ! n)))" by blast
  then have "baseTransaction b = baseTransaction (be_bl (m_blocks s ! n))"
    using assms(3,4) S by (auto simp: sane_def dest: inj_onD)
  moreover have "stored_ok n (m_blocks s ! n)" using assms(1) n by (simp add: chain_inv_def)
  ultimately have "(of_nat (length (m_blocks s)) :: u32) = of_nat n" using assms(5) by (simp add: stored_ok_def)
  then have "unat (of_nat (length (m_blocks s)) :: u32) = unat (of_nat n :: u32)" by simp
  then show False using n assms(6) by (simp add: unat_of_nat_u32)
qed

lemma loaded_new:
  assumes ok: "node_ok S T (s, p)" and b: "b \<in> S" "sane env S T" and c: "block_checked env b h difficulty s"
    and load: "loadTransactions env s [] (transactionHashes b) p = Inr (Some txs, p1)"
  shows "block_new b txs s"
proof -
  have txs: "list_all (known T) txs" "map tx_hash txs = transactionHashes b" "distinct (transactionHashes b)"
    "set (transactionHashes b) \<subseteq> pool_ids p"
    using loadTransactions_sound [OF _ _ load, of T] ok by (simp_all add: node_ok_def)
  have "tx_inputs (baseTransaction b) = [BaseInput (of_nat (length (m_blocks s)))]"
    using c by (auto simp: block_checked_def dest: prevalidated_base)
  then have "tx_hash (baseTransaction b) \<notin> dom (m_transactionMap s)"
    using ok b coinbase_fresh [of s S b env] by (simp add: node_ok_def chain_inv_def)
  moreover have "tx_hash (baseTransaction b) \<notin> set (transactionHashes b)"
    by (rule sane_coinbase [OF b(2,1,1)])
  moreover have "set (transactionHashes b) \<inter> dom (m_transactionMap s) = {}"
    using ok txs(4) by (auto simp: node_ok_def apart_def)
  moreover have "length txs < 65535" using b txs(2) by (metis length_map sane_def)
  ultimately show ?thesis using txs known_txs [OF txs(1)] by (simp add: block_new_def)
qed

text \<open>What a step leaves as it was.\<close>

definition same_rest :: "blockchain \<Rightarrow> blockchain \<Rightarrow> bool" where
  "same_rest s s' \<longleftrightarrow> m_alternative_chains s' = m_alternative_chains s \<and> bc_orphanIndex s' = bc_orphanIndex s
     \<and> bc_checkpoints s' = bc_checkpoints s \<and> m_is_in_checkpoint_zone s' = m_is_in_checkpoint_zone s"

lemma same_rest_refl [simp]: "same_rest s s"
  by (simp add: same_rest_def)

lemma same_rest_trans [trans]: "same_rest a b \<Longrightarrow> same_rest b c \<Longrightarrow> same_rest a c"
  by (simp add: same_rest_def)

definition extends :: "chain_env \<Rightarrow> block \<Rightarrow> blockchain \<Rightarrow> blockchain \<Rightarrow> bool" where
  "extends env b s s' \<longleftrightarrow>
     (\<exists>h difficulty txs be. block_checked env b h difficulty s \<and> completed env b txs difficulty s be
        \<and> m_blocks s' = m_blocks s @ [be] \<and> m_blockIndex s' = m_blockIndex s @ [h]) \<and> same_rest s s'"

lemma push_transactions_node:
  assumes ok: "node_ok S T (s, p)" and b: "b \<in> S" "sane env S T"
    and load: "loadTransactions env s [] (transactionHashes b) p = Inr (Some txs, p1)"
    and run: "pushBlock_transactions env b txs bvc s = Inr (r, bvc', s')"
  shows "if r then node_ok S T (s', p1) \<and> extends env b s s' \<and> bvc' = bvc\<lparr>bvc_added_to_main_chain := True\<rparr> else s' = s"
proof -
  consider "\<not> r" "s' = s" | h difficulty where "block_checked env b h difficulty s"
    using pushBlock_transactions_checked [OF run] by blast
  then show ?thesis
  proof cases
    case 2
    have new: "block_new b txs s" by (rule loaded_new [OF ok b 2 load])
    have inv: "chain_inv s" using ok by (simp add: node_ok_def)
    have known: "list_all (known T) txs" using loadTransactions_sound [OF _ _ load, of T] ok by (simp add: node_ok_def)
    note T = known_txs [OF this]
    have fits: "\<not> oversized env b txs s" using b new T by (auto simp: sane_def block_new_def)
    note cases = pushBlock_transactions_cases [OF run new keys_ok_chain [OF inv]]
    show ?thesis
    proof (cases r)
      case True
      then have bvc: "bvc' = bvc\<lparr>bvc_added_to_main_chain := True\<rparr>" using cases by blast
      obtain h difficulty be s1 l where *: "block_checked env b h difficulty s" "completed env b txs difficulty s be"
        "grows s (block_steps (length (m_blocks s)) (baseTransaction b # txs)) s1" "chain_inv s'"
        and s': "s' = s1\<lparr>m_blocks := m_blocks s @ [be], m_blockIndex := m_blockIndex s @ [h],
          bc_timestampIndex := timestamp_add (timestamp b) h (bc_timestampIndex s),
          bc_generatedIndex := generated_of (map (\<lambda>be. length (transactionHashes (be_bl be))) (m_blocks s @ [be])),
          m_current_block_cumul_sz_limit := l\<rparr>"
        using run True by (auto intro: pushed_chain [OF inv new])
      note same = grows_same [OF *(3)]
      have ext: "extends env b s s'" unfolding extends_def same_rest_def using *(1,2) by (auto simp: s' same)
      have be: "be_bl be = b" using *(2) by (simp add: completed_def)
      have entry: "tl (entry_txs be) = txs" using *(2) by (simp add: completed_def entry_txs_def)
      have pool: "pool_sound T p1" "pool_ids p1 \<subseteq> pool_ids p - set (transactionHashes b)"
        using loadTransactions_sound [OF _ _ load, of T] ok by (simp_all add: node_ok_def)
      have dom: "dom (m_transactionMap s') = insert (tx_hash (baseTransaction b)) (set (transactionHashes b))
          \<union> dom (m_transactionMap s)"
        using chain_dom [OF *(4)] chain_dom [OF inv] be by (auto simp: s')
      have "apart s' p1" using ok pool(2) b(1) unfolding apart_def dom by (auto simp: node_ok_def apart_def coinbase_ids_def)
      then show ?thesis
        using *(4) pool ok b(1) ext bvc True be entry T(2) by (auto simp: node_ok_def s')
    next
      case False
      then show ?thesis using cases fits by auto
    qed
  qed simp
qed

lemma push_node:
  assumes ok: "node_ok S T (s, p)" and b: "b \<in> S" "sane env S T" and run: "pushBlock env b bvc (s, p) = Inr (r, bvc', s', p')"
  shows "node_ok S T (s', p')" and "\<not> r \<Longrightarrow> s' = s"
    and "r \<Longrightarrow> extends env b s s'" and "r \<Longrightarrow> bvc' = bvc\<lparr>bvc_added_to_main_chain := True\<rparr>"
proof -
  obtain l p1 where load: "loadTransactions env s [] (transactionHashes b) p = Inr (l, p1)"
    using run by (auto simp: pushBlock_def split: sum.splits)
  have okp: "pool_sound T p" "list_all (known T) []" using ok by (simp_all add: node_ok_def)
  note sound = loadTransactions_sound [OF okp load]
  have "node_ok S T (s', p') \<and> (if r then extends env b s s' \<and> bvc' = bvc\<lparr>bvc_added_to_main_chain := True\<rparr> else s' = s)"
  proof (cases l)
    case None
    then have "r = False" "s' = s" "p' = p1" using run load by (auto simp: pushBlock_def)
    then show ?thesis using ok sound None by (auto simp: node_ok_def apart_def)
  next
    case (Some txs)
    obtain r1 bvc1 s1 where push: "pushBlock_transactions env b txs bvc s = Inr (r1, bvc1, s1)"
      using run load Some by (auto simp: pushBlock_def split: sum.splits)
    note node = push_transactions_node [OF ok b load [unfolded Some] push]
    show ?thesis
    proof (cases r1)
      case True
      then show ?thesis using run load Some push node by (simp add: pushBlock_def)
    next
      case False
      then obtain p2 where p2: "saveTransactions env s txs p1 = Inr p2" "r = False" "s' = s" "p' = p2"
        using run load Some push node by (auto simp: pushBlock_def split: sum.splits)
      have txs: "pool_sound T p1" "list_all (known T) txs" "tx_hash ` set txs = set (transactionHashes b)"
        "set (transactionHashes b) \<subseteq> pool_ids p" "pool_ids p1 \<subseteq> pool_ids p"
        using sound Some by (auto simp flip: set_map)
      from saveTransactions_sound [OF txs(1,2) p2(1)] have "pool_sound T p2" "pool_ids p2 \<subseteq> pool_ids p"
        using txs(3-5) by auto
      then show ?thesis using ok p2 by (auto simp: node_ok_def apart_def)
    qed
  qed
  then show "node_ok S T (s', p')" and "\<not> r \<Longrightarrow> s' = s" and "r \<Longrightarrow> extends env b s s'"
    and "r \<Longrightarrow> bvc' = bvc\<lparr>bvc_added_to_main_chain := True\<rparr>" by auto
qed

lemma pop_node:
  assumes ok: "node_ok S T (s, p)" and b: "sane env' S T" and blocks: "m_blocks s = bes @ [be]"
    and run: "popBlock env (last (m_blockIndex s)) (s, p) = Inr (s', p')"
  shows "node_ok S T (s', p')" and "m_blocks s' = bes" and "m_blockIndex s' = butlast (m_blockIndex s)" and "same_rest s s'"
proof -
  have inv: "chain_inv s" using ok by (simp add: node_ok_def)
  note pop = chain_inv_pop [OF inv blocks run]
  show "m_blocks s' = bes" and "m_blockIndex s' = butlast (m_blockIndex s)" by (rule pop)+
  from popBlock_cases [OF inv blocks run] obtain s0 where g0: "grows (empty_caches s) (chain_steps bes) s0"
    and s': "s' = s0\<lparr>m_blocks := bes, m_blockIndex := butlast (m_blockIndex s),
      bc_timestampIndex := snd (timestamp_remove (timestamp (be_bl be)) (last (m_blockIndex s)) (bc_timestampIndex s)),
      bc_generatedIndex := generated_of (map (\<lambda>be. length (transactionHashes (be_bl be))) bes)\<rparr>"
    and save: "saveTransactions env s (tl (entry_txs be)) p = Inr p'" .
  show "same_rest s s'" using grows_same [OF g0] by (simp add: same_rest_def s' empty_caches_def)
  have "stored_ok (length bes) be" using inv blocks by (auto simp: chain_inv_def nth_append)
  then obtain txs where txs: "entry_txs be = baseTransaction (be_bl be) # txs" "map tx_hash txs = transactionHashes (be_bl be)"
    "list_all semantic_ok txs" by (auto simp: stored_ok_def)
  have known: "list_all (known T) txs" using ok txs(1,3) by (auto simp: node_ok_def blocks known_def list_all_iff)
  have hs: "tx_hash ` set txs = set (transactionHashes (be_bl be))" using txs(2) by (simp flip: set_map)
  have p': "pool_sound T p'" "pool_ids p' \<subseteq> set (transactionHashes (be_bl be)) \<union> pool_ids p"
    using saveTransactions_sound [of T p txs env s p'] ok save txs hs known by (simp_all add: node_ok_def)
  have dom: "dom (m_transactionMap s') \<subseteq> dom (m_transactionMap s) - set (transactionHashes (be_bl be))"
  proof -
    have "grows (empty_caches s) (chain_steps bes @ block_steps (length bes) (entry_txs be)) s"
      using inv blocks by (simp add: chain_inv_def)
    then obtain s1 where "grows (empty_caches s) (chain_steps bes) s1" "grows s1 (block_steps (length bes) (entry_txs be)) s"
      unfolding grows_append by blast
    with grows_det [OF g0] have g: "grows s0 (block_steps (length bes) (entry_txs be)) s" by blast
    have "set (step_hashes (indexed b t (map (\<lambda>tx. (tx, tx_hash tx)) txs))) = tx_hash ` set txs" for b t txs
      by (induction txs arbitrary: t) simp_all
    then have "set (transactionHashes (be_bl be)) \<inter> dom (m_transactionMap s0) = {}"
      using grows_map(3) [OF g] hs txs(1) by (auto simp: block_steps_def)
    moreover have "dom (m_transactionMap s0) \<subseteq> dom (m_transactionMap s)" using grows_map(1) [OF g] by auto
    ultimately show ?thesis by (auto simp: s')
  qed
  have "pool_ids p' \<inter> dom (m_transactionMap s') = {}" 
  proof -
    have "pool_ids p \<inter> dom (m_transactionMap s) = {}" using ok by (simp add: node_ok_def apart_def)
    then show ?thesis using dom p'(2) by fast
  qed
  moreover have "set (transactionHashes (be_bl be)) \<inter> coinbase_ids S = {}"
    using ok b blocks by (auto simp: node_ok_def sane_def)
  ultimately show "node_ok S T (s', p')"
    using ok p' pop(1,2) blocks by (fastforce simp: node_ok_def apart_def)
qed

end
