(* ===== verification/Reorg.thy ===== *)
theory Reorg
  imports Node
begin

text \<open>
  Alternative branches and the switch of the main chain to one of them: the work that is counted for a branch is the
  work it has as the main chain, and the main chain only gives way to more work.
\<close>

section \<open>The work behind a branch\<close>

lemma getDifficulty_blocks: "m_blocks s = m_blocks s' \<Longrightarrow> getDifficultyForNextBlock env s = getDifficultyForNextBlock env s'"
  by (simp add: getDifficultyForNextBlock_def)

lemma branch_difficulty:
  assumes "0 < difficultyBlocksCount env" and "0 < split" and "split \<le> length (m_blocks s)"
    and "unat (be_height (if chain \<noteq> [] then hd chain else bei)) = split"
  shows "get_next_difficulty_for_alternative_chain env s chain bei
    = getDifficultyForNextBlock env (s\<lparr>m_blocks := take split (m_blocks s) @ chain\<rparr>)"
proof -
  define c where "c = difficultyBlocksCount env"
  define main where "main = take split (m_blocks s)"
  have main: "length main = split" using assms(3) by (simp add: main_def)
  define window where "window = drop (if split + length chain \<le> c then 1 else split + length chain - c) (main @ chain)"
  have right: "getDifficultyForNextBlock env (s\<lparr>m_blocks := main @ chain\<rparr>) =
      nextDifficulty (env_currency env) (map (\<lambda>be. timestamp (be_bl be)) window) (map cumulative_difficulty window)"
    by (auto simp: getDifficultyForNextBlock_def Let_def main c_def window_def min_def)
  show ?thesis
  proof (cases "length chain < c")
    case True
    define start where "start = (if split + length chain \<le> c then 1 else split + length chain - c)"
    have "(let n = split - min (c - min c (length chain)) split in if n = 0 then 1 else n) = start"
      using True assms(2) by (auto simp: start_def min_def Let_def)
    moreover have window: "window = drop start main @ chain" "length (drop start main @ chain) \<le> c"
      using True assms(2) main by (auto simp: window_def start_def)
    ultimately show ?thesis
      using True assms(3,4) main
      by (simp add: get_next_difficulty_for_alternative_chain_def c_def [symmetric] Let_def main_def [symmetric] right window(1))
  next
    case False
    then have "window = drop (length chain - c) chain"
      using assms(1,2) main by (auto simp: window_def c_def)
    moreover have "c \<noteq> 0" using assms(1) by (simp add: c_def)
    ultimately show ?thesis
      using False by (simp add: get_next_difficulty_for_alternative_chain_def c_def [symmetric] Let_def main_def [symmetric] right)
  qed
qed

text \<open>The difficulty depends on the timestamps and the work of the blocks alone.\<close>

definition similar_entry :: "block_entry \<Rightarrow> block_entry \<Rightarrow> bool" where
  "similar_entry a b \<longleftrightarrow> be_bl a = be_bl b \<and> be_height a = be_height b \<and> cumulative_difficulty a = cumulative_difficulty b"

abbreviation similar :: "block_entry list \<Rightarrow> block_entry list \<Rightarrow> bool" where
  "similar \<equiv> list_all2 similar_entry"

lemma similar_refl [simp]: "similar xs xs"
  by (simp add: list_all2_same similar_entry_def)

lemma similar_sym: "similar xs ys \<Longrightarrow> similar ys xs"
  by (auto simp: list_all2_conv_all_nth similar_entry_def)

lemma similar_trans: "similar xs ys \<Longrightarrow> similar ys zs \<Longrightarrow> similar xs zs"
  by (auto simp: list_all2_conv_all_nth similar_entry_def)

lemma similar_last:
  assumes "similar xs ys" and "xs \<noteq> []"
  shows "similar_entry (last xs) (last ys)"
proof -
  have "length xs = length ys" "ys \<noteq> []" using assms by (auto dest: list_all2_lengthD)
  moreover from this have "length ys - 1 < length xs" by (cases ys) auto
  ultimately show ?thesis using assms list_all2_nthD [OF assms(1), of "length ys - 1"] by (simp add: last_conv_nth)
qed

lemma similar_maps:
  assumes "similar xs ys"
  shows "map be_bl xs = map be_bl ys" and "map cumulative_difficulty xs = map cumulative_difficulty ys"
  using assms by (induction rule: list_all2_induct) (simp_all add: similar_entry_def)

definition diff_of :: "chain_env \<Rightarrow> block_entry list \<Rightarrow> exn + u64" where
  "diff_of env bes = getDifficultyForNextBlock env (blockchain_new\<lparr>m_blocks := bes\<rparr>)"

lemma diff_of_blocks: "getDifficultyForNextBlock env s = diff_of env (m_blocks s)"
  unfolding diff_of_def by (rule getDifficulty_blocks) simp

lemma diff_of_similar:
  assumes "similar xs ys"
  shows "diff_of env xs = diff_of env ys"
proof -
  have "length xs = length ys" using assms by (rule list_all2_lengthD)
  moreover have "similar (drop k xs) (drop k ys)" for k using assms by (rule list_all2_dropI)
  then have "map be_bl (drop k xs) = map be_bl (drop k ys)"
    "map cumulative_difficulty (drop k xs) = map cumulative_difficulty (drop k ys)" for k
    by (simp_all add: similar_maps)
  then have "map timestamp (map be_bl (drop k xs)) = map timestamp (map be_bl (drop k ys))"
    "map cumulative_difficulty (drop k xs) = map cumulative_difficulty (drop k ys)" for k by simp_all
  ultimately show ?thesis by (simp add: diff_of_def getDifficultyForNextBlock_def Let_def comp_def)
qed

text \<open>A chain of entries with the heights, the links and the work they should have.\<close>

definition follows :: "chain_env \<Rightarrow> block_entry list \<Rightarrow> block_entry \<Rightarrow> bool" where
  "follows env bes be \<longleftrightarrow>
     be_height be = of_nat (length bes) \<and> tx_inputs (baseTransaction (be_bl be)) = [BaseInput (of_nat (length bes))]
     \<and> (if bes = [] then previousBlockHash (be_bl be) = NULL_HASH
        else getHash (be_bl (last bes)) = Inr (previousBlockHash (be_bl be)))
     \<and> (\<exists>d. diff_of env bes = Inr d \<and> cumulative_difficulty be = d + (if bes = [] then 0 else cumulative_difficulty (last bes)))"

inductive worked :: "chain_env \<Rightarrow> block_entry list \<Rightarrow> bool" for env where
  worked_Nil: "worked env []"
| worked_snoc: "worked env bes \<Longrightarrow> follows env bes be \<Longrightarrow> worked env (bes @ [be])"

lemma worked_snoc_iff: "worked env (bes @ [be]) \<longleftrightarrow> worked env bes \<and> follows env bes be"
  by (subst worked.simps) auto

lemma worked_append: "worked env (xs @ ys) \<Longrightarrow> worked env xs"
  by (induction ys rule: rev_induct) (auto simp: worked_snoc_iff simp flip: append_assoc)

lemma worked_take: "worked env bes \<Longrightarrow> worked env (take n bes)"
  using worked_append [of env "take n bes" "drop n bes"] by simp

lemma follows_similar:
  assumes "similar xs ys" and "similar_entry x y" and "follows env xs x"
  shows "follows env ys y"
proof -
  have "xs = [] \<longleftrightarrow> ys = []" "length xs = length ys" using assms(1) by (auto dest: list_all2_lengthD)
  moreover have "similar_entry (last xs) (last ys)" if "xs \<noteq> []"
    using assms(1) that by (rule similar_last)
  ultimately show ?thesis
    using assms(2,3) diff_of_similar [OF assms(1), of env] by (auto simp: follows_def similar_entry_def)
qed

lemma worked_similar: "worked env xs \<Longrightarrow> similar xs ys \<Longrightarrow> worked env ys"
proof (induction arbitrary: ys rule: worked.induct)
  case (worked_snoc bes be)
  obtain ys' y where "ys = ys' @ [y]" "similar bes ys'" "similar_entry be y"
    using worked_snoc(4) by (auto simp: list_all2_append1 list_all2_Cons1)
  then show ?case using worked_snoc by (simp add: worked_snoc_iff follows_similar)
qed (simp add: worked_Nil)

text \<open>Two chains with the same last block are the same chain, as long as different blocks have different hashes.\<close>

definition hashes_apart :: "block set \<Rightarrow> bool" where
  "hashes_apart S \<longleftrightarrow> (\<forall>b \<in> S. \<forall>b' \<in> S. \<forall>h. getHash b = Inr h \<longrightarrow> getHash b' = Inr h \<longrightarrow> b = b')"

lemma worked_unique:
  assumes "worked env xs" and "worked env ys" and "length xs < 4294967296" and "length ys < 4294967296"
    and "be_bl ` set xs \<subseteq> S" and "be_bl ` set ys \<subseteq> S" and "hashes_apart S" and "xs \<noteq> []" and "ys \<noteq> []"
    and "getHash (be_bl (last xs)) = Inr h" and "getHash (be_bl (last ys)) = Inr h"
  shows "similar xs ys"
  using assms
proof (induction arbitrary: ys h rule: worked.induct)
  case (worked_snoc xs x)
  obtain zs y where ys: "ys = zs @ [y]" using worked_snoc.prems(8) by (cases ys rule: rev_cases) auto
  have zs: "worked env zs" "follows env zs y" using worked_snoc.prems(1) by (simp_all add: ys worked_snoc_iff)
  have bl: "be_bl x = be_bl y" using worked_snoc.prems by (auto simp: hashes_apart_def ys)
  then have "(of_nat (length xs) :: u32) = of_nat (length zs)" using worked_snoc.hyps(2) zs(2) by (simp add: follows_def)
  then have "unat (of_nat (length xs) :: u32) = unat (of_nat (length zs) :: u32)" by simp
  then have len: "length xs = length zs" using worked_snoc.prems(2,3) by (simp add: ys unat_of_nat_u32)
  have sim: "similar xs zs"
  proof (cases "xs = []")
    case False
    then have "zs \<noteq> []" using len by auto
    moreover have "getHash (be_bl (last xs)) = Inr (previousBlockHash (be_bl x))"
      "getHash (be_bl (last zs)) = Inr (previousBlockHash (be_bl x))"
      using False \<open>zs \<noteq> []\<close> worked_snoc.hyps(2) zs(2) bl by (simp_all add: follows_def)
    ultimately show ?thesis using worked_snoc.IH [OF zs(1)] worked_snoc.prems False by (simp add: ys)
  qed (use len in simp)
  have "similar_entry (last xs) (last zs)" if "xs \<noteq> []"
    using sim that by (rule similar_last)
  then have "similar_entry x y"
    using worked_snoc.hyps(2) zs(2) bl diff_of_similar [OF sim, of env] len
    by (auto simp: follows_def similar_entry_def)
  then show ?case using sim by (simp add: ys list_all2_appendI)
qed simp

section \<open>Alternative branches\<close>

lemma last_take_nth: "0 < n \<Longrightarrow> n \<le> length xs \<Longrightarrow> last (take n xs) = xs ! (n - 1)"
  by (cases n) (simp_all add: take_Suc_conv_app_nth)

lemma index_hash:
  assumes "chain_inv s" and "n < length (m_blocks s)"
  shows "getHash (be_bl (m_blocks s ! n)) = Inr (m_blockIndex s ! n)"
  using assms by (auto simp: chain_inv_def index_ok_def dest: list_all2_nthD)

lemma worked_extends:
  assumes inv: "chain_inv s" and "worked env (m_blocks s)" and "extends env b s s'"
  shows "worked env (m_blocks s')"
proof -
  obtain h difficulty txs be where *: "block_checked env b h difficulty s" "completed env b txs difficulty s be"
    "m_blocks s' = m_blocks s @ [be]"
    using assms(3) unfolding extends_def by blast
  have idx: "index_ok (m_blocks s) (m_blockIndex s)" using inv by (simp add: chain_inv_def)
  have hash: "getHash (be_bl (last (m_blocks s))) = Inr (last (m_blockIndex s))" if "m_blocks s \<noteq> []"
    using that index_hash [OF inv, of "length (m_blocks s) - 1"] index_ok_length [OF idx]
    by (metis One_nat_def diff_less last_conv_nth length_greater_0_conv zero_less_one)
  have "follows env (m_blocks s) be"
    using * hash getTailId_index [OF idx]
    by (auto simp: follows_def completed_def block_checked_def diff_of_blocks dest: prevalidated_base)
  then show ?thesis using assms(2) by (simp add: *(3) worked_snoc_iff)
qed

text \<open>
  What holds of the alternative blocks: each is stored under its hash, and is the end of a chain of seen blocks with the
  work that chain has.
\<close>

definition path_to :: "chain_env \<Rightarrow> block set \<Rightarrow> block_entry list \<Rightarrow> block_entry \<Rightarrow> bool" where
  "path_to env S bes e \<longleftrightarrow>
     bes \<noteq> [] \<and> worked env (bes @ [e]) \<and> length bes < 4294967295 \<and> be_bl ` set (bes @ [e]) \<subseteq> S"

definition alts_ok :: "chain_env \<Rightarrow> block set \<Rightarrow> (hash_t \<rightharpoonup> block_entry) \<Rightarrow> bool" where
  "alts_ok env S alts \<longleftrightarrow> (\<forall>h e. alts h = Some e \<longrightarrow> getHash (be_bl e) = Inr h \<and> (\<exists>bes. path_to env S bes e))"

text \<open>The branch that ends with an entry, and what the entries below it are.\<close>

definition branch_ok :: "(hash_t \<rightharpoonup> block_entry) \<Rightarrow> alt_chain \<Rightarrow> block_entry list \<Rightarrow> bool" where
  "branch_ok alts chain bes \<longleftrightarrow>
     chain \<noteq> [] \<and> (\<forall>(k, x) \<in> set chain. alts k = Some x)
     \<and> alts (previousBlockHash (be_bl (snd (hd chain)))) = None
     \<and> 0 < unat (be_height (snd (hd chain))) \<and> unat (be_height (snd (hd chain))) < length bes
     \<and> similar (drop (unat (be_height (snd (hd chain)))) bes) (map snd chain)"

lemma alt_walk_path:
  assumes "alts_ok env S alts" and "hashes_apart S" and "alts h = Some e" and "path_to env S bes e"
  shows "\<exists>chain. alt_walk alts h acc = Some (chain @ acc) \<and> branch_ok alts chain (bes @ [e]) \<and> last chain = (h, e)"
  using assms(3,4)
proof (induction "length bes" arbitrary: bes h e acc rule: less_induct)
  case less
  have path: "bes \<noteq> []" "worked env bes" "follows env bes e" "length bes < 4294967295" "be_bl ` set bes \<subseteq> S" "be_bl e \<in> S"
    using less.prems(2) by (auto simp: path_to_def worked_snoc_iff)
  define prev where "prev = previousBlockHash (be_bl e)"
  have step: "alt_walk alts h acc = alt_walk alts prev ((h, e) # acc)"
    using less.prems(1) by (subst alt_walk.simps) (simp add: prev_def)
  have height: "unat (be_height e) = length bes" using path(3,4) by (simp add: follows_def unat_of_nat_u32)
  have prev: "getHash (be_bl (last bes)) = Inr prev" using path(1,3) by (simp add: follows_def prev_def)
  show ?case
  proof (cases "alts prev")
    case None
    then have "alt_walk alts prev ((h, e) # acc) = Some ([(h, e)] @ acc)" by (subst alt_walk.simps) simp
    moreover have "branch_ok alts [(h, e)] (bes @ [e])"
      using less.prems(1) path(1) None by (simp add: branch_ok_def height prev_def similar_entry_def)
    ultimately show ?thesis using step by (intro exI [of _ "[(h, e)]"]) simp
  next
    case (Some e')
    then obtain bes' where e': "getHash (be_bl e') = Inr prev" "path_to env S bes' e'"
      using assms(1) by (auto simp: alts_ok_def)
    have sim: "similar (bes' @ [e']) bes"
      using e' prev path by (intro worked_unique [OF _ path(2) _ _ _ path(5) assms(2) _ path(1) _ prev]) (auto simp: path_to_def)
    then have len: "Suc (length bes') = length bes" by (auto dest: list_all2_lengthD)
    obtain chain where chain: "alt_walk alts prev ((h, e) # acc) = Some (chain @ (h, e) # acc)"
      "branch_ok alts chain (bes' @ [e'])"
      using less.hyps [of bes' prev e' "(h, e) # acc"] Some e'(2) len by auto
    let ?n = "unat (be_height (snd (hd chain)))"
    have b: "chain \<noteq> []" "\<forall>(k, x) \<in> set chain. alts k = Some x"
      "alts (previousBlockHash (be_bl (snd (hd chain)))) = None" "0 < ?n" "?n < length bes"
      "similar (drop ?n (bes' @ [e'])) (map snd chain)"
      using chain(2) len unfolding branch_ok_def by auto
    have "similar (drop ?n bes) (map snd chain)"
      using list_all2_dropI [OF similar_sym [OF sim], of ?n] b(6) by (rule similar_trans)
    then have "similar (drop ?n (bes @ [e])) (map snd (chain @ [(h, e)]))"
      using b(5) by (simp add: list_all2_appendI similar_entry_def)
    then have "branch_ok alts (chain @ [(h, e)]) (bes @ [e])"
      using b less.prems(1) by (simp add: branch_ok_def)
    then show ?thesis using step chain(1) by (intro exI [of _ "chain @ [(h, e)]"]) simp
  qed
qed

text \<open>
  The entries a branch stands on: the main chain up to the fork and the branch. They carry the work they should, and
  the branch ends with the block a new block names as its parent.
\<close>

lemma branch_base:
  assumes alts: "alts_ok env S (m_alternative_chains s)" and S: "hashes_apart S"
    and inv: "chain_inv s" "worked env (m_blocks s)" "be_bl ` set (m_blocks s) \<subseteq> S"
    and walk: "alt_walk (m_alternative_chains s) (previousBlockHash b) [] = Some chain" and ne: "chain \<noteq> []"
    and fork: "unat (be_height (snd (hd chain))) < length (m_blocks s)"
      "getHash (be_bl (m_blocks s ! unat (be_height (snd (hd chain)) - 1))) = Inr (previousBlockHash (be_bl (snd (hd chain))))"
  defines "base \<equiv> take (unat (be_height (snd (hd chain)))) (m_blocks s) @ map snd chain"
  shows "worked env base" and "length base < 4294967296" and "be_bl ` set base \<subseteq> S"
    and "getHash (be_bl (last base)) = Inr (previousBlockHash b)" and "0 < unat (be_height (snd (hd chain)))"
    and "be_height (snd (last chain)) + 1 = of_nat (length base)"
    and "\<forall>(k, x) \<in> set chain. m_alternative_chains s k = Some x"
proof -
  let ?alts = "m_alternative_chains s"
  let ?n = "unat (be_height (snd (hd chain)))"
  have "?alts (previousBlockHash b) \<noteq> None" using walk ne by (auto simp: alt_walk.simps [of _ "previousBlockHash b"] split: option.splits)
  then obtain e where e: "?alts (previousBlockHash b) = Some e" by blast
  then obtain bes where bes: "getHash (be_bl e) = Inr (previousBlockHash b)" "path_to env S bes e"
    using alts by (auto simp: alts_ok_def)
  from alt_walk_path [OF alts S e bes(2), of "[]"] walk
  have br: "branch_ok ?alts chain (bes @ [e])" "last chain = (previousBlockHash b, e)" by auto
  define path where "path = bes @ [e]"
  have path: "worked env path" "length path < 4294967296" "be_bl ` set path \<subseteq> S" "path \<noteq> []"
    using bes(2) by (simp_all add: path_def path_to_def)
  have b: "\<forall>(k, x) \<in> set chain. ?alts k = Some x" "0 < ?n" "?n < length path" "similar (drop ?n path) (map snd chain)"
    using br unfolding branch_ok_def path_def by auto
  show "0 < ?n" and "\<forall>(k, x) \<in> set chain. ?alts k = Some x" by fact+
  have "similar_entry (path ! ?n) (snd (hd chain))"
    using list_all2_nthD [OF b(4), of 0] b(3) ne by (simp add: hd_conv_nth)
  moreover have "follows env (take ?n path) (path ! ?n)"
    using worked_take [OF path(1), of "Suc ?n"] b(3) by (simp add: take_Suc_conv_app_nth worked_snoc_iff)
  ultimately have below: "getHash (be_bl (last (take ?n path))) = Inr (previousBlockHash (be_bl (snd (hd chain))))"
    using b(2,3) path(4) by (auto simp: follows_def similar_entry_def)
  have "unat (be_height (snd (hd chain)) - 1) = ?n - 1" using b(2) by (intro unat_minus_one) (metis less_irrefl unat_0)
  then have at: "last (take ?n (m_blocks s)) = m_blocks s ! unat (be_height (snd (hd chain)) - 1)"
    using b(2) fork(1) by (simp add: last_take_nth)
  have "length (m_blocks s) < 4294967296" using inv(1) by (simp add: chain_inv_def)
  then have "similar (take ?n path) (take ?n (m_blocks s))"
    using path inv b(2,3) fork
    by (intro worked_unique [OF worked_take worked_take _ _ subset_trans [OF image_mono [OF set_take_subset]]
            subset_trans [OF image_mono [OF set_take_subset]] S _ _ below])
      (auto simp: at)
  from list_all2_appendI [OF this b(4)] have sim: "similar path base" by (simp add: base_def)
  show "worked env base" by (rule worked_similar [OF path(1) sim])
  show "length base < 4294967296" using path(2) list_all2_lengthD [OF sim] by simp
  have "set (map be_bl path) = set (map be_bl base)" using similar_maps(1) [OF sim] by simp
  then show "be_bl ` set base \<subseteq> S" using path(3) by simp
  have "similar_entry (last path) (last base)" by (rule similar_last [OF sim path(4)])
  then show "getHash (be_bl (last base)) = Inr (previousBlockHash b)"
    using bes(1) by (simp add: path_def similar_entry_def)
  have "follows env bes e" using bes(2) by (simp add: path_to_def worked_snoc_iff)
  moreover have "length base = Suc (length bes)" using list_all2_lengthD [OF sim] by (simp add: path_def)
  ultimately show "be_height (snd (last chain)) + 1 = of_nat (length base)" using br(2) by (simp add: follows_def)
qed

section \<open>Taking blocks off and putting them on\<close>

definition work_ok :: "chain_env \<Rightarrow> block set \<Rightarrow> transaction set \<Rightarrow> chain_state \<Rightarrow> bool" where
  "work_ok env S T sp \<longleftrightarrow> node_ok S T sp \<and> worked env (m_blocks (fst sp))"

lemma push_work:
  assumes ok: "work_ok env S T (s, p)" and b: "b \<in> S" "sane env S T" and run: "pushBlock env b bvc (s, p) = Inr (r, bvc', s', p')"
  shows "work_ok env S T (s', p')" and "same_rest s s'" and "\<not> r \<Longrightarrow> s' = s"
    and "r \<Longrightarrow> \<exists>be. m_blocks s' = m_blocks s @ [be] \<and> be_bl be = b" and "r \<Longrightarrow> bvc_added_to_main_chain bvc'"
proof -
  have inv: "node_ok S T (s, p)" "chain_inv s" "worked env (m_blocks s)" using ok by (simp_all add: work_ok_def node_ok_def)
  note push = push_node [OF inv(1) b run]
  show "\<not> r \<Longrightarrow> s' = s" and "r \<Longrightarrow> bvc_added_to_main_chain bvc'" using push by simp_all
  show "r \<Longrightarrow> \<exists>be. m_blocks s' = m_blocks s @ [be] \<and> be_bl be = b"
    using push(3) by (auto simp: extends_def completed_def)
  show "work_ok env S T (s', p')" using push worked_extends [OF inv(2,3), of b s'] inv(3) by (cases r) (simp_all add: work_ok_def)
  show "same_rest s s'" using push(2,3) by (cases r) (simp_all add: extends_def)
qed

lemma disconnect_loop_work:
  assumes "work_ok env S T (s, p)" and "sane env S T" and "disconnect_loop env n acc (s, p) = Inr (d, s', p')"
  shows "work_ok env S T (s', p') \<and> same_rest s s' \<and> m_blocks s' = take (length (m_blocks s) - n) (m_blocks s)
    \<and> d = map be_bl (drop (length (m_blocks s) - n) (m_blocks s)) @ acc"
  using assms(1,3)
proof (induction n arbitrary: s p acc)
  case (Suc n)
  have ne: "m_blocks s \<noteq> []" using Suc.prems(2) by auto
  then obtain bes be where blocks: "m_blocks s = bes @ [be]" by (meson rev_exhaust)
  have inv: "node_ok S T (s, p)" "chain_inv s" "worked env (m_blocks s)" using Suc.prems(1) by (simp_all add: work_ok_def node_ok_def)
  have "length (m_blockIndex s) = length (m_blocks s)" using inv(2) by (simp add: chain_inv_def index_ok_length)
  then have hash: "getHash (be_bl be) = Inr (last (m_blockIndex s))"
    using index_hash [OF inv(2), of "length bes"] by (cases "m_blockIndex s" rule: rev_cases) (auto simp: blocks nth_append)
  then obtain s1 p1 where pop: "popBlock env (last (m_blockIndex s)) (s, p) = Inr (s1, p1)"
    and run: "disconnect_loop env n (be_bl be # acc) (s1, p1) = Inr (d, s', p')"
    using Suc.prems(2) by (auto simp: blocks split: sum.splits)
  note p = pop_node [OF inv(1) assms(2) blocks pop]
  have "worked env bes" using inv(3) by (simp add: blocks worked_snoc_iff)
  then have "work_ok env S T (s1, p1)" using p by (simp add: work_ok_def)
  from Suc.IH [OF this run] p(2,4) show ?case by (auto simp: blocks intro: same_rest_trans)
qed simp

lemma disconnect_work:
  assumes "work_ok env S T (s, p)" and "sane env S T" and "disconnect env n (s, p) = Inr (d, s', p')" and "n \<le> length (m_blocks s)"
  shows "work_ok env S T (s', p')" and "same_rest s s'" and "m_blocks s' = take n (m_blocks s)"
    and "d = map be_bl (drop n (m_blocks s))"
proof -
  have "disconnect_loop env (length (m_blocks s) - n) [] (s, p) = Inr (d, s', p')"
    using assms(3) by (auto simp: disconnect_def split: sum.splits if_splits)
  note * = disconnect_loop_work [OF assms(1,2) this]
  show "work_ok env S T (s', p')" and "same_rest s s'" and "m_blocks s' = take n (m_blocks s)"
    and "d = map be_bl (drop n (m_blocks s))" using * assms(4) by simp_all
qed

lemma reconnect_loop_work:
  assumes "work_ok env S T (s, p)" and "sane env S T" and "set bs \<subseteq> S" and "reconnect_loop env bs (s, p) = Inr (r, s', p')"
  shows "work_ok env S T (s', p') \<and> same_rest s s'
    \<and> (\<exists>new k. m_blocks s' = m_blocks s @ new \<and> map be_bl new = take k bs \<and> (r \<longrightarrow> k = length bs))"
  using assms(1,3,4)
proof (induction bs arbitrary: s p)
  case (Cons b bs)
  obtain r1 bvc s1 p1 where push: "pushBlock env b bvc_new (s, p) = Inr (r1, bvc, s1, p1)"
    using Cons.prems(3) by (auto split: sum.splits)
  have b: "b \<in> S" using Cons.prems(2) by simp
  note p = push_work [OF Cons.prems(1) b assms(2) push]
  show ?case
  proof (cases r1)
    case False
    then show ?thesis using Cons.prems(3) push p by (auto intro!: exI [of _ 0])
  next
    case True
    then have "reconnect_loop env bs (s1, p1) = Inr (r, s', p')" using Cons.prems(3) push p(5) by simp
    from Cons.IH [OF p(1) _ this] Cons.prems(2) obtain new k where
      *: "work_ok env S T (s', p')" "same_rest s1 s'" "m_blocks s' = m_blocks s1 @ new" "map be_bl new = take k bs"
        "r \<longrightarrow> k = length bs" by auto
    obtain be where be: "m_blocks s1 = m_blocks s @ [be]" "be_bl be = b" using p(4) True by blast
    have "m_blocks s' = m_blocks s @ be # new" "map be_bl (be # new) = take (Suc k) (b # bs)" using * be by simp_all
    then show ?thesis using * same_rest_trans [OF p(2)] by (metis length_Cons)
  qed
qed simp

lemma rollback_work:
  assumes "work_ok env S T (s, p)" and "sane env S T" and "set bs \<subseteq> S" and "n \<le> length (m_blocks s)"
    and "rollback_blockchain_switching env bs n (s, p) = Inr (r, s', p')"
  shows "work_ok env S T (s', p')" and "same_rest s s'"
    and "\<exists>new k. m_blocks s' = take n (m_blocks s) @ new \<and> map be_bl new = take k bs \<and> (r \<longrightarrow> k = length bs)"
proof -
  obtain d s1 p1 where dis: "disconnect env n (s, p) = Inr (d, s1, p1)"
    and re: "reconnect_loop env bs (s1, p1) = Inr (r, s', p')"
    using assms(5) by (auto simp: rollback_blockchain_switching_def split: sum.splits)
  note d = disconnect_work [OF assms(1,2) dis assms(4)]
  note r = reconnect_loop_work [OF d(1) assms(2,3) re]
  show "work_ok env S T (s', p')" and "same_rest s s'" using r same_rest_trans [OF d(2)] by blast+
  show "\<exists>new k. m_blocks s' = take n (m_blocks s) @ new \<and> map be_bl new = take k bs \<and> (r \<longrightarrow> k = length bs)"
    using r by (simp add: d(3))
qed

section \<open>Entering a block among the alternatives\<close>

text \<open>The fields of the chain state that hold no blocks of the main chain.\<close>

definition aside :: "blockchain \<Rightarrow> blockchain \<Rightarrow> bool" where
  "aside s s' \<longleftrightarrow> (\<exists>a ob z. s' = s\<lparr>m_alternative_chains := a, bc_orphanIndex := ob, m_is_in_checkpoint_zone := z\<rparr>)"

lemma aside_simps [simp]:
  "aside s s" "aside s (s\<lparr>m_alternative_chains := a\<rparr>)" "aside s (s\<lparr>bc_orphanIndex := ob\<rparr>)"
  "aside s (s\<lparr>m_is_in_checkpoint_zone := z\<rparr>)"
  by (cases s; auto simp: aside_def)+

lemma aside_trans: "aside a b \<Longrightarrow> aside b c \<Longrightarrow> aside a c"
  by (cases a) (auto simp: aside_def)

lemma aside_same:
  assumes "aside s s'"
  shows "m_blocks s' = m_blocks s" and "m_blockIndex s' = m_blockIndex s" and "bc_checkpoints s' = bc_checkpoints s"
    and "m_transactionMap s' = m_transactionMap s"
  using assms by (auto simp: aside_def)

lemma work_ok_aside:
  assumes "aside s s'" and "work_ok env S T (s, p)"
  shows "work_ok env S T (s', p)"
proof -
  have "chain_inv s" using assms(2) by (simp add: work_ok_def node_ok_def)
  then have "chain_inv s'"
  proof (rule chain_inv_reframe)
    show "reframe s' s = s'" using assms(1) by (auto simp: aside_def reframe_def)
  qed (use assms(1) in \<open>auto simp: aside_def\<close>)
  then show ?thesis using assms(2) by (simp add: work_ok_def node_ok_def apart_def aside_same [OF assms(1)])
qed

lemma erase_alternatives_aside:
  "erase_alternatives chain s = Inr s' \<Longrightarrow>
   aside s s' \<and> m_alternative_chains s' = m_alternative_chains s |` (- fst ` set chain)"
proof (induction chain arbitrary: s)
  case (Cons x chain)
  obtain h be where x: "x = (h, be)" by (cases x)
  obtain s1 where s1: "remove_orphan (be_bl be) s = Inr s1"
    and run: "erase_alternatives chain (s1\<lparr>m_alternative_chains := (m_alternative_chains s1)(h := None)\<rparr>) = Inr s'"
    using Cons.prems by (auto simp: x split: sum.splits)
  have "aside s s1" "m_alternative_chains s1 = m_alternative_chains s"
    using s1 by (auto simp: remove_orphan_def split: sum.splits)
  moreover have "aside s1 s'" using Cons.IH [OF run] aside_trans [OF aside_simps(2)] by blast
  ultimately show ?case
    using Cons.IH [OF run] aside_trans [of s s1 s'] by (auto simp: x restrict_map_def fun_eq_iff)
qed (simp add: restrict_map_def)

lemma alts_ok_le: "alts_ok env S alts \<Longrightarrow> alts' \<subseteq>\<^sub>m alts \<Longrightarrow> alts_ok env S alts'"
  unfolding alts_ok_def map_le_def by (metis domI)

lemma connect_loop_work:
  assumes "work_ok env S T (s, p)" and "sane env S T" and "set bs \<subseteq> S" and "be_bl ` snd ` set chain \<subseteq> S"
    and "n \<le> length (m_blocks s)" and "connect_loop env bs n chain (s, p) = Inr (r, s', p')"
  shows "work_ok env S T (s', p') \<and> m_alternative_chains s' \<subseteq>\<^sub>m m_alternative_chains s \<and> bc_checkpoints s' = bc_checkpoints s
    \<and> (r \<longrightarrow> (\<exists>new. m_blocks s' = m_blocks s @ new \<and> map be_bl new = map be_bl (map snd chain)))
    \<and> (\<not> r \<longrightarrow> (\<exists>new k. m_blocks s' = take n (m_blocks s) @ new \<and> map be_bl new = take k bs))"
  using assms(1,4-6)
proof (induction chain arbitrary: s p)
  case (Cons x chain)
  obtain h e where x: "x = (h, e)" by (cases x)
  obtain r1 bvc s1 p1 where push: "pushBlock env (be_bl e) bvc_new (s, p) = Inr (r1, bvc, s1, p1)"
    using Cons.prems(4) by (auto simp: x split: sum.splits)
  have e: "be_bl e \<in> S" using Cons.prems(2) by (simp add: x)
  note p = push_work [OF Cons.prems(1) e assms(2) push]
  have alts1: "m_alternative_chains s1 = m_alternative_chains s" "bc_checkpoints s1 = bc_checkpoints s"
    using p(2) by (simp_all add: same_rest_def)
  show ?case
  proof (cases r1)
    case True
    then obtain be where be: "m_blocks s1 = m_blocks s @ [be]" "be_bl be = be_bl e" using p(4) by blast
    have run: "connect_loop env bs n chain (s1, p1) = Inr (r, s', p')" using Cons.prems(4) push p(5) True by (simp add: x)
    have n: "n \<le> length (m_blocks s1)" "be_bl ` snd ` set chain \<subseteq> S" using Cons.prems(2,3) by (simp_all add: be)
    note * = Cons.IH [OF p(1) n(2,1) run]
    moreover have "\<exists>new. m_blocks s' = m_blocks s @ new \<and> map be_bl new = map be_bl (map snd (x # chain))" if r
    proof -
      from * that obtain new where "m_blocks s' = m_blocks s1 @ new" "map be_bl new = map be_bl (map snd chain)" by blast
      then show ?thesis by (intro exI [of _ "be # new"]) (simp add: be x)
    qed
    ultimately show ?thesis using Cons.prems(3) by (auto simp: alts1 be)
  next
    case False
    then obtain q s2 p2 where undo: "rollback_blockchain_switching env bs n (s1, p1) = Inr (q, s2, p2)"
      and s': "erase_alternatives (x # chain) s2 = Inr s'" "r = False" "p' = p2"
      using Cons.prems(4) push by (auto simp: x split: sum.splits)
    have s1: "s1 = s" using p(3) False by simp
    note b = rollback_work [OF p(1) assms(2,3) _ undo]
    note er = erase_alternatives_aside [OF s'(1)]
    have "work_ok env S T (s', p')" using b(1) Cons.prems(3) er work_ok_aside by (auto simp: s1 s')
    moreover have "same_rest s s2" using b(2) Cons.prems(3) by (simp add: s1)
    moreover have "\<exists>new k. m_blocks s2 = take n (m_blocks s) @ new \<and> map be_bl new = take k bs"
      using b(3) Cons.prems(3) by (auto simp: s1)
    ultimately show ?thesis using er aside_same(1,3) [of s2 s'] s'(2) by (simp add: same_rest_def map_le_def)
  qed
qed simp

text \<open>
  The assumptions on the blocks the node has seen: different blocks have different hashes, and the heights they claim
  are in range.
\<close>

definition seen_ok :: "chain_env \<Rightarrow> block set \<Rightarrow> transaction set \<Rightarrow> bool" where
  "seen_ok env S T \<longleftrightarrow>
     sane env S T \<and> hashes_apart S \<and> 0 < difficultyBlocksCount env
     \<and> (\<forall>b \<in> S. \<forall>k. tx_inputs (baseTransaction b) = [BaseInput k] \<longrightarrow> k < 4294967295)"

text \<open>What a branch and the entry that is about to extend it have to do with the main chain.\<close>

definition fork_of :: "alt_chain \<Rightarrow> block_entry \<Rightarrow> nat" where
  "fork_of chain bei = unat (be_height (hd (map snd chain @ [bei])))"

definition ready :: "chain_env \<Rightarrow> block set \<Rightarrow> blockchain \<Rightarrow> alt_chain \<Rightarrow> block_entry \<Rightarrow> hash_t \<Rightarrow> bool" where
  "ready env S s chain bei h \<longleftrightarrow>
     0 < fork_of chain bei \<and> fork_of chain bei \<le> length (m_blocks s)
     \<and> path_to env S (take (fork_of chain bei) (m_blocks s) @ map snd chain) bei
     \<and> getHash (be_bl bei) = Inr h \<and> (\<forall>(k, x) \<in> set chain. m_alternative_chains s k = Some x)"

text \<open>The base of the branch, whether it has alternative blocks or starts on the main chain.\<close>

lemma branch_ready:
  assumes ok: "work_ok env S T (s, p)" "alts_ok env S (m_alternative_chains s)" and S: "seen_ok env S T" "b \<in> S" "getHash b = Inr h"
    and walk: "alt_walk (m_alternative_chains s) (previousBlockHash b) [] = Some chain"
    and times: "branch_timestamps env s chain (getBlockHeight (previousBlockHash b) (m_blockIndex s)) = Inr (Some ts)"
    and height: "be_height bei = (if chain \<noteq> [] then be_height (snd (last chain)) + 1
      else (case getBlockHeight (previousBlockHash b) (m_blockIndex s) of None \<Rightarrow> 0 | Some i \<Rightarrow> i) + 1)"
  defines "base \<equiv> take (fork_of chain bei) (m_blocks s) @ map snd chain"
  shows "0 < fork_of chain bei" and "fork_of chain bei \<le> length (m_blocks s)" and "worked env base"
    and "be_bl ` set base \<subseteq> S" and "be_height bei = of_nat (length base)" and "length base < 4294967296" and "base \<noteq> []"
    and "getHash (be_bl (last base)) = Inr (previousBlockHash b)"
    and "\<forall>(k, x) \<in> set chain. m_alternative_chains s k = Some x"
proof -
  have inv: "chain_inv s" "worked env (m_blocks s)" "be_bl ` set (m_blocks s) \<subseteq> S" "hashes_apart S"
    using ok S by (simp_all add: work_ok_def node_ok_def seen_ok_def)
  have "0 < fork_of chain bei \<and> fork_of chain bei \<le> length (m_blocks s) \<and> worked env base \<and> be_bl ` set base \<subseteq> S
    \<and> be_height bei = of_nat (length base) \<and> length base < 4294967296 \<and> base \<noteq> []
    \<and> getHash (be_bl (last base)) = Inr (previousBlockHash b) \<and> (\<forall>(k, x) \<in> set chain. m_alternative_chains s k = Some x)"
  proof (cases "chain = []")
    case False
    then have f: "fork_of chain bei = unat (be_height (snd (hd chain)))" by (simp add: fork_of_def hd_map)
    have fork: "unat (be_height (snd (hd chain))) < length (m_blocks s)"
      "getHash (be_bl (m_blocks s ! unat (be_height (snd (hd chain)) - 1))) = Inr (previousBlockHash (be_bl (snd (hd chain))))"
      using times False by (auto simp: branch_timestamps_def Let_def block_at_def split: if_splits sum.splits)
    note b = branch_base [OF ok(2) inv(4,1-3) walk False fork]
    then show ?thesis using False fork(1) height by (simp add: base_def f)
  next
    case True
    then obtain i where i: "getBlockHeight (previousBlockHash b) (m_blockIndex s) = Some i"
      using times by (auto simp: branch_timestamps_def split: option.splits)
    have len: "length (m_blockIndex s) = length (m_blocks s)" "distinct (m_blockIndex s)" "length (m_blocks s) < 4294967296"
      using inv(1) by (auto simp: chain_inv_def index_ok_def dest: list_all2_lengthD)
    have at: "unat i < length (m_blocks s)" "m_blockIndex s ! unat i = previousBlockHash b"
      using i getBlockHeight_iff [of "m_blockIndex s"] len by auto
    have "unat (i + 1) = Suc (unat i)" using at(1) len(3) by (simp add: unat_word_ariths)
    then have f: "fork_of chain bei = Suc (unat i)" using height True by (simp add: fork_of_def i)
    have base: "base = take (Suc (unat i)) (m_blocks s)" unfolding base_def f by (simp add: True)
    have "length base = Suc (unat i)" using at(1) by (simp add: base)
    then have "be_height bei = of_nat (length base)" using height True by (simp add: i)
    moreover have "getHash (be_bl (last base)) = Inr (previousBlockHash b)"
      using index_hash [OF inv(1) at(1)] at by (simp add: base last_take_nth)
    moreover have "be_bl ` set base \<subseteq> S" unfolding base by (rule subset_trans [OF image_mono [OF set_take_subset] inv(3)])
    moreover have "0 < fork_of chain bei" "fork_of chain bei \<le> length (m_blocks s)" using at(1) by (simp_all add: f)
    ultimately show ?thesis using at(1) len(3) worked_take [OF inv(2)] True by (auto simp: base)
  qed
  then show "0 < fork_of chain bei" and "fork_of chain bei \<le> length (m_blocks s)" and "worked env base"
    and "be_bl ` set base \<subseteq> S" and "be_height bei = of_nat (length base)" and "length base < 4294967296" and "base \<noteq> []"
    and "getHash (be_bl (last base)) = Inr (previousBlockHash b)"
    and "\<forall>(k, x) \<in> set chain. m_alternative_chains s k = Some x" by blast+
qed

text \<open>A block that is not entered leaves the chain, its alternatives and the pool as they were.\<close>

definition quiet :: "blockchain \<Rightarrow> tx_pool \<Rightarrow> exn + bool \<times> block_verification_context \<times> chain_state \<Rightarrow> bool" where
  "quiet s p res \<longleftrightarrow> (\<forall>r bvc s' p'. res = Inr (r, bvc, s', p') \<longrightarrow>
     aside s s' \<and> m_alternative_chains s' = m_alternative_chains s \<and> p' = p)"

definition alt_entry :: "block \<Rightarrow> u32 \<Rightarrow> block_entry" where
  "alt_entry b height = \<lparr>be_bl = b, be_height = height, block_cumulative_size = 0, cumulative_difficulty = 0,
     already_generated_coins = 0, be_transactions = []\<rparr>"

lemma connect_alternative_shape:
  fixes env s p chain mainPrev b h bvc
  defines "height \<equiv> (if chain \<noteq> [] then be_height (snd (last chain)) + 1
      else (case mainPrev of None \<Rightarrow> 0 | Some i \<Rightarrow> i) + 1)"
  assumes points: "bc_checkpoints s = []"
  shows "(\<exists>res. (\<forall>H. connect_alternative env H chain mainPrev b h bvc (s, p) = res) \<and> quiet s p res)
    \<or> (\<exists>ts d w. branch_timestamps env s chain mainPrev = Inr (Some ts)
        \<and> get_next_difficulty_for_alternative_chain env (s\<lparr>m_is_in_checkpoint_zone := False\<rparr>) (map snd chain) (alt_entry b height) = Inr d
        \<and> prevalidate_miner_transaction env b height
        \<and> (if chain \<noteq> [] then Inr (cumulative_difficulty (snd (last chain)))
           else case block_at s (unat (case mainPrev of None \<Rightarrow> 0 | Some i \<Rightarrow> i)) of
             Inl e \<Rightarrow> Inl e | Inr be \<Rightarrow> Inr (cumulative_difficulty be)) = Inr w
        \<and> (\<forall>H. connect_alternative env H chain mainPrev b h bvc (s, p)
             = enter_alternative env H chain ((alt_entry b height)\<lparr>cumulative_difficulty := w + d\<rparr>) False h bvc
                 (s\<lparr>m_is_in_checkpoint_zone := False\<rparr>, p)))"
proof -
  let ?s = "s\<lparr>m_is_in_checkpoint_zone := False\<rparr>"
  let ?diff = "get_next_difficulty_for_alternative_chain env ?s (map snd chain) (alt_entry b height)"
  let ?work = "(if chain \<noteq> [] then Inr (cumulative_difficulty (snd (last chain)))
           else case block_at s (unat (case mainPrev of None \<Rightarrow> 0 | Some i \<Rightarrow> i)) of
             Inl e \<Rightarrow> Inl e | Inr be \<Rightarrow> Inr (cumulative_difficulty be))"
  have at: "block_at ?s i = block_at s i" for i by (simp add: block_at_def)
  note def = connect_alternative_def Let_def points checkpoints_check_def height_def [symmetric] alt_entry_def [symmetric] at
  have still: ?thesis if "\<And>H. connect_alternative env H chain mainPrev b h bvc (s, p) = res" and "quiet s p res" for res
    using that by blast
  show ?thesis
  proof (cases "branch_timestamps env s chain mainPrev")
    case (Inl e)
    then show ?thesis by (intro still [of "Inl e"]) (simp_all add: def quiet_def)
  next
    case times: (Inr ts)
    show ?thesis
    proof (cases "ts = None \<or> \<not> check_block_timestamp env (the ts) b")
      case True
      then show ?thesis using times
        by (intro still [of "Inr (False, if ts = None then bvc else bvc_failed bvc, s, p)"]) (auto simp: def quiet_def)
    next
      case False
      then obtain tt where ts: "ts = Some tt" "check_block_timestamp env tt b" by auto
      show ?thesis
      proof (cases ?diff)
        case (Inl e)
        then show ?thesis using times ts by (intro still [of "Inl e"]) (simp_all add: def quiet_def)
      next
        case diff: (Inr d)
        show ?thesis
        proof (cases "d = 0")
          case True
          then show ?thesis using times ts diff
            by (intro still [of "Inr (False, bvc, ?s, p)"]) (simp_all add: def quiet_def)
        next
          case d: False
          show ?thesis
          proof (cases "checkProofOfWork (env_slow_hash env) b d")
            case (Inl e)
            then show ?thesis using times ts diff d by (intro still [of "Inl e"]) (simp_all add: def quiet_def)
          next
            case pow: (Inr q)
            show ?thesis
            proof (cases "q \<and> prevalidate_miner_transaction env b height")
              case False
              then show ?thesis using times ts diff d pow
                by (intro still [of "Inr (False, bvc_failed bvc, ?s, p)"]) (auto simp: def quiet_def split: bool.splits)
            next
              case pre: True
              have eq: "connect_alternative env H chain mainPrev b h bvc (s, p) = (case ?work of Inl e \<Rightarrow> Inl e | Inr w \<Rightarrow>
                  enter_alternative env H chain ((alt_entry b height)\<lparr>cumulative_difficulty := w + d\<rparr>) False h bvc (?s, p))" for H
                using times ts diff d pow pre by (simp add: def) (auto simp: height_def split: sum.splits)
              show ?thesis
              proof (cases ?work)
                case (Inl e)
                then show ?thesis by (intro still [of "Inl e"]) (simp_all add: eq quiet_def)
              next
                case (Inr w)
                then show ?thesis using times ts diff pre by (simp add: eq)
              qed
            qed
          qed
        qed
      qed
    qed
  qed
qed

lemma connect_ready:
  assumes ok: "work_ok env S T (s, p)" "alts_ok env S (m_alternative_chains s)" and S: "seen_ok env S T" "b \<in> S" "getHash b = Inr h"
    and points: "bc_checkpoints s = []"
    and walk: "alt_walk (m_alternative_chains s) (previousBlockHash b) [] = Some chain"
  defines "mainPrev \<equiv> getBlockHeight (previousBlockHash b) (m_blockIndex s)"
  shows "(\<exists>res. (\<forall>H. connect_alternative env H chain mainPrev b h bvc (s, p) = res) \<and> quiet s p res)
    \<or> (\<exists>bei. be_bl bei = b \<and> ready env S s chain bei h
        \<and> (\<forall>H. connect_alternative env H chain mainPrev b h bvc (s, p)
             = enter_alternative env H chain bei False h bvc (s\<lparr>m_is_in_checkpoint_zone := False\<rparr>, p)))"
proof -
  define height where "height = (if chain \<noteq> [] then be_height (snd (last chain)) + 1
      else (case mainPrev of None \<Rightarrow> 0 | Some i \<Rightarrow> i) + 1)"
  consider "\<exists>res. (\<forall>H. connect_alternative env H chain mainPrev b h bvc (s, p) = res) \<and> quiet s p res"
    | ts d w where "branch_timestamps env s chain mainPrev = Inr (Some ts)"
      "get_next_difficulty_for_alternative_chain env (s\<lparr>m_is_in_checkpoint_zone := False\<rparr>) (map snd chain) (alt_entry b height) = Inr d"
      "prevalidate_miner_transaction env b height"
      "(if chain \<noteq> [] then Inr (cumulative_difficulty (snd (last chain)))
           else case block_at s (unat (case mainPrev of None \<Rightarrow> 0 | Some i \<Rightarrow> i)) of
             Inl e \<Rightarrow> Inl e | Inr be \<Rightarrow> Inr (cumulative_difficulty be)) = Inr w"
      "\<forall>H. connect_alternative env H chain mainPrev b h bvc (s, p)
         = enter_alternative env H chain ((alt_entry b height)\<lparr>cumulative_difficulty := w + d\<rparr>) False h bvc
             (s\<lparr>m_is_in_checkpoint_zone := False\<rparr>, p)"
    using connect_alternative_shape [OF points, of env chain mainPrev b h bvc p] unfolding height_def by blast
  then show ?thesis
  proof cases
    case 2
    define bei where "bei = (alt_entry b height)\<lparr>cumulative_difficulty := w + d\<rparr>"
    have bei: "be_height bei = height" "be_bl bei = b" "cumulative_difficulty bei = w + d"
      by (simp_all add: bei_def alt_entry_def)
    define base where "base = take (fork_of chain bei) (m_blocks s) @ map snd chain"
    note r = branch_ready [OF ok S walk 2(1) [unfolded mainPrev_def], of bei, folded base_def mainPrev_def,
      OF bei(1) [unfolded height_def]]
    have diff: "diff_of env base = Inr d"
      using branch_difficulty [of env "fork_of chain bei" "s\<lparr>m_is_in_checkpoint_zone := False\<rparr>" "map snd chain" "alt_entry b height"]
        r(1,2) S(1) 2(2)
      by (cases chain) (simp_all add: diff_of_blocks base_def fork_of_def bei alt_entry_def seen_ok_def)
    have "cumulative_difficulty (last base) = w"
    proof (cases "chain = []")
      case True
      have "fork_of chain bei = Suc (unat (case mainPrev of None \<Rightarrow> 0 | Some i \<Rightarrow> i))"
      proof -
        have f: "fork_of chain bei = unat height" by (simp add: fork_of_def True bei)
        then have "height \<noteq> 0" using r(1) by auto
        moreover have "height = 1 + (case mainPrev of None \<Rightarrow> 0 | Some i \<Rightarrow> i)" by (simp add: height_def True)
        ultimately show ?thesis using f unatSuc [of "case mainPrev of None \<Rightarrow> 0 | Some i \<Rightarrow> i"] by metis
      qed
      then show ?thesis using 2(4) True r(2)
        by (auto simp: block_at_def base_def last_take_nth split: sum.splits if_splits)
    next
      case False
      then show ?thesis using 2(4) by (simp add: base_def last_map)
    qed
    moreover have inputs: "tx_inputs (baseTransaction b) = [BaseInput (of_nat (length base))]"
      using prevalidated_base [OF 2(3)] r(5) by (simp add: bei)
    ultimately have follows: "follows env base bei" using r(5,7,8) diff by (simp add: follows_def bei)
    have "(of_nat (length base) :: u32) < 4294967295" using S(1,2) inputs by (auto simp: seen_ok_def)
    then have "unat (of_nat (length base) :: u32) < 4294967295" by (simp add: word_less_nat_alt)
    then have "length base < 4294967295" using r(6) by (simp add: unat_of_nat_u32)
    then have "path_to env S base bei" using follows r(3,4,7) S(2) by (simp add: path_to_def worked_snoc_iff bei)
    then have "ready env S s chain bei h" using r(1,2,9) S(3) by (simp add: ready_def base_def bei)
    then show ?thesis using 2(5) bei(2) unfolding bei_def by blast
  qed blast
qed

text \<open>
  A block offered as an alternative is turned away and changes nothing, or is entered at the end of a branch that
  carries the work it should.
\<close>

lemma handle_cases:
  assumes ok: "work_ok env S T (s, p)" "alts_ok env S (m_alternative_chains s)" and S: "seen_ok env S T" "b \<in> S" "getHash b = Inr h"
    and points: "bc_checkpoints s = []"
  shows "(\<exists>res. (\<forall>n. handle_alternative_block (Suc n) env b h bvc (s, p) = res) \<and> quiet s p res)
    \<or> (\<exists>chain bei. be_bl bei = b \<and> ready env S s chain bei h
        \<and> (\<forall>n. handle_alternative_block (Suc n) env b h bvc (s, p)
             = enter_alternative env (handle_alternative_block n env) chain bei False h bvc (s\<lparr>m_is_in_checkpoint_zone := False\<rparr>, p)))"
    (is "?quiet \<or> ?enter")
proof -
  let ?mainPrev = "getBlockHeight (previousBlockHash b) (m_blockIndex s)"
  have still: ?thesis if "\<And>n. handle_alternative_block (Suc n) env b h bvc (s, p) = res" and "quiet s p res" for res
    using that by blast
  show ?thesis
  proof (cases "get_block_height b = 0 \<or> \<not> isAllowed (bc_checkpoints s) (getHeight s) (get_block_height b)")
    case True
    then show ?thesis by (intro still [of "Inr (False, bvc_failed bvc, s, p)"]) (auto simp: quiet_def Let_def)
  next
    case guards: False
    show ?thesis
    proof (cases "getBlockCumulativeSize s p b")
      case (Inl e)
      then show ?thesis using guards by (intro still [of "Inl e"]) (auto simp: quiet_def Let_def)
    next
      case sz: (Inr r)
      show ?thesis
      proof (cases "checkCumulativeBlockSize env (snd r) (ucast (get_block_height b))")
        case (Inl e)
        then show ?thesis using guards sz by (intro still [of "Inl e"]) (auto simp: quiet_def Let_def case_prod_beta)
      next
        case fits: (Inr q)
        show ?thesis
        proof (cases "q \<and> (m_alternative_chains s (previousBlockHash b) \<noteq> None \<or> ?mainPrev \<noteq> None)")
          case False
          then show ?thesis using guards sz fits
            by (intro still [of "Inr (q, if q then bvc\<lparr>bvc_marked_as_orphaned := True\<rparr> else bvc_failed bvc, s, p)"])
              (auto simp: quiet_def Let_def case_prod_beta split: bool.splits)
        next
          case True
          show ?thesis
          proof (cases "alt_walk (m_alternative_chains s) (previousBlockHash b) []")
            case None
            then show ?thesis using guards sz fits True
              by (intro still [of "Inl DoesNotReturn"]) (auto simp: quiet_def Let_def case_prod_beta)
          next
            case (Some chain)
            then have "handle_alternative_block (Suc n) env b h bvc (s, p)
                = connect_alternative env (handle_alternative_block n env) chain ?mainPrev b h bvc (s, p)" for n
              using guards sz fits True by (auto simp: Let_def case_prod_beta)
            then show ?thesis using connect_ready [OF ok S points Some, of bvc] by metis
          qed
        qed
      qed
    qed
  qed
qed

section \<open>Switching to a branch\<close>

text \<open>The work of the chains of seen blocks does not pass the end of its 64 bits.\<close>

definition work_fits :: "chain_env \<Rightarrow> block set \<Rightarrow> bool" where
  "work_fits env S \<longleftrightarrow> (\<forall>bes be. path_to env S bes be \<longrightarrow> cumulative_difficulty (last bes) \<le> cumulative_difficulty be)"

definition reorg_ok :: "chain_env \<Rightarrow> block set \<Rightarrow> transaction set \<Rightarrow> chain_state \<Rightarrow> bool" where
  "reorg_ok env S T sp \<longleftrightarrow>
     work_ok env S T sp \<and> alts_ok env S (m_alternative_chains (fst sp)) \<and> bc_checkpoints (fst sp) = [] \<and> m_blocks (fst sp) \<noteq> []"

lemma reorg_ok_aside:
  assumes "reorg_ok env S T (s, p)" and "aside s s'" and "alts_ok env S (m_alternative_chains s')"
  shows "reorg_ok env S T (s', p)"
  using assms work_ok_aside [OF assms(2)] aside_same [OF assms(2)] by (simp add: reorg_ok_def)

lemma entered_alts:
  assumes "ready env S s chain bei h" and "alts_ok env S (m_alternative_chains s)"
  shows "alts_ok env S ((m_alternative_chains s)(h \<mapsto> bei))"
  using assms by (auto simp: ready_def alts_ok_def)

lemma add_orphan_aside:
  assumes "add_orphan b (s\<lparr>m_alternative_chains := a\<rparr>) = Inr s'"
  shows "aside s s'" and "m_alternative_chains s' = a"
proof -
  obtain ob where "s' = s\<lparr>m_alternative_chains := a, bc_orphanIndex := ob\<rparr>"
    using assms by (auto simp: add_orphan_def split: sum.splits)
  then show "aside s s'" and "m_alternative_chains s' = a"
    using aside_trans [OF aside_simps(2) aside_simps(3)] by simp_all
qed

lemma ready_aside: "ready env S (s\<lparr>m_is_in_checkpoint_zone := z\<rparr>) chain bei h = ready env S s chain bei h"
  by (simp add: ready_def)

text \<open>No more work than the main chain: the block is entered and nothing else happens.\<close>

definition light :: "chain_env \<Rightarrow> block set \<Rightarrow> blockchain \<Rightarrow> block \<Rightarrow> bool" where
  "light env S s b \<longleftrightarrow> (\<forall>bes be. path_to env S bes be \<longrightarrow> be_bl be = b \<longrightarrow>
     cumulative_difficulty be \<le> cumulative_difficulty (last (m_blocks s)))"

lemma enter_light:
  assumes "reorg_ok env S T (s, p)" and "ready env S s chain bei h" and "\<not> cumulative_difficulty (last (m_blocks s)) < cumulative_difficulty bei"
  shows "enter_alternative env H chain bei False h bvc (s, p) = enter_alternative env H' chain bei False h bvc (s, p)"
    and "enter_alternative env H chain bei False h bvc (s, p) = Inr (r, bvc', s', p') \<Longrightarrow>
      aside s s' \<and> alts_ok env S (m_alternative_chains s') \<and> p' = p"
proof -
  have ok: "m_blocks s \<noteq> []" "alts_ok env S (m_alternative_chains s)" using assms(1) by (simp_all add: reorg_ok_def)
  let ?s = "s\<lparr>m_alternative_chains := (m_alternative_chains s)(h \<mapsto> bei)\<rparr>"
  have "enter_alternative env H chain bei False h bvc (s, p) = enter_alternative env H' chain bei False h bvc (s, p)
    \<and> (enter_alternative env H chain bei False h bvc (s, p) = Inr (r, bvc', s', p') \<longrightarrow>
      aside s s' \<and> alts_ok env S (m_alternative_chains s') \<and> p' = p)"
  proof (cases "m_alternative_chains s h")
    case (Some x)
    then show ?thesis using ok by (auto simp: enter_alternative_def)
  next
    case None
    show ?thesis
    proof (cases "add_orphan (be_bl bei) ?s")
      case (Inl e)
      then show ?thesis using None by (simp add: enter_alternative_def)
    next
      case (Inr s1)
      have "aside s s1" "m_alternative_chains s1 = (m_alternative_chains s)(h \<mapsto> bei)"
        by (rule add_orphan_aside [OF Inr])+
      moreover from this have "m_blocks s1 = m_blocks s" by (simp add: aside_same)
      ultimately show ?thesis
        using None Inr assms(3) ok entered_alts [OF assms(2) ok(2)] by (simp add: enter_alternative_def) metis
    qed
  qed
  then show "enter_alternative env H chain bei False h bvc (s, p) = enter_alternative env H' chain bei False h bvc (s, p)"
    and "enter_alternative env H chain bei False h bvc (s, p) = Inr (r, bvc', s', p') \<Longrightarrow>
      aside s s' \<and> alts_ok env S (m_alternative_chains s') \<and> p' = p" by blast+
qed

lemma handle_light:
  assumes ok: "reorg_ok env S T (s, p)" and S: "seen_ok env S T" "b \<in> S" "getHash b = Inr h" and light: "light env S s b"
  shows "handle_alternative_block (Suc n) env b h bvc (s, p) = handle_alternative_block (Suc 0) env b h bvc (s, p)"
    and "handle_alternative_block (Suc n) env b h bvc (s, p) = Inr (r, bvc', s', p') \<Longrightarrow>
      reorg_ok env S T (s', p') \<and> m_blocks s' = m_blocks s"
proof -
  let ?s = "s\<lparr>m_is_in_checkpoint_zone := False\<rparr>"
  have o: "work_ok env S T (s, p)" "alts_ok env S (m_alternative_chains s)" "bc_checkpoints s = []"
    using ok by (simp_all add: reorg_ok_def)
  have same: "reorg_ok env S T (s', p) \<and> m_blocks s' = m_blocks s" if "aside s s'" and "alts_ok env S (m_alternative_chains s')" for s'
    using that reorg_ok_aside [OF ok] aside_same by auto
  have "handle_alternative_block (Suc n) env b h bvc (s, p) = handle_alternative_block (Suc 0) env b h bvc (s, p)
    \<and> (handle_alternative_block (Suc n) env b h bvc (s, p) = Inr (r, bvc', s', p') \<longrightarrow>
      reorg_ok env S T (s', p') \<and> m_blocks s' = m_blocks s)"
    using handle_cases [OF o(1,2) S o(3), of bvc]
  proof
    assume "\<exists>res. (\<forall>n. handle_alternative_block (Suc n) env b h bvc (s, p) = res) \<and> quiet s p res"
    then show ?thesis using same o(2) by (metis quiet_def)
  next
    assume "\<exists>chain bei. be_bl bei = b \<and> ready env S s chain bei h
        \<and> (\<forall>n. handle_alternative_block (Suc n) env b h bvc (s, p)
             = enter_alternative env (handle_alternative_block n env) chain bei False h bvc (?s, p))"
    then obtain chain bei where c: "be_bl bei = b" "ready env S s chain bei h"
      "\<And>n. handle_alternative_block (Suc n) env b h bvc (s, p)
         = enter_alternative env (handle_alternative_block n env) chain bei False h bvc (?s, p)" by blast
    have work: "\<not> cumulative_difficulty (last (m_blocks ?s)) < cumulative_difficulty bei"
      using light c(1,2) by (force simp: light_def ready_def)
    have ok': "reorg_ok env S T (?s, p)" by (rule reorg_ok_aside [OF ok]) (use o(2) in simp_all)
    have r': "ready env S ?s chain bei h" using c(2) by (simp add: ready_aside)
    note l = enter_light [OF ok' r' work]
    have "reorg_ok env S T (s', p') \<and> m_blocks s' = m_blocks s"
      if "handle_alternative_block (Suc n) env b h bvc (s, p) = Inr (r, bvc', s', p')"
      using l(2) [OF that [unfolded c(3)]] same aside_trans [OF aside_simps(4)] by blast
    then show ?thesis using l(1) unfolding c(3) by blast
  qed
  then show "handle_alternative_block (Suc n) env b h bvc (s, p) = handle_alternative_block (Suc 0) env b h bvc (s, p)"
    and "handle_alternative_block (Suc n) env b h bvc (s, p) = Inr (r, bvc', s', p') \<Longrightarrow>
      reorg_ok env S T (s', p') \<and> m_blocks s' = m_blocks s" by blast+
qed

lemma keep_loop_light:
  assumes "reorg_ok env S T (s, p)" and S: "seen_ok env S T" and "set bs \<subseteq> S" and "\<forall>b \<in> set bs. light env S s b"
  shows "keep_loop (handle_alternative_block (Suc n) env) bs (s, p) = keep_loop (handle_alternative_block (Suc 0) env) bs (s, p)
    \<and> (\<forall>r s' p'. keep_loop (handle_alternative_block (Suc n) env) bs (s, p) = Inr (r, s', p') \<longrightarrow>
         reorg_ok env S T (s', p') \<and> m_blocks s' = m_blocks s)"
  using assms(1,3,4)
  supply handle_alternative_block.simps [simp del]
proof (induction bs arbitrary: s p)
  case (Cons b bs)
  show ?case
  proof (cases "getHash b")
    case (Inr h)
    have b: "b \<in> S" "light env S s b" and sub: "set bs \<subseteq> S" using Cons.prems by simp_all
    note l = handle_light [OF Cons.prems(1) S b(1) Inr b(2), of n bvc_new]
    show ?thesis
    proof (cases "handle_alternative_block (Suc n) env b h bvc_new (s, p)")
      case (Inl e)
      then show ?thesis using Inr l(1) by simp
    next
      case run: (Inr res)
      obtain r bvc s1 p1 where res: "res = (r, bvc, s1, p1)" by (cases res)
      note l2 = l(2) [OF run [unfolded res]]
      have "\<forall>b \<in> set bs. light env S s1 b" using Cons.prems(3) l2 by (simp add: light_def)
      then have IH: "keep_loop (handle_alternative_block (Suc n) env) bs (s1, p1) = keep_loop (handle_alternative_block (Suc 0) env) bs (s1, p1)
        \<and> (\<forall>r s' p'. keep_loop (handle_alternative_block (Suc n) env) bs (s1, p1) = Inr (r, s', p') \<longrightarrow>
          reorg_ok env S T (s', p') \<and> m_blocks s' = m_blocks s1)"
        by (rule Cons.IH [OF conjunct1 [OF l2] sub])
      have step: "keep_loop (handle_alternative_block (Suc m) env) (b # bs) (s, p)
          = (if \<not> r then Inr (False, s1, p1) else keep_loop (handle_alternative_block (Suc m) env) bs (s1, p1))"
        if "handle_alternative_block (Suc m) env b h bvc_new (s, p) = Inr res" for m
        using Inr that by (simp only: keep_loop.simps res sum.case prod.case)
      have step0: "handle_alternative_block (Suc 0) env b h bvc_new (s, p) = Inr res" using l(1) run by (rule trans [OF sym])
      show ?thesis
      proof (cases r)
        case False
        then show ?thesis using l2 unfolding step [OF run] step [OF step0] by auto
      next
        case True
        then have "\<And>m. (if \<not> r then Inr (False, s1, p1) else keep_loop (handle_alternative_block (Suc m) env) bs (s1, p1))
          = keep_loop (handle_alternative_block (Suc m) env) bs (s1, p1)" by simp
        then show ?thesis using IH l2 unfolding step [OF run] step [OF step0] by (metis (no_types))
      qed
    qed
  qed simp
qed simp

lemma worked_grows:
  assumes fits: "work_fits env S" and w: "worked env bes" "be_bl ` set bes \<subseteq> S" "length bes < 4294967296"
    and "i \<le> j" and "j < length bes"
  shows "cumulative_difficulty (bes ! i) \<le> cumulative_difficulty (bes ! j)"
  using assms(5,6)
proof (induction j)
  case (Suc j)
  show ?case
  proof (cases "i = Suc j")
    case False
    have t: "take (Suc (Suc j)) bes = take (Suc j) bes @ [bes ! Suc j]" using Suc.prems(2) by (rule take_Suc_conv_app_nth)
    have "worked env (take (Suc j) bes @ [bes ! Suc j])" using worked_take [OF w(1), of "Suc (Suc j)"] by (simp only: t)
    moreover have "be_bl ` set (take (Suc j) bes @ [bes ! Suc j]) \<subseteq> S"
      unfolding t [symmetric] by (rule subset_trans [OF image_mono [OF set_take_subset] w(2)])
    ultimately have "path_to env S (take (Suc j) bes) (bes ! Suc j)"
      using Suc.prems(2) w(3) by (auto simp: path_to_def)
    then have "cumulative_difficulty (last (take (Suc j) bes)) \<le> cumulative_difficulty (bes ! Suc j)"
      using fits by (simp add: work_fits_def)
    moreover have "last (take (Suc j) bes) = bes ! j" using Suc.prems(2) by (simp add: last_take_nth)
    ultimately show ?thesis using Suc False by force
  qed simp
qed simp

text \<open>The work of a block is the same in every chain that ends with it.\<close>

lemma main_light:
  assumes ok: "work_ok env S T (s, p)" and S: "seen_ok env S T" and fits: "work_fits env S" and i: "i < length (m_blocks s)"
    and heavier: "cumulative_difficulty (last (m_blocks s)) \<le> cumulative_difficulty (last (m_blocks s'))"
  shows "light env S s' (be_bl (m_blocks s ! i))"
  unfolding light_def
proof (intro allI impI)
  fix bes be
  assume path: "path_to env S bes be" and be: "be_bl be = be_bl (m_blocks s ! i)"
  have inv: "chain_inv s" "worked env (m_blocks s)" "be_bl ` set (m_blocks s) \<subseteq> S" "length (m_blocks s) < 4294967296"
    using ok by (simp_all add: work_ok_def node_ok_def chain_inv_def)
  let ?main = "take (Suc i) (m_blocks s)"
  have last: "last ?main = m_blocks s ! i" using i by (simp add: last_take_nth)
  have "similar (bes @ [be]) ?main"
  proof (rule worked_unique)
    show "getHash (be_bl (last (bes @ [be]))) = Inr (m_blockIndex s ! i)" "getHash (be_bl (last ?main)) = Inr (m_blockIndex s ! i)"
      using index_hash [OF inv(1) i] by (simp_all add: be last)
    show "be_bl ` set ?main \<subseteq> S" by (rule subset_trans [OF image_mono [OF set_take_subset] inv(3)])
  qed (use path S i inv in \<open>auto simp: path_to_def seen_ok_def worked_take\<close>)
  from similar_last [OF this] have "cumulative_difficulty be = cumulative_difficulty (m_blocks s ! i)"
    by (simp add: last similar_entry_def)
  also have "\<dots> \<le> cumulative_difficulty (m_blocks s ! (length (m_blocks s) - 1))"
    using i by (intro worked_grows [OF fits inv(2-4)]) auto
  also have "\<dots> = cumulative_difficulty (last (m_blocks s))" using i by (subst last_conv_nth) auto
  finally show "cumulative_difficulty be \<le> cumulative_difficulty (last (m_blocks s'))" using heavier by simp
qed

text \<open>The blocks of a chain fix its entries.\<close>

lemma worked_blocks:
  assumes "worked env xs" and "worked env ys" and "map be_bl xs = map be_bl ys"
  shows "similar xs ys"
  using assms
proof (induction arbitrary: ys rule: worked.induct)
  case (worked_snoc xs x)
  obtain zs y where ys: "ys = zs @ [y]" "map be_bl xs = map be_bl zs" "be_bl x = be_bl y"
    using worked_snoc.prems(2) by (cases ys rule: rev_cases) auto
  have zs: "worked env zs" "follows env zs y" using worked_snoc.prems(1) by (simp_all add: ys(1) worked_snoc_iff)
  have sim: "similar xs zs" by (rule worked_snoc.IH [OF zs(1) ys(2)])
  have "similar_entry (last xs) (last zs)" if "xs \<noteq> []" using sim that by (rule similar_last)
  then have "similar_entry x y"
    using worked_snoc.hyps(2) zs(2) ys(3) diff_of_similar [OF sim, of env] list_all2_lengthD [OF sim]
    by (auto simp: follows_def similar_entry_def)
  then show ?case using sim by (simp add: ys(1) list_all2_appendI)
qed simp

text \<open>
  The switch. The nested calls that keep the old chain as an alternative never switch themselves, so that their
  own nesting bound does not matter; when the switch fails the main chain is the old one, or what could be put back of it.
\<close>

definition fell_back :: "block_entry list \<Rightarrow> block_entry list \<Rightarrow> bool" where
  "fell_back old new \<longleftrightarrow> (\<exists>k. map be_bl new = take k (map be_bl old))"

lemma fell_back_fork:
  assumes "map be_bl new = take k (map be_bl (drop f old))"
  shows "fell_back old (take f old @ new)"
  unfolding fell_back_def by (intro exI [of _ "f + k"]) (simp add: assms take_add take_map drop_map)

lemma reorg_ok_rest:
  assumes "work_ok env S T (s', p')" and "m_alternative_chains s' \<subseteq>\<^sub>m m_alternative_chains s" and "bc_checkpoints s' = bc_checkpoints s"
    and "reorg_ok env S T (s, p)" and "m_blocks s' \<noteq> []"
  shows "reorg_ok env S T (s', p')"
  using assms alts_ok_le [OF _ assms(2)] by (simp add: reorg_ok_def)

lemma switch_connected:
  assumes ok: "reorg_ok env S T (s, p)" and S: "seen_ok env S T" and fits: "work_fits env S" and r: "ready env S s chain bei h"
    and heavier: "cumulative_difficulty (last (m_blocks s)) < cumulative_difficulty bei"
    and f: "f = fork_of chain bei" "f < length (m_blocks s)"
    and dis: "disconnect env f (s, p) = Inr (d, s1, p1)"
    and con: "connect_loop env d f (chain @ [(h, bei)]) (s1, p1) = Inr (q, s2, p2)"
  shows "d = map be_bl (drop f (m_blocks s))" and "reorg_ok env S T (s2, p2)" and "set d \<subseteq> S"
    and "q \<Longrightarrow> similar (m_blocks s2) (take f (m_blocks s) @ map snd chain @ [bei])"
    and "q \<Longrightarrow> take f (m_blocks s2) = take f (m_blocks s) \<and> f \<le> length (m_blocks s2)"
    and "q \<Longrightarrow> \<forall>b \<in> set d. light env S s2 b"
    and "\<not> q \<Longrightarrow> fell_back (m_blocks s) (m_blocks s2)"
proof -
  have o: "work_ok env S T (s, p)" "sane env S T" using ok S by (simp_all add: reorg_ok_def seen_ok_def)
  have path: "path_to env S (take f (m_blocks s) @ map snd chain) bei" "0 < f" using r by (simp_all add: ready_def f(1))
  note d = disconnect_work [OF o dis]
  have d1: "work_ok env S T (s1, p1)" "same_rest s s1" "m_blocks s1 = take f (m_blocks s)" using d f(2) by simp_all
  show d': "d = map be_bl (drop f (m_blocks s))" using d f(2) by simp
  have "be_bl ` set (m_blocks s) \<subseteq> S" using o(1) by (simp add: work_ok_def node_ok_def)
  then show dS: "set d \<subseteq> S" using set_drop_subset [of f "m_blocks s"] by (auto simp: d')
  have chainS: "be_bl ` snd ` set (chain @ [(h, bei)]) \<subseteq> S" using path(1) by (auto simp: path_to_def)
  have len: "f \<le> length (m_blocks s1)" using f(2) by (simp add: d1)
  note c = connect_loop_work [OF d1(1) o(2) dS chainS len con]
  have ne: "m_blocks s2 \<noteq> []" using c f(2) path(2) by (cases q) (auto simp: d1(3))
  show "reorg_ok env S T (s2, p2)"
    using reorg_ok_rest [OF _ _ _ ok ne] c d1(2) by (simp add: same_rest_def)
  show "fell_back (m_blocks s) (m_blocks s2)" if "\<not> q"
    using c that fell_back_fork by (auto simp: d1(3) d')
  show "take f (m_blocks s2) = take f (m_blocks s) \<and> f \<le> length (m_blocks s2)" if q
    using c that f(2) by (auto simp: d1(3))
  show sim: "similar (m_blocks s2) (take f (m_blocks s) @ map snd chain @ [bei])" if q
  proof (rule worked_blocks)
    show "worked env (m_blocks s2)" using c by (simp add: work_ok_def)
    show "worked env (take f (m_blocks s) @ map snd chain @ [bei])" using path(1) by (simp add: path_to_def)
    show "map be_bl (m_blocks s2) = map be_bl (take f (m_blocks s) @ map snd chain @ [bei])" using c that by (auto simp: d1(3))
  qed
  show "\<forall>b \<in> set d. light env S s2 b" if q
  proof -
    have "similar_entry (last (m_blocks s2)) bei" using similar_last [OF sim [OF that] ne] by simp
    then have "cumulative_difficulty (last (m_blocks s)) \<le> cumulative_difficulty (last (m_blocks s2))"
      using heavier by (simp add: similar_entry_def)
    then have "light env S s2 (be_bl (m_blocks s ! i))" if "i < length (m_blocks s)" for i
      using main_light [OF o(1) S fits that] by simp
    then show ?thesis using in_set_dropD [of _ f "m_blocks s"] by (auto simp: d' in_set_conv_nth [of _ "m_blocks s"] dest!: in_set_dropD)
  qed
qed

lemma rollback_reorg:
  assumes ok: "reorg_ok env S T (s, p)" and S: "sane env S T" "set d \<subseteq> S" and d: "d = map be_bl (drop f old)"
    and f: "take f (m_blocks s) = take f old" "f \<le> length (m_blocks s)" "0 < f"
    and run: "rollback_blockchain_switching env d f (s, p) = Inr (x, s', p')"
  shows "reorg_ok env S T (s', p')" and "fell_back old (m_blocks s')"
proof -
  have "work_ok env S T (s, p)" using ok by (simp add: reorg_ok_def)
  note b = rollback_work [OF this S f(2) run]
  then obtain new k where new: "m_blocks s' = take f old @ new" "map be_bl new = take k d" by (auto simp: f(1))
  show "fell_back old (m_blocks s')" unfolding new(1) by (rule fell_back_fork) (simp add: new(2) d)
  have "take f (m_blocks s) \<noteq> []" using f(2,3) by auto
  then have "m_blocks s' \<noteq> []" by (simp add: new(1) f(1))
  then show "reorg_ok env S T (s', p')" using reorg_ok_rest [OF b(1) _ _ ok] b(2) by (simp add: same_rest_def)
qed

lemma erase_reorg:
  assumes ok: "reorg_ok env S T (s, p)" and run: "erase_alternatives chain s = Inr s'"
  shows "reorg_ok env S T (s', p)" and "m_blocks s' = m_blocks s"
proof -
  note e = erase_alternatives_aside [OF run]
  show "m_blocks s' = m_blocks s" using e aside_same by blast
  have "m_alternative_chains s' \<subseteq>\<^sub>m m_alternative_chains s" using e by (simp add: map_le_def)
  moreover have "alts_ok env S (m_alternative_chains s)" using ok by (simp add: reorg_ok_def)
  ultimately show "reorg_ok env S T (s', p)" using reorg_ok_aside [OF ok] alts_ok_le e by blast
qed

lemma switch_work:
  assumes ok: "reorg_ok env S T (s, p)" and S: "seen_ok env S T" and fits: "work_fits env S" and r: "ready env S s chain bei h"
    and heavier: "cumulative_difficulty (last (m_blocks s)) < cumulative_difficulty bei"
  defines "switch \<equiv> \<lambda>n. switch_to_alternative_blockchain env (handle_alternative_block (Suc n) env) (chain @ [(h, bei)]) False (s, p)"
  shows "switch n = switch 0"
    and "switch n = Inr (q, s', p') \<Longrightarrow> reorg_ok env S T (s', p')
      \<and> (if q then similar (m_blocks s') (take (fork_of chain bei) (m_blocks s) @ map snd chain @ [bei])
         else fell_back (m_blocks s) (m_blocks s'))"
proof -
  define f where "f = fork_of chain bei"
  have f': "unat (be_height (snd (hd (chain @ [(h, bei)])))) = f" by (cases chain) (simp_all add: f_def fork_of_def)
  have self: "fell_back (m_blocks s) (m_blocks s)" unfolding fell_back_def by (intro exI [of _ "length (m_blocks s)"]) simp
  have "switch n = switch 0 \<and> (switch n = Inr (q, s', p') \<longrightarrow> reorg_ok env S T (s', p')
      \<and> (if q then similar (m_blocks s') (take f (m_blocks s) @ map snd chain @ [bei])
         else fell_back (m_blocks s) (m_blocks s')))"
    supply handle_alternative_block.simps [simp del]
  proof (cases "f < length (m_blocks s)")
    case False
    then show ?thesis using ok self by (auto simp: switch_def switch_to_alternative_blockchain_def f' Let_def)
  next
    case len: True
    note def = switch_def switch_to_alternative_blockchain_def f' Let_def
    show ?thesis
    proof (cases "disconnect env f (s, p)")
      case (Inl e)
      then show ?thesis using len by (simp add: def)
    next
      case (Inr x)
      obtain d s1 p1 where dis: "disconnect env f (s, p) = Inr (d, s1, p1)" using Inr by (cases x) auto
      show ?thesis
      proof (cases "connect_loop env d f (chain @ [(h, bei)]) (s1, p1)")
        case (Inl e)
        then show ?thesis using len dis by (simp add: def)
      next
        case (Inr y)
        obtain c s2 p2 where con: "connect_loop env d f (chain @ [(h, bei)]) (s1, p1) = Inr (c, s2, p2)" using Inr by (cases y) auto
        note w = switch_connected [OF ok S fits r heavier f_def len dis con]
        show ?thesis
        proof (cases c)
          case False
          then show ?thesis using len dis con w by (auto simp: def)
        next
          case True
          note keep = keep_loop_light [OF w(2) S w(3) w(6) [OF True], of n]
          have "switch m = (case keep_loop (handle_alternative_block (Suc m) env) d (s2, p2) of
              Inl e \<Rightarrow> Inl e
            | Inr (False, sp) \<Rightarrow>
                (case rollback_blockchain_switching env d f sp of Inl e \<Rightarrow> Inl e | Inr (_, sp) \<Rightarrow> Inr (False, sp))
            | Inr (True, s, p) \<Rightarrow>
                (case erase_alternatives (chain @ [(h, bei)]) s of Inl e \<Rightarrow> Inl e | Inr s \<Rightarrow> Inr (True, s, p)))" for m
            using True len dis con by (simp add: def)
          note eq = this
          show ?thesis
          proof (cases "keep_loop (handle_alternative_block (Suc n) env) d (s2, p2)")
            case (Inl e)
            then show ?thesis using keep unfolding eq by simp
          next
            case (Inr z)
            obtain g s3 p3 where z: "z = (g, s3, p3)" by (cases z)
            have run: "keep_loop (handle_alternative_block (Suc n) env) d (s2, p2) = Inr (g, s3, p3)"
              "keep_loop (handle_alternative_block (Suc 0) env) d (s2, p2) = Inr (g, s3, p3)"
              using Inr keep by (simp_all add: z)
            have s3: "reorg_ok env S T (s3, p3)" "m_blocks s3 = m_blocks s2" using keep run(1) by blast+
            have S': "sane env S T" "0 < f" using S r by (simp_all add: seen_ok_def ready_def f_def)
            have back_ok: "reorg_ok env S T (s', p') \<and> fell_back (m_blocks s) (m_blocks s')"
              if "rollback_blockchain_switching env d f (s3, p3) = Inr (x, s', p')" for x s' p'
              using rollback_reorg [OF s3(1) S'(1) w(3,1) _ _ S'(2) that] w(5) [OF True] by (simp add: s3(2))
            show ?thesis using back_ok erase_reorg [OF s3(1)] w(4) [OF True] s3(2)
              unfolding eq run by (cases g) (auto split: sum.splits)
          qed
        qed
      qed
    qed
  qed
  then show "switch n = switch 0"
    and "switch n = Inr (q, s', p') \<Longrightarrow> reorg_ok env S T (s', p')
      \<and> (if q then similar (m_blocks s') (take (fork_of chain bei) (m_blocks s) @ map snd chain @ [bei])
         else fell_back (m_blocks s) (m_blocks s'))" unfolding f_def by blast+
qed

section \<open>Every block the node is given\<close>

text \<open>
  What becomes of the main chain: it stays, or the new block is its end and it has more work than before; after a switch
  that failed it is the old chain, or as much of it as could be put back.
\<close>

definition settled :: "block_entry list \<Rightarrow> block \<Rightarrow> bool \<Rightarrow> block_entry list \<Rightarrow> bool" where
  "settled old b q new \<longleftrightarrow>
     new = old
     \<or> (q \<and> be_bl (last new) = b \<and> cumulative_difficulty (last old) < cumulative_difficulty (last new))
     \<or> (\<not> q \<and> fell_back old new)"

lemma enter_work:
  fixes bvc :: block_verification_context
  assumes ok: "reorg_ok env S T (s, p)" and S: "seen_ok env S T" and fits: "work_fits env S" and r: "ready env S s chain bei h"
  defines "enter \<equiv> \<lambda>n. enter_alternative env (handle_alternative_block (Suc n) env) chain bei False h bvc (s, p)"
  shows "enter n = enter 0"
    and "enter n = Inr (q, bvc', s', p') \<Longrightarrow> reorg_ok env S T (s', p') \<and> settled (m_blocks s) (be_bl bei) q (m_blocks s')"
proof -
  have alts: "alts_ok env S (m_alternative_chains s)" using ok by (simp add: reorg_ok_def)
  have "enter n = enter 0 \<and> (enter n = Inr (q, bvc', s', p') \<longrightarrow>
      reorg_ok env S T (s', p') \<and> settled (m_blocks s) (be_bl bei) q (m_blocks s'))"
    supply handle_alternative_block.simps [simp del]
  proof (cases "m_alternative_chains s h = None \<and> cumulative_difficulty (last (m_blocks s)) < cumulative_difficulty bei")
    case False
    show ?thesis
    proof (cases "m_alternative_chains s h")
      case None
      then have light: "\<not> cumulative_difficulty (last (m_blocks s)) < cumulative_difficulty bei" using False by simp
      note l = enter_light [OF ok r light]
      show ?thesis using l reorg_ok_aside [OF ok] aside_same(1) unfolding enter_def settled_def by blast
    qed (use ok in \<open>auto simp: enter_def enter_alternative_def settled_def\<close>)
  next
    case True
    let ?s = "s\<lparr>m_alternative_chains := (m_alternative_chains s)(h \<mapsto> bei)\<rparr>"
    show ?thesis
    proof (cases "add_orphan (be_bl bei) ?s")
      case (Inl e)
      then show ?thesis using True by (simp add: enter_def enter_alternative_def)
    next
      case (Inr s1)
      note s1 = add_orphan_aside [OF Inr]
      have blocks: "m_blocks s1 = m_blocks s" "m_blocks s \<noteq> []" using s1 ok by (simp_all add: aside_same reorg_ok_def)
      have ok1: "reorg_ok env S T (s1, p)" using reorg_ok_aside [OF ok s1(1)] entered_alts [OF r alts] by (simp add: s1(2))
      have r1: "ready env S s1 chain bei h" using r True by (fastforce simp: ready_def blocks(1) s1(2))
      note w = switch_work [OF ok1 S fits r1]
      define switch where
        "switch m = switch_to_alternative_blockchain env (handle_alternative_block (Suc m) env) (chain @ [(h, bei)]) False (s1, p)" for m
      have w1: "switch n = switch 0"
        using switch_work(1) [OF ok1 S fits r1, of n] True by (simp add: switch_def blocks)
      have w2: "reorg_ok env S T (s', p') \<and> (if q then similar (m_blocks s') (take (fork_of chain bei) (m_blocks s) @ map snd chain @ [bei])
         else fell_back (m_blocks s) (m_blocks s'))" if "switch n = Inr (q, s', p')" for q s' p'
        using switch_work(2) [OF ok1 S fits r1, of n q s' p'] that True unfolding switch_def blocks(1) by simp
      have eq: "enter m = (case switch m of Inl e \<Rightarrow> Inl e
          | Inr (True, sp) \<Rightarrow> Inr (True, bvc\<lparr>bvc_added_to_main_chain := True, bvc_switched_to_alt_chain := True\<rparr>, sp)
          | Inr (False, sp) \<Rightarrow> Inr (False, bvc_failed bvc, sp))" for m
        using True Inr blocks by (simp add: enter_def enter_alternative_def switch_def)
      have tip: "be_bl (last new) = be_bl bei \<and> cumulative_difficulty (last (m_blocks s)) < cumulative_difficulty (last new)"
        if "similar new (take (fork_of chain bei) (m_blocks s) @ map snd chain @ [bei])" for new
        using similar_last [OF that] that True by (cases "new = []") (auto simp: similar_entry_def)
      show ?thesis
      proof (cases "switch n")
        case (Inl e)
        then show ?thesis using w1 unfolding eq by simp
      next
        case (Inr z)
        obtain g s2 p2 where z: "switch n = Inr (g, s2, p2)" "switch 0 = Inr (g, s2, p2)" using Inr w1 by (cases z) auto
        show ?thesis using w2 [OF z(1)] tip [of "m_blocks s2"] unfolding eq z by (cases g) (auto simp: settled_def)
      qed
    qed
  qed
  then show "enter n = enter 0"
    and "enter n = Inr (q, bvc', s', p') \<Longrightarrow> reorg_ok env S T (s', p') \<and> settled (m_blocks s) (be_bl bei) q (m_blocks s')" by blast+
qed

lemma handle_work:
  assumes ok: "reorg_ok env S T (s, p)" and S: "seen_ok env S T" "b \<in> S" "getHash b = Inr h" and fits: "work_fits env S"
  shows "handle_alternative_block (Suc (Suc n)) env b h bvc (s, p) = handle_alternative_block (Suc (Suc 0)) env b h bvc (s, p)"
    and "handle_alternative_block (Suc (Suc n)) env b h bvc (s, p) = Inr (q, bvc', s', p') \<Longrightarrow>
      reorg_ok env S T (s', p') \<and> settled (m_blocks s) b q (m_blocks s')"
proof -
  let ?s = "s\<lparr>m_is_in_checkpoint_zone := False\<rparr>"
  have o: "work_ok env S T (s, p)" "alts_ok env S (m_alternative_chains s)" "bc_checkpoints s = []"
    using ok by (simp_all add: reorg_ok_def)
  have "handle_alternative_block (Suc (Suc n)) env b h bvc (s, p) = handle_alternative_block (Suc (Suc 0)) env b h bvc (s, p)
    \<and> (handle_alternative_block (Suc (Suc n)) env b h bvc (s, p) = Inr (q, bvc', s', p') \<longrightarrow>
      reorg_ok env S T (s', p') \<and> settled (m_blocks s) b q (m_blocks s'))"
    using handle_cases [OF o(1,2) S o(3), of bvc]
  proof
    assume "\<exists>res. (\<forall>n. handle_alternative_block (Suc n) env b h bvc (s, p) = res) \<and> quiet s p res"
    then show ?thesis using reorg_ok_aside [OF ok] o(2) aside_same(1) by (metis quiet_def settled_def)
  next
    assume "\<exists>chain bei. be_bl bei = b \<and> ready env S s chain bei h
        \<and> (\<forall>n. handle_alternative_block (Suc n) env b h bvc (s, p)
             = enter_alternative env (handle_alternative_block n env) chain bei False h bvc (?s, p))"
    then obtain chain bei where c: "be_bl bei = b" "ready env S s chain bei h"
      "\<And>n. handle_alternative_block (Suc n) env b h bvc (s, p)
         = enter_alternative env (handle_alternative_block n env) chain bei False h bvc (?s, p)" by blast
    have ok': "reorg_ok env S T (?s, p)" by (rule reorg_ok_aside [OF ok]) (use o(2) in simp_all)
    have r': "ready env S ?s chain bei h" using c(2) by (simp add: ready_aside)
    have blocks: "m_blocks ?s = m_blocks s" by simp
    show ?thesis using enter_work [OF ok' S(1) fits r', of n bvc] unfolding c(1,3) blocks by blast
  qed
  then show "handle_alternative_block (Suc (Suc n)) env b h bvc (s, p) = handle_alternative_block (Suc (Suc 0)) env b h bvc (s, p)"
    and "handle_alternative_block (Suc (Suc n)) env b h bvc (s, p) = Inr (q, bvc', s', p') \<Longrightarrow>
      reorg_ok env S T (s', p') \<and> settled (m_blocks s) b q (m_blocks s')" by blast+
qed

lemma push_settled:
  assumes ok: "reorg_ok env S T (s, p)" and S: "seen_ok env S T" "b \<in> S" and fits: "work_fits env S"
    and run: "pushBlock env b bvc (s, p) = Inr (q, bvc', s', p')"
  shows "reorg_ok env S T (s', p')" and "settled (m_blocks s) b q (m_blocks s')"
proof -
  have o: "work_ok env S T (s, p)" "node_ok S T (s, p)" "m_blocks s \<noteq> []" "sane env S T" using ok S
    by (simp_all add: reorg_ok_def work_ok_def seen_ok_def)
  note w = push_work [OF o(1) S(2) o(4) run]
  have ne: "m_blocks s' \<noteq> []" using w(3,4) o(3) by (cases q) auto
  show "reorg_ok env S T (s', p')" using w(2) by (intro reorg_ok_rest [OF w(1) _ _ ok ne]) (simp_all add: same_rest_def)
  show "settled (m_blocks s) b q (m_blocks s')"
  proof (cases q)
    case True
    obtain h difficulty txs be where be: "block_checked env b h difficulty s" "completed env b txs difficulty s be"
      "m_blocks s' = m_blocks s @ [be]"
      using push_node(3) [OF o(2) S(2) o(4) run True] unfolding extends_def by blast
    have inv: "worked env (m_blocks s')" "be_bl ` set (m_blocks s') \<subseteq> S" "length (m_blocks s') < 4294967296"
      using w(1) by (simp_all add: work_ok_def node_ok_def chain_inv_def)
    have "path_to env S (m_blocks s) be" using inv o(3) by (simp add: path_to_def be(3))
    then have "cumulative_difficulty (last (m_blocks s)) \<le> cumulative_difficulty be" using fits by (simp add: work_fits_def)
    moreover have "cumulative_difficulty be \<noteq> cumulative_difficulty (last (m_blocks s))"
      using be(1,2) o(3) by (auto simp: block_checked_def completed_def)
    moreover have "be_bl be = b" using be(2) by (simp add: completed_def)
    ultimately show ?thesis using True by (simp add: settled_def be(3))
  qed (use w(3) in \<open>simp add: settled_def\<close>)
qed

lemma addNewBlock_work:
  assumes ok: "reorg_ok env S T (s, p)" and S: "seen_ok env S T" "b \<in> S" and fits: "work_fits env S"
  shows "addNewBlock (Suc (Suc n)) env b bvc (s, p) = addNewBlock (Suc (Suc 0)) env b bvc (s, p)"
    and "addNewBlock (Suc (Suc n)) env b bvc (s, p) = Inr (q, bvc', s', p') \<Longrightarrow>
      reorg_ok env S T (s', p') \<and> settled (m_blocks s) b q (m_blocks s')"
proof -
  have "addNewBlock (Suc (Suc n)) env b bvc (s, p) = addNewBlock (Suc (Suc 0)) env b bvc (s, p)
    \<and> (addNewBlock (Suc (Suc n)) env b bvc (s, p) = Inr (q, bvc', s', p') \<longrightarrow>
      reorg_ok env S T (s', p') \<and> settled (m_blocks s) b q (m_blocks s'))"
    supply handle_alternative_block.simps [simp del]
  proof (cases "getHash b")
    case (Inr h)
    note w = handle_work [OF ok S Inr fits]
    show ?thesis using Inr w(1) w(2) push_settled [OF ok S fits] ok
      by (auto simp: addNewBlock_def settled_def split: sum.splits if_splits)
  qed (simp add: addNewBlock_def)
  then show "addNewBlock (Suc (Suc n)) env b bvc (s, p) = addNewBlock (Suc (Suc 0)) env b bvc (s, p)"
    and "addNewBlock (Suc (Suc n)) env b bvc (s, p) = Inr (q, bvc', s', p') \<Longrightarrow>
      reorg_ok env S T (s', p') \<and> settled (m_blocks s) b q (m_blocks s')" by blast+
qed

end
