(* ===== verification/NodeRun.thy ===== *)
theory NodeRun
  imports Reorg
begin

text \<open>
  The life of a node: transactions and blocks from the network, whole chains from a peer, block templates for the miner and
  the upkeep of the pool, in any order and at any times. Every state that can be reached from a genesis block keeps
  the books of the chain and of the pool in order.
\<close>

section \<open>The times at which things happen\<close>

abbreviation at_time :: "chain_env \<Rightarrow> u64 \<Rightarrow> chain_env" where
  "at_time env t \<equiv> env\<lparr>env_time := t\<rparr>"

lemma difficultyBlocksCount_time [simp]: "difficultyBlocksCount (at_time env t) = difficultyBlocksCount env"
  by (simp add: difficultyBlocksCount_def)

lemma diff_of_time [simp]: "diff_of (at_time env t) bes = diff_of env bes"
  by (simp add: diff_of_def getDifficultyForNextBlock_def)

lemma worked_time [simp]: "worked (at_time env t) bes \<longleftrightarrow> worked env bes"
  by (induction bes rule: rev_induct) (simp_all add: worked_Nil worked_snoc_iff follows_def)

lemma path_to_time [simp]: "path_to (at_time env t) S bes be \<longleftrightarrow> path_to env S bes be"
  by (simp add: path_to_def)

lemma sane_time [simp]: "sane (at_time env t) S T \<longleftrightarrow> sane env S T"
  by (simp add: sane_def oversized_def checkCumulativeBlockSize_def)

lemma env_time_irrelevant [simp]:
  "seen_ok (at_time env t) S T \<longleftrightarrow> seen_ok env S T" "work_fits (at_time env t) S \<longleftrightarrow> work_fits env S"
  "reorg_ok (at_time env t) S T sp \<longleftrightarrow> reorg_ok env S T sp"
  by (simp_all add: seen_ok_def work_fits_def reorg_ok_def work_ok_def alts_ok_def)

section \<open>Transactions\<close>

lemma keyimages_diff_iff:
  "keyimages_diff_loop ins ki \<longleftrightarrow> distinct (key_images ins) \<and> set (key_images ins) \<inter> ki = {}"
  by (induction ins arbitrary: ki) (auto split: transaction_input.splits)

lemma semantic_checked: "check_tx_semantic check_key tx \<Longrightarrow> semantic_ok tx"
  by (auto simp: check_tx_semantic_def semantic_ok_def check_tx_inputs_keyimages_diff_def keyimages_diff_iff
      checkMultisignatureInputsDiff_iff split: if_splits)

lemma parsed_hash: "parseAndValidateTransaction blob = Some (tx, h, ph) \<Longrightarrow> h = tx_hash tx"
  using par_transaction_iff [of blob tx "[]"]
  by (auto simp: parseAndValidateTransaction_def tx_from_bytes_def array_from_def tx_hash_def tx_to_bytes_def array_to_def
      split: option.splits sum.splits prod.splits if_splits)

lemma pool_change:
  assumes "reorg_ok env S T (s, p)" and "pool_sound T q" and "pool_ids q \<subseteq> X \<union> pool_ids p"
    and "X \<inter> dom (m_transactionMap s) = {}" and "X \<inter> coinbase_ids S = {}"
  shows "reorg_ok env S T (s, q)"
proof -
  have "node_ok S T (s, p)" using assms(1) by (simp add: reorg_ok_def work_ok_def)
  then have "pool_ids p \<inter> dom (m_transactionMap s) = {}" "pool_ids p \<inter> coinbase_ids S = {}" by (simp_all add: node_ok_def apart_def)
  then have "pool_ids q \<inter> dom (m_transactionMap s) = {}" "pool_ids q \<inter> coinbase_ids S = {}" using assms(3-5) by fast+
  then have "node_ok S T (s, q)" using \<open>node_ok S T (s, p)\<close> assms(2) by (simp add: node_ok_def apart_def)
  then show ?thesis using assms(1) by (simp add: reorg_ok_def work_ok_def)
qed

lemma pool_sound_of: "reorg_ok env S T (s, p) \<Longrightarrow> pool_sound T p"
  by (simp add: reorg_ok_def work_ok_def node_ok_def)

lemma handleIncoming_ok:
  assumes ok: "reorg_ok env S T (s, p)" and S: "seen_ok env S T" and tx: "tx \<in> T"
    and run: "handleIncomingTransaction check_key env' tx (tx_hash tx) sz tvc kept (s, p) = Inr (r, tvc', sp')"
  shows "reorg_ok env S T sp' \<and> fst sp' = s"
proof (cases "sp' = (s, p)")
  case False
  then have "semantic_ok tx" using run by (auto simp: handleIncomingTransaction_def intro: semantic_checked split: if_splits)
  then have sem: "known T tx" using tx by (simp add: known_def)
  have h: "{tx_hash tx} \<inter> coinbase_ids S = {}" using S tx by (auto simp: seen_ok_def sane_def)
  from False run obtain q where q: "sp' = (s, q)" "tx_hash tx \<notin> dom (m_transactionMap s)"
    "core_add_tx env' s tx (tx_hash tx) sz tvc kept p = Inr (r, tvc', q)"
    by (auto simp: handleIncomingTransaction_def add_new_tx_def haveTransaction_def split: if_splits sum.splits)
  have "add_tx (env_currency env') (validator_of env' s) (env_time env') tx (tx_hash tx) sz kept tvc p = Inr (r, tvc', q)"
    using q(3) by (auto simp: core_add_tx_def Let_def split: sum.splits if_splits)
  from add_tx_sound [OF pool_sound_of [OF ok] sem this]
  show ?thesis using q(2) h by (auto simp: q(1) intro: pool_change [OF ok _ _ _ h])
qed (use ok in simp)

lemma same_entry_sound:
  assumes "pool_sound T p" and "fill_block_template cur V median limit p = Inr (hs, total_size, fee, q)"
  shows "pool_sound T q" and "pool_ids q = pool_ids p"
proof -
  have same: "list_all2 same_entry (m_transactions q) (m_transactions p)" using fill_block_template_inv [OF assms(2)] by simp
  have inv: "pool_inv q" using pool_step_inv [OF step_fill [OF assms(2)]] assms(1) by (simp add: pool_sound_def)
  have "map td_id (m_transactions q) = map td_id (m_transactions p) \<and> map td_tx (m_transactions q) = map td_tx (m_transactions p)"
    using same by (induction rule: list_all2_induct) (auto simp: same_entry_def core_def)
  then have ids: "map td_id (m_transactions q) = map td_id (m_transactions p)" by blast
  show "pool_ids q = pool_ids p" unfolding pool_ids_def set_map [symmetric] ids ..
  have "\<forall>td \<in> set (m_transactions q). entry_sound T td"
    using same assms(1) by (force simp: list_all2_conv_all_nth in_set_conv_nth pool_sound_def entry_sound_def same_entry_def core_def)
  then show "pool_sound T q" using inv by (simp add: pool_sound_def)
qed

section \<open>The steps of a node\<close>

inductive node_step :: "chain_env \<Rightarrow> block set \<Rightarrow> transaction set \<Rightarrow> chain_state \<Rightarrow> chain_state \<Rightarrow> bool" for env S T where
  node_transaction: "handle_incoming_tx check_key (at_time env t) blob kept sp = Inr (r, tvc, sp')
    \<Longrightarrow> \<forall>tx. tx_from_bytes blob = Some tx \<longrightarrow> tx \<in> T \<Longrightarrow> node_step env S T sp sp'"
| node_block: "handle_incoming_block (Suc (Suc n)) (at_time env t) b bvc relay_block sp = Inr (r, bvc', sp', msg)
    \<Longrightarrow> b \<in> S \<Longrightarrow> node_step env S T sp sp'"
| node_chain: "addChain (Suc (Suc n)) check_key (at_time env t) chain sp = Inr (k, sp')
    \<Longrightarrow> \<forall>(b, txs) \<in> set chain. b \<in> S \<and> set txs \<subseteq> T \<Longrightarrow> node_step env S T sp sp'"
| node_template: "get_block_template (at_time env t) hardforks version keys ex_nonce sp = Inr (template, sp')
    \<Longrightarrow> node_step env S T sp sp'"
| node_idle: "on_idle (env_currency env) now p = Inr q \<Longrightarrow> node_step env S T (s, p) (s, q)"

text \<open>The node starts with a genesis block that the empty chain has taken.\<close>

definition genesis_state :: "chain_env \<Rightarrow> block set \<Rightarrow> transaction set \<Rightarrow> chain_state \<Rightarrow> bool" where
  "genesis_state env S T sp \<longleftrightarrow>
     (\<exists>b bvc bvc' t. b \<in> S \<and> pushBlock (at_time env t) b bvc (blockchain_new, empty_pool) = Inr (True, bvc', sp))"

definition node_run :: "chain_env \<Rightarrow> block set \<Rightarrow> transaction set \<Rightarrow> chain_state \<Rightarrow> bool" where
  "node_run env S T sp \<longleftrightarrow> (\<exists>start. genesis_state env S T start \<and> (node_step env S T)\<^sup>*\<^sup>* start sp)"

lemma genesis_ok:
  assumes "seen_ok env S T" and "genesis_state env S T sp"
  shows "reorg_ok env S T sp"
proof -
  obtain b bvc bvc' t where b: "b \<in> S" and run: "pushBlock (at_time env t) b bvc (blockchain_new, empty_pool) = Inr (True, bvc', sp)"
    using assms(2) by (auto simp: genesis_state_def)
  obtain s p where sp: "sp = (s, p)" by (cases sp)
  have "node_ok S T (blockchain_new, empty_pool)"
    using chain_inv_sample by (simp add: node_ok_def pool_sound_def pool_inv_empty apart_def pool_ids_def)
       (simp add: empty_pool_def blockchain_new_def)
  then have "work_ok (at_time env t) S T (blockchain_new, empty_pool)"
    by (simp add: work_ok_def blockchain_new_def worked_Nil)
  note w = push_work [OF this b _ run [unfolded sp]]
  have s: "sane (at_time env t) S T" using assms(1) by (simp add: seen_ok_def)
  have "m_blocks s \<noteq> []" using w(4) [OF s] by auto
  moreover have "m_alternative_chains s = Map.empty" "bc_checkpoints s = []"
    using w(2) [OF s] by (simp_all add: same_rest_def blockchain_new_def)
  moreover have "work_ok env S T (s, p)" using w(1) [OF s] by (simp add: work_ok_def)
  ultimately show ?thesis by (simp add: sp reorg_ok_def alts_ok_def)
qed

lemma add_chain_txs_ok:
  assumes "reorg_ok env S T sp" and "seen_ok env S T" and "set txs \<subseteq> T"
    and "add_chain_txs check_key env' txs sp = Inr (r, sp')"
  shows "reorg_ok env S T sp'"
  using assms(1,3,4)
proof (induction txs arbitrary: sp)
  case (Cons tx txs)
  obtain s p where sp: "sp = (s, p)" by (cases sp)
  obtain q tvc sp1 where run: "handleIncomingTransaction check_key env' tx (tx_hash tx) (tx_size tx) tvc_new True sp = Inr (q, tvc, sp1)"
    and rest: "if \<not> q then sp' = sp1 else add_chain_txs check_key env' txs sp1 = Inr (r, sp')"
    using Cons.prems(3) by (auto split: sum.splits if_splits)
  have "reorg_ok env S T sp1" using handleIncoming_ok [of env S T s p tx] assms(2) Cons.prems run by (simp add: sp)
  then show ?case using rest Cons.IH [of sp1] Cons.prems(2) by (auto split: if_splits)
qed simp

lemma addChain_ok:
  assumes "seen_ok env S T" and "work_fits env S" and "reorg_ok env S T sp"
    and "\<forall>(b, txs) \<in> set chain. b \<in> S \<and> set txs \<subseteq> T"
    and "addChain (Suc (Suc n)) check_key env chain sp = Inr (k, sp')"
  shows "reorg_ok env S T sp'"
  using assms(3-5)
proof (induction chain arbitrary: sp k)
  case (Cons x chain)
  obtain b txs where x: "x = (b, txs)" by (cases x)
  obtain q sp1 where txs: "add_chain_txs check_key env txs sp = Inr (q, sp1)"
    using Cons.prems(3) by (auto simp: x split: sum.splits)
  have b: "b \<in> S" and sp1: "reorg_ok env S T sp1" using add_chain_txs_ok [OF Cons.prems(1) assms(1) _ txs] Cons.prems(2) by (auto simp: x)
  show ?case
  proof (cases q)
    case True
    then obtain r bvc sp2 where run: "addNewBlock (Suc (Suc n)) env b bvc_new sp1 = Inr (r, bvc, sp2)"
      using Cons.prems(3) txs by (auto simp: x split: sum.splits)
    have sp2: "reorg_ok env S T sp2"
      using addNewBlock_work(2) [of env S T "fst sp1" "snd sp1" b n bvc_new r bvc "fst sp2" "snd sp2"] sp1 assms(1,2) b run by simp
    show ?thesis
    proof (cases "bvc_marked_as_orphaned bvc \<or> bvc_verifivation_failed bvc")
      case False
      then obtain j where "addChain (Suc (Suc n)) check_key env chain sp2 = Inr (j, sp')"
        using Cons.prems(3) txs True run by (auto simp: x split: sum.splits)
      then show ?thesis using Cons.IH [OF sp2] Cons.prems(2) by simp
    qed (use Cons.prems(3) txs True run sp2 in \<open>auto simp: x\<close>)
  qed (use Cons.prems(3) txs sp1 in \<open>auto simp: x\<close>)
qed simp

lemma template_pool:
  assumes "get_block_template env hardforks version keys ex_nonce (s, p) = Inr (template, s', q)"
  shows "s' = s \<and> (q = p \<or> (\<exists>cur V median limit hs total_size fee.
    fill_block_template cur V median limit p = Inr (hs, total_size, fee, q)))"
  using assms
  by (auto simp: get_block_template_def Let_def split: sum.splits prod.splits option.splits if_splits; blast)

lemma node_step_ok:
  assumes "node_step env S T sp sp'" and "seen_ok env S T" and "work_fits env S" and "reorg_ok env S T sp"
  shows "reorg_ok env S T sp'"
  using assms(1,4)
proof (cases rule: node_step.cases)
  case (node_transaction check_key t blob kept r tvc)
  obtain s p where sp: "sp = (s, p)" by (cases sp)
  show ?thesis
  proof (cases "sp' = sp")
    case False
    then obtain tx h ph where parse: "parseAndValidateTransaction blob = Some (tx, h, ph)"
      and run: "handleIncomingTransaction check_key (at_time env t) tx h (of_nat (length blob)) tvc_new kept sp = Inr (r, tvc, sp')"
      using node_transaction(1) by (auto simp: handle_incoming_tx_def split: if_splits option.splits)
    have "h = tx_hash tx" by (rule parsed_hash [OF parse])
    moreover have "tx \<in> T" using parse node_transaction(2) by (auto simp: parseAndValidateTransaction_def split: option.splits)
    ultimately show ?thesis using handleIncoming_ok [of env S T s p tx] assms(2,4) run by (simp add: sp)
  qed (use assms(4) in simp)
next
  case (node_block n t b bvc relay_block r bvc' msg)
  then obtain q bvc1 where "addNewBlock (Suc (Suc n)) (at_time env t) b bvc sp = Inr (q, bvc1, sp')"
    by (auto simp: handle_incoming_block_def split: sum.splits if_splits)
  then show ?thesis
    using addNewBlock_work(2) [of "at_time env t" S T "fst sp" "snd sp" b n bvc q bvc1 "fst sp'" "snd sp'"] assms node_block(2) by simp
next
  case (node_chain n check_key t chain k)
  then show ?thesis using addChain_ok [of "at_time env t" S T sp chain n check_key k sp'] assms by simp
next
  case (node_template t hardforks version keys ex_nonce template)
  obtain s p where sp: "sp = (s, p)" by (cases sp)
  obtain s' q where sp': "sp' = (s', q)" by (cases sp')
  note t = template_pool [OF node_template(1) [unfolded sp sp']]
  have "pool_sound T p" using assms(4) by (auto simp: sp dest: pool_sound_of)
  then have "pool_sound T q" "pool_ids q \<subseteq> pool_ids p" using t same_entry_sound [of T p] by (blast, blast)
  then show ?thesis using assms(4) t pool_change [of env S T s p q "{}"] by (simp add: sp sp')
next
  case (node_idle now p q s)
  have ok: "pool_sound T p" using assms(4) node_idle(1) by (auto dest: pool_sound_of)
  then obtain r q1 where q1: "removeExpiredTransactions (env_currency env) now p = Inr (r, q1)" "pool_inv q1"
    "m_transactions q1 = filter (\<lambda>td. \<not> expired (env_currency env) now td) (m_transactions p)"
    using removeExpired_inv [of p "env_currency env" now] by (auto simp: pool_sound_def)
  have "pool_sound T q \<and> pool_ids q \<subseteq> pool_ids p"
    using node_idle(3) q1 ok by (auto simp: on_idle_def pool_sound_def pool_ids_def pool_inv_def split: if_splits)
  then show ?thesis using assms(4) pool_change [of env S T s p q "{}"] by (simp add: node_idle)
qed

lemma node_run_ok:
  assumes "node_run env S T sp" and "seen_ok env S T" and "work_fits env S"
  shows "reorg_ok env S T sp"
proof -
  obtain start where start: "genesis_state env S T start" and steps: "(node_step env S T)\<^sup>*\<^sup>* start sp"
    using assms(1) unfolding node_run_def by blast
  from steps show ?thesis
    by (induction rule: rtranclp_induct) (use assms(2,3) start in \<open>auto intro: node_step_ok genesis_ok\<close>)
qed

section \<open>Properties\<close>

definition chain_txs :: "blockchain \<Rightarrow> transaction list" where
  "chain_txs s = concat (map entry_txs (m_blocks s))"

lemma chain_step_images:
  "step_images (chain_steps bes) = concat (map (\<lambda>tx. key_images (tx_inputs tx)) (concat (map entry_txs bes)))"
  "step_refs (chain_steps bes) = concat (map (\<lambda>tx. multisig_refs (tx_inputs tx)) (concat (map entry_txs bes)))"
proof (induction bes rule: rev_induct)
  case (snoc be bes)
  have "step_images (indexed b t (map (\<lambda>tx. (tx, tx_hash tx)) txs)) = concat (map (\<lambda>tx. key_images (tx_inputs tx)) txs)"
    "step_refs (indexed b t (map (\<lambda>tx. (tx, tx_hash tx)) txs)) = concat (map (\<lambda>tx. multisig_refs (tx_inputs tx)) txs)" for b t txs
    by (induction txs arbitrary: t) simp_all
  then show "step_images (chain_steps (bes @ [be])) = concat (map (\<lambda>tx. key_images (tx_inputs tx)) (concat (map entry_txs (bes @ [be]))))"
    "step_refs (chain_steps (bes @ [be])) = concat (map (\<lambda>tx. multisig_refs (tx_inputs tx)) (concat (map entry_txs (bes @ [be]))))"
    using snoc by (simp_all add: block_steps_def)
qed simp_all

lemma no_double_spend:
  assumes "chain_inv s"
  shows "distinct (concat (map (\<lambda>tx. key_images (tx_inputs tx)) (chain_txs s)))"
    and "m_spent_keys s = set (concat (map (\<lambda>tx. key_images (tx_inputs tx)) (chain_txs s)))"
    and "distinct (concat (map (\<lambda>tx. multisig_refs (tx_inputs tx)) (chain_txs s)))"
proof -
  have g: "grows (empty_caches s) (chain_steps (m_blocks s)) s" using assms by (simp add: chain_inv_def)
  show "distinct (concat (map (\<lambda>tx. key_images (tx_inputs tx)) (chain_txs s)))"
    and "m_spent_keys s = set (concat (map (\<lambda>tx. key_images (tx_inputs tx)) (chain_txs s)))"
    using grows_images [OF g] by (simp_all add: chain_step_images chain_txs_def empty_caches_def)
  show "distinct (concat (map (\<lambda>tx. multisig_refs (tx_inputs tx)) (chain_txs s)))"
    using grows_refs(1) [OF g] by (simp add: chain_step_images chain_txs_def)
qed

text \<open>A node whose only block is the genesis block of the samples.\<close>

lemma not_oversized_small:
  assumes "block_size b txs \<le> m_maxBlockSizeInitial (env_currency env)"
  shows "\<not> oversized env b txs s"
  using assms
  by (auto simp: oversized_def checkCumulativeBlockSize_def maxBlockCumulativeSize_def Let_def not_less split: sum.splits if_splits)

lemma sample_seen: "seen_ok sample_env {sample_block} {}"
proof -
  have "block_size sample_block [] \<le> m_maxBlockSizeInitial (env_currency sample_env)"
    by (simp add: block_size_def sample_checks sample_env_def default_currency_def)
  then have "sane sample_env {sample_block} {}"
    by (simp add: sane_def coinbase_ids_def sample_fields not_oversized_small)
  moreover have "0 < difficultyBlocksCount sample_env"
    by (simp add: difficultyBlocksCount_def sample_env_def default_currency_def)
  ultimately show ?thesis by (simp add: seen_ok_def hashes_apart_def sample_fields)
qed

lemma sample_work: "work_fits sample_env {sample_block}"
proof -
  have "\<not> path_to sample_env {sample_block} bes be" for bes be
  proof
    assume p: "path_to sample_env {sample_block} bes be"
    then have "be_bl be = sample_block" "tx_inputs (baseTransaction (be_bl be)) = [BaseInput (of_nat (length bes))]"
      by (auto simp: path_to_def worked_snoc_iff follows_def)
    then have "(of_nat (length bes) :: u32) = 0" by (simp add: sample_fields)
    then have "unat (of_nat (length bes) :: u32) = 0" by simp
    then show False using p by (simp add: path_to_def unat_of_nat_u32)
  qed
  then show ?thesis by (simp add: work_fits_def)
qed

lemma sample_run: "\<exists>s p. node_run sample_env {sample_block} {} (s, p)"
proof -
  obtain s where "pushBlock_transactions sample_env sample_block [] bvc_new blockchain_new
      = Inr (True, bvc_new\<lparr>bvc_added_to_main_chain := True\<rparr>, s)" using sample_pushed by blast
  then have "pushBlock sample_env sample_block bvc_new (blockchain_new, empty_pool)
      = Inr (True, bvc_new\<lparr>bvc_added_to_main_chain := True\<rparr>, s, empty_pool)"
    by (simp add: pushBlock_def sample_fields)
  moreover have "at_time sample_env 1000000 = sample_env" by (simp add: sample_env_def)
  ultimately have "genesis_state sample_env {sample_block} {} (s, empty_pool)" unfolding genesis_state_def by (metis singletonI)
  then show ?thesis unfolding node_run_def by blast
qed

lemma sample_known:
  assumes "node_run sample_env {sample_block} {} (s, p)"
  shows "addNewBlock 2 (at_time sample_env 0) sample_block bvc_new (s, p) = Inr (False, bvc_new\<lparr>bvc_already_exists := True\<rparr>, s, p)"
proof -
  have ok: "reorg_ok sample_env {sample_block} {} (s, p)" using assms sample_seen sample_work by (rule node_run_ok)
  then have inv: "chain_inv s" "m_blocks s \<noteq> []" "be_bl (m_blocks s ! 0) = sample_block"
    by (auto simp: reorg_ok_def work_ok_def node_ok_def image_subset_iff)
  have "length (m_blockIndex s) = length (m_blocks s)" using inv(1) by (simp add: chain_inv_def index_ok_length)
  then have "m_blockIndex s ! 0 \<in> set (m_blockIndex s)" using inv(2) by auto
  then show ?thesis using index_hash [OF inv(1), of 0] inv(2,3)
    by (simp add: addNewBlock_def haveBlock_def hasBlock_def)
qed







text \<open>
  C35: the difficulty asked of a block on an alternative branch is the one the main chain would ask of it, if the
  branch were the main chain: the window is taken from the branch and, below it, from the blocks of the main chain
  up to the fork.
\<close>

theorem alternative_difficulty:
  assumes "0 < difficultyBlocksCount env" and "0 < split" and "split \<le> length (m_blocks s)"
    and "unat (be_height (if chain \<noteq> [] then hd chain else bei)) = split"
  shows "get_next_difficulty_for_alternative_chain env s chain bei
    = getDifficultyForNextBlock env (s\<lparr>m_blocks := take split (m_blocks s) @ chain\<rparr>)"
  by (rule branch_difficulty [OF assms])

theorem alternative_difficulty_witness:
  "get_next_difficulty_for_alternative_chain sample_env
     (blockchain_new\<lparr>m_blocks := [alt_entry sample_block 0, alt_entry sample_block 1]\<rparr>) [] (alt_entry sample_block 1)
   = getDifficultyForNextBlock sample_env (blockchain_new\<lparr>m_blocks := [alt_entry sample_block 0]\<rparr>)"
  using alternative_difficulty [of sample_env 1
      "blockchain_new\<lparr>m_blocks := [alt_entry sample_block 0, alt_entry sample_block 1]\<rparr>" "[]" "alt_entry sample_block 1"]
    sample_seen
  by (simp add: alt_entry_def seen_ok_def)

end
