(* ===== verification/Json.thy ===== *)
theory Json
  imports Currency "HOL-Library.Char_ord" "HOL-Library.List_Lexorder"
begin

text \<open>
  \<open>JsonValue\<close> of \<open>src/common/JsonValue.cpp\<close>: the values, their accessors, the text written for a value and the reader.
\<close>

section \<open>Definitions\<close>

subsection \<open>Values\<close>

text \<open>
  \<open>'r\<close> stands for \<open>double\<close>. An object is a \<open>std::map\<close>: its entries in the order of their keys. An integer is read with
  \<open>sint\<close>.
\<close>

datatype 'r json =
    JArray "'r json list"
  | JBool bool
  | JInteger u64
  | JNil
  | JObject "(string \<times> 'r json) list"
  | JReal 'r
  | JString string

text \<open>The exceptions: one constructor per message, and \<open>std::out_of_range\<close> of \<open>at\<close>.\<close>

datatype json_exn =
    UnexpectedEnd
  | UnableToParse
  | NotArray
  | NotBool
  | NotInteger
  | NotObject
  | NotReal
  | NotString
  | NotArrayOrObject
  | NoSuchElement
  | OutOfFuel

definition getArray :: "'r json \<Rightarrow> json_exn + 'r json list" where
  "getArray j = (case j of JArray vs \<Rightarrow> Inr vs | _ \<Rightarrow> Inl NotArray)"

definition getBool :: "'r json \<Rightarrow> json_exn + bool" where
  "getBool j = (case j of JBool b \<Rightarrow> Inr b | _ \<Rightarrow> Inl NotBool)"

definition getInteger :: "'r json \<Rightarrow> json_exn + u64" where
  "getInteger j = (case j of JInteger i \<Rightarrow> Inr i | _ \<Rightarrow> Inl NotInteger)"

definition getObject :: "'r json \<Rightarrow> json_exn + (string \<times> 'r json) list" where
  "getObject j = (case j of JObject m \<Rightarrow> Inr m | _ \<Rightarrow> Inl NotObject)"

definition getReal :: "'r json \<Rightarrow> json_exn + 'r" where
  "getReal j = (case j of JReal r \<Rightarrow> Inr r | _ \<Rightarrow> Inl NotReal)"

definition getString :: "'r json \<Rightarrow> json_exn + string" where
  "getString j = (case j of JString s \<Rightarrow> Inr s | _ \<Rightarrow> Inl NotString)"

definition json_size :: "'r json \<Rightarrow> json_exn + nat" where
  "json_size j = (case j of JArray vs \<Rightarrow> Inr (length vs) | JObject m \<Rightarrow> Inr (length m) | _ \<Rightarrow> Inl NotArrayOrObject)"

definition json_at :: "'r json \<Rightarrow> nat \<Rightarrow> json_exn + 'r json" where
  "json_at j i =
     (case getArray j of Inl e \<Rightarrow> Inl e | Inr vs \<Rightarrow> if i < length vs then Inr (vs ! i) else Inl NoSuchElement)"

definition pushBack :: "'r json \<Rightarrow> 'r json \<Rightarrow> json_exn + 'r json" where
  "pushBack v j = (case getArray j of Inl e \<Rightarrow> Inl e | Inr vs \<Rightarrow> Inr (JArray (vs @ [v])))"

text \<open>\<open>operator[]\<close> of the map with an assignment.\<close>

fun object_put :: "string \<Rightarrow> 'v \<Rightarrow> (string \<times> 'v) list \<Rightarrow> (string \<times> 'v) list" where
  "object_put k v [] = [(k, v)]"
| "object_put k v ((k', v') # m) =
     (if k < k' then (k, v) # (k', v') # m else if k = k' then (k, v) # m else (k', v') # object_put k v m)"

definition object_erase :: "string \<Rightarrow> (string \<times> 'v) list \<Rightarrow> (string \<times> 'v) list" where
  "object_erase k m = filter (\<lambda>e. fst e \<noteq> k) m"

definition json_member :: "'r json \<Rightarrow> string \<Rightarrow> json_exn + 'r json" where
  "json_member j k =
     (case getObject j of
        Inl e \<Rightarrow> Inl e
      | Inr m \<Rightarrow> (case map_of m k of None \<Rightarrow> Inl NoSuchElement | Some v \<Rightarrow> Inr v))"

definition json_contains :: "'r json \<Rightarrow> string \<Rightarrow> json_exn + bool" where
  "json_contains j k = (case getObject j of Inl e \<Rightarrow> Inl e | Inr m \<Rightarrow> Inr (map_of m k \<noteq> None))"

text \<open>\<open>insert\<close> is an \<open>emplace\<close>: an entry that exists stays. It returns the entry of the key.\<close>

definition json_insert :: "string \<Rightarrow> 'r json \<Rightarrow> 'r json \<Rightarrow> json_exn + 'r json \<times> 'r json" where
  "json_insert k v j =
     (case getObject j of
        Inl e \<Rightarrow> Inl e
      | Inr m \<Rightarrow>
          (case map_of m k of
             None \<Rightarrow> Inr (v, JObject (object_put k v m))
           | Some old \<Rightarrow> Inr (old, j)))"

definition json_set :: "string \<Rightarrow> 'r json \<Rightarrow> 'r json \<Rightarrow> json_exn + 'r json" where
  "json_set k v j = (case getObject j of Inl e \<Rightarrow> Inl e | Inr m \<Rightarrow> Inr (JObject (object_put k v m)))"

definition json_erase :: "string \<Rightarrow> 'r json \<Rightarrow> json_exn + nat \<times> 'r json" where
  "json_erase k j =
     (case getObject j of
        Inl e \<Rightarrow> Inl e
      | Inr m \<Rightarrow> Inr (if map_of m k = None then 0 else 1, JObject (object_erase k m)))"

subsection \<open>Writing\<close>

definition integer_text :: "u64 \<Rightarrow> string" where
  "integer_text i = (if sint i < 0 then CHR ''-'' # to_string (nat (- sint i)) else to_string (nat (sint i)))"

text \<open>The loop that drops the zeros at the end of a real, of which one stays after the point.\<close>

function drop_real_zeros :: "string \<Rightarrow> string" where
  "drop_real_zeros value =
     (if 1 < length value \<and> value ! (length value - 2) \<noteq> CHR ''.'' \<and> last value = CHR ''0''
      then drop_real_zeros (butlast value) else value)"
  by pat_completeness auto

termination by (relation "measure length") auto

declare drop_real_zeros.simps [simp del]

fun with_commas :: "string list \<Rightarrow> string" where
  "with_commas [] = []"
| "with_commas (t # ts) = t @ concat (map (\<lambda>t. CHR '','' # t) ts)"

abbreviation quote :: char where "quote \<equiv> CHR 0x22"
abbreviation backslash :: char where "backslash \<equiv> CHR 0x5C"

text \<open>\<open>fixed\<close> stands for the text of a \<open>double\<close> with \<open>std::fixed\<close> and eleven digits. Nothing is escaped.\<close>

fun json_text :: "('r \<Rightarrow> string) \<Rightarrow> 'r json \<Rightarrow> string" where
  "json_text fixed (JArray vs) = ''['' @ with_commas (map (json_text fixed) vs) @ '']''"
| "json_text fixed (JBool b) = (if b then ''true'' else ''false'')"
| "json_text fixed (JInteger i) = integer_text i"
| "json_text fixed JNil = ''null''"
| "json_text fixed (JObject m) =
     ''{'' @ with_commas (map (\<lambda>(k, v). quote # k @ quote # '':'' @ json_text fixed v) m) @ ''}''"
| "json_text fixed (JReal r) = drop_real_zeros (fixed r)"
| "json_text fixed (JString s) = quote # s @ [quote]"

subsection \<open>Reading\<close>

text \<open>\<open>operator>>\<close> into a \<open>char\<close> skips white space first.\<close>

definition readChar :: "string \<Rightarrow> json_exn + char \<times> string" where
  "readChar s = (case dropWhile isspace s of [] \<Rightarrow> Inl UnexpectedEnd | c # s \<Rightarrow> Inr (c, s))"

lemma readChar_shorter: "readChar s = Inr (c, s') \<Longrightarrow> length s' < length s"
  using length_dropWhile_le [of isspace s] by (auto simp: readChar_def split: list.splits)

function readNonWsChar :: "string \<Rightarrow> json_exn + char \<times> string" where
  "readNonWsChar s =
     (case readChar s of
        Inl e \<Rightarrow> Inl e
      | Inr (c, s') \<Rightarrow> if isspace c then readNonWsChar s' else Inr (c, s'))"
  by pat_completeness auto

termination by (relation "measure length") (auto dest!: readChar_shorter [OF sym] readChar_shorter)

declare readNonWsChar.simps [simp del]

text \<open>The characters of a string up to its closing quote; an escaped character is kept with its backslash.\<close>

function readStringToken :: "string \<Rightarrow> string \<Rightarrow> json_exn + string \<times> string" where
  "readStringToken value s =
     (case readChar s of
        Inl e \<Rightarrow> Inl e
      | Inr (c, s1) \<Rightarrow>
          if c = quote then Inr (value, s1)
          else if c = backslash then
            (case readChar s1 of
               Inl e \<Rightarrow> Inl e
             | Inr (c', s2) \<Rightarrow> readStringToken (value @ [c, c']) s2)
          else readStringToken (value @ [c]) s1)"
  by pat_completeness auto

termination
  by (relation "measure (\<lambda>(_, s). length s)") (auto dest!: readChar_shorter)

declare readStringToken.simps [simp del]

text \<open>\<open>read\<close> of the rest of a word. A short read leaves bytes undefined and the stream failed: no value is returned.\<close>

definition readWord :: "string \<Rightarrow> 'r json \<Rightarrow> string \<Rightarrow> json_exn + 'r json \<times> string" where
  "readWord w v s = (if take (length w) s = w then Inr (v, drop (length w) s) else Inl UnableToParse)"

text \<open>
  \<open>operator>>\<close> of a string stream into an \<open>int64_t\<close>, on a digit or a minus sign followed by digits: a value out of
  range gives the nearest bound, a sign alone gives 0, and the failure of the stream is not looked at.
\<close>

definition to_integer :: "string \<Rightarrow> u64" where
  "to_integer txt =
     (case txt of
        [] \<Rightarrow> 0
      | c # ds \<Rightarrow>
          if c = CHR ''-'' then (if ds = [] then 0 else if 2 ^ 63 < digits_value ds then 2 ^ 63 else - of_nat (digits_value ds))
          else if 2 ^ 63 \<le> digits_value txt then 2 ^ 63 - 1 else of_nat (digits_value txt))"

definition read_exponent :: "string \<Rightarrow> json_exn + string \<times> string" where
  "read_exponent s =
     (case s of
        [] \<Rightarrow> Inr ([], s)
      | c # s1 \<Rightarrow>
          if c \<noteq> CHR ''e'' then Inr ([], s)
          else
            let sign = (case s1 of [] \<Rightarrow> [] | c # _ \<Rightarrow> if c = CHR ''+'' \<or> c = CHR ''-'' then [c] else []);
                s2 = drop (length sign) s1
            in if s2 = [] \<or> \<not> isdigit (hd s2) then Inl UnableToParse
               else Inr (c # sign @ takeWhile isdigit s2, dropWhile isdigit s2))"

text \<open>\<open>to_real\<close> stands for \<open>operator>>\<close> of a string stream into a \<open>double\<close>.\<close>

definition readNumber :: "(string \<Rightarrow> 'r) \<Rightarrow> char \<Rightarrow> string \<Rightarrow> json_exn + 'r json \<times> string" where
  "readNumber to_real c s =
     (let inside = (\<lambda>c. isdigit c \<or> c = CHR ''.'');
          txt = c # takeWhile inside s;
          s = dropWhile inside s;
          dots = length (filter (\<lambda>c. c = CHR ''.'') (tl txt))
      in if 0 < dots then
           if 1 < dots then Inl UnableToParse
           else case read_exponent s of
             Inl e \<Rightarrow> Inl e
           | Inr (ex, s) \<Rightarrow> Inr (JReal (to_real (txt @ ex)), s)
         else if 1 < length txt \<and> (txt ! 0 = CHR ''0'' \<or> txt ! 0 = CHR ''-'' \<and> txt ! 1 = CHR ''0'') then Inl UnableToParse
         else Inr (JInteger (to_integer txt), s))"

text \<open>
  \<open>operator>>\<close> with the loops of \<open>readArray\<close> and \<open>readObject\<close>. Every call uses up characters of the input; the first argument
  bounds the calls and runs out only when it starts too small.
\<close>

fun json_read :: "(string \<Rightarrow> 'r) \<Rightarrow> nat \<Rightarrow> string \<Rightarrow> json_exn + 'r json \<times> string"
and readArray :: "(string \<Rightarrow> 'r) \<Rightarrow> nat \<Rightarrow> 'r json list \<Rightarrow> string \<Rightarrow> json_exn + 'r json \<times> string"
and readObject :: "(string \<Rightarrow> 'r) \<Rightarrow> nat \<Rightarrow> char \<Rightarrow> (string \<times> 'r json) list \<Rightarrow> string \<Rightarrow> json_exn + 'r json \<times> string" where
  "json_read to_real 0 s = Inl OutOfFuel"
| "json_read to_real (Suc n) s =
     (case readNonWsChar s of
        Inl e \<Rightarrow> Inl e
      | Inr (c, s) \<Rightarrow>
          if c = CHR ''['' then
            (case readNonWsChar s of
               Inl e \<Rightarrow> Inl e
             | Inr (c, s) \<Rightarrow> if c = CHR '']'' then Inr (JArray [], s) else readArray to_real n [] (c # s))
          else if c = CHR ''t'' then readWord ''rue'' (JBool True) s
          else if c = CHR ''f'' then readWord ''alse'' (JBool False) s
          else if c = CHR ''-'' \<or> isdigit c then readNumber to_real c s
          else if c = CHR ''n'' then readWord ''ull'' JNil s
          else if c = CHR ''{'' then
            (case readNonWsChar s of
               Inl e \<Rightarrow> Inl e
             | Inr (c, s) \<Rightarrow> if c = CHR ''}'' then Inr (JObject [], s) else readObject to_real n c [] s)
          else if c = quote then
            (case readStringToken [] s of Inl e \<Rightarrow> Inl e | Inr (value, s) \<Rightarrow> Inr (JString value, s))
          else Inl UnableToParse)"
| "readArray to_real 0 value s = Inl OutOfFuel"
| "readArray to_real (Suc n) value s =
     (case json_read to_real n s of
        Inl e \<Rightarrow> Inl e
      | Inr (v, s) \<Rightarrow>
          (case readNonWsChar s of
             Inl e \<Rightarrow> Inl e
           | Inr (c, s) \<Rightarrow>
               if c = CHR '']'' then Inr (JArray (value @ [v]), s)
               else if c \<noteq> CHR '','' then Inl UnableToParse
               else readArray to_real n (value @ [v]) s))"
| "readObject to_real 0 c value s = Inl OutOfFuel"
| "readObject to_real (Suc n) c value s =
     (if c \<noteq> quote then Inl UnableToParse
      else case readStringToken [] s of
        Inl e \<Rightarrow> Inl e
      | Inr (name, s) \<Rightarrow>
          (case readNonWsChar s of
             Inl e \<Rightarrow> Inl e
           | Inr (c, s) \<Rightarrow>
               if c \<noteq> CHR '':'' then Inl UnableToParse
               else case json_read to_real n s of
                 Inl e \<Rightarrow> Inl e
               | Inr (v, s) \<Rightarrow>
                   (case readNonWsChar s of
                      Inl e \<Rightarrow> Inl e
                    | Inr (c, s) \<Rightarrow>
                        if c = CHR ''}'' then Inr (JObject (object_put name v value), s)
                        else if c \<noteq> CHR '','' then Inl UnableToParse
                        else case readNonWsChar s of
                          Inl e \<Rightarrow> Inl e
                        | Inr (c, s) \<Rightarrow> readObject to_real n c (object_put name v value) s)))"

text \<open>Text after the value is not looked at.\<close>

definition fromString :: "(string \<Rightarrow> 'r) \<Rightarrow> string \<Rightarrow> json_exn + 'r json" where
  "fromString to_real source =
     (case json_read to_real (2 * length source + 1) source of Inl e \<Rightarrow> Inl e | Inr (v, _) \<Rightarrow> Inr v)"

section \<open>Characters and words\<close>

lemma readChar_not_space: "readChar s = Inr (c, s') \<Longrightarrow> \<not> isspace c"
proof -
  assume "readChar s = Inr (c, s')"
  then have "dropWhile isspace s = c # s'" by (simp add: readChar_def split: list.splits)
  then show ?thesis using hd_dropWhile [of isspace s] by simp
qed

lemma readNonWsChar_eq [simp]: "readNonWsChar s = readChar s"
  by (subst readNonWsChar.simps) (auto split: sum.splits dest: readChar_not_space)

lemma readChar_Cons [simp]: "\<not> isspace c \<Longrightarrow> readChar (c # s) = Inr (c, s)"
  by (simp add: readChar_def)

lemma readChar_space [simp]: "isspace c \<Longrightarrow> readChar (c # s) = readChar s"
  by (simp add: readChar_def)

lemma punctuation [simp]:
  "\<not> isspace quote" "\<not> isspace backslash" "\<not> isspace (CHR '','')" "\<not> isspace (CHR '']'')" "\<not> isspace (CHR ''['')"
  "\<not> isspace (CHR '':'')" "\<not> isspace (CHR ''{'')" "\<not> isspace (CHR ''}'')" "\<not> isspace (CHR ''t'')" "\<not> isspace (CHR ''f'')"
  "\<not> isspace (CHR ''n'')" "\<not> isspace (CHR ''-'')"
  "\<not> isdigit quote" "\<not> isdigit (CHR ''['')" "\<not> isdigit (CHR ''{'')" "\<not> isdigit (CHR ''n'')" "\<not> isdigit (CHR '','')"
  "\<not> isdigit (CHR '']'')" "\<not> isdigit (CHR ''}'')" "\<not> isdigit (CHR ''t'')" "\<not> isdigit (CHR ''f'')" "\<not> isdigit (CHR ''-'')"
  by (simp_all add: isspace_def isdigit_def)

section \<open>Every read uses up input\<close>

lemma readStringToken_shorter: "readStringToken acc s = Inr (v, s') \<Longrightarrow> length s' < length s"
proof (induction "length s" arbitrary: acc s rule: less_induct)
  case less
  obtain c s1 where c: "readChar s = Inr (c, s1)" using less.prems by (subst (asm) readStringToken.simps) (auto split: sum.splits)
  note 1 = readChar_shorter [OF c]
  show ?case
  proof (cases "c = backslash")
    case True
    obtain c' s2 where c': "readChar s1 = Inr (c', s2)"
      using less.prems c True by (subst (asm) readStringToken.simps) (auto split: sum.splits)
    then have "readStringToken (acc @ [c, c']) s2 = Inr (v, s')"
      using less.prems c True by (subst (asm) readStringToken.simps) auto
    from less.hyps [OF _ this] show ?thesis using 1 readChar_shorter [OF c'] by simp
  next
    case False
    show ?thesis
    proof (cases "c = quote")
      case True
      then show ?thesis using less.prems c 1 by (subst (asm) readStringToken.simps) auto
    next
      case q: False
      then have "readStringToken (acc @ [c]) s1 = Inr (v, s')"
        using less.prems c False by (subst (asm) readStringToken.simps) auto
      from less.hyps [OF _ this] show ?thesis using 1 by simp
    qed
  qed
qed

lemma read_exponent_shorter: "read_exponent s = Inr (v, s') \<Longrightarrow> length s' \<le> length s"
  using length_dropWhile_le [of isdigit]
  by (auto simp: read_exponent_def Let_def split: list.splits if_splits intro: le_SucI order_trans)

lemma readNumber_shorter: "readNumber to_real c s = Inr (v, s') \<Longrightarrow> length s' \<le> length s"
  using length_dropWhile_le [of "\<lambda>c. isdigit c \<or> c = CHR ''.''" s]
  by (auto simp: readNumber_def Let_def split: if_splits sum.splits dest!: read_exponent_shorter)

lemma readWord_shorter: "readWord w v s = Inr (v', s') \<Longrightarrow> length s' \<le> length s"
  by (auto simp: readWord_def split: if_splits)

lemmas shorter = readChar_shorter readStringToken_shorter readNumber_shorter readWord_shorter

lemma json_read_shorter:
  "(\<forall>s v s'. json_read to_real n s = Inr (v, s') \<longrightarrow> length s' < length s)
   \<and> (\<forall>acc s v s'. readArray to_real n acc s = Inr (v, s') \<longrightarrow> length s' < length s)
   \<and> (\<forall>c entries s v s'. readObject to_real n c entries s = Inr (v, s') \<longrightarrow> length s' < length s)"
proof (induction n)
  case (Suc n)
  note IH = Suc [THEN conjunct1, rule_format] Suc [THEN conjunct2, THEN conjunct1, rule_format]
    Suc [THEN conjunct2, THEN conjunct2, rule_format]
  have "length s' < length s" if run: "json_read to_real (Suc n) s = Inr (v, s')" for s v s'
  proof -
    obtain c s1 where c: "readChar s = Inr (c, s1)" using run by (auto split: sum.splits)
    have "length s' \<le> length s1"
      using run c by (auto split: sum.splits if_splits dest!: shorter IH(2,3))
    then show ?thesis using readChar_shorter [OF c] by simp
  qed
  moreover have "length s' < length s" if "readArray to_real (Suc n) acc s = Inr (v, s')" for acc s v s'
    using that by (auto split: sum.splits if_splits dest!: IH(1,2) shorter(1))
  moreover have "length s' < length s" if "readObject to_real (Suc n) c entries s = Inr (v, s')" for c entries s v s'
    using that by (auto split: sum.splits if_splits dest!: IH(1,3) shorter(1,2))
  ultimately show ?case by blast
qed simp

text \<open>The bound on the calls that \<open>fromString\<close> starts with is always enough.\<close>

lemma readNumber_fuel: "readNumber to_real c s \<noteq> Inl OutOfFuel"
  by (auto simp: readNumber_def read_exponent_def Let_def split: sum.splits list.splits)

lemma readChar_fuel: "readChar s \<noteq> Inl OutOfFuel"
  by (simp add: readChar_def split: list.splits)

lemma readStringToken_fuel: "readStringToken acc s \<noteq> Inl OutOfFuel"
proof (induction "length s" arbitrary: acc s rule: less_induct)
  case less
  then show ?case
    using readChar_fuel
    by (subst readStringToken.simps) (auto split: sum.splits dest!: readChar_shorter)
qed

lemma json_read_fuel:
  "(\<forall>s. 2 * length s < n \<longrightarrow> json_read to_real n s \<noteq> Inl OutOfFuel)
   \<and> (\<forall>acc s. 2 * length s + 1 < n \<longrightarrow> readArray to_real n acc s \<noteq> Inl OutOfFuel)
   \<and> (\<forall>c entries s. 2 * length s + 1 < n \<longrightarrow> readObject to_real n c entries s \<noteq> Inl OutOfFuel)"
proof (induction n)
  case (Suc n)
  note IH = Suc [THEN conjunct1, rule_format] Suc [THEN conjunct2, THEN conjunct1, rule_format]
    Suc [THEN conjunct2, THEN conjunct2, rule_format]
  note short = json_read_shorter [THEN conjunct1, rule_format] readChar_shorter readStringToken_shorter
  have "json_read to_real (Suc n) s \<noteq> Inl OutOfFuel" if "2 * length s < Suc n" for s
  proof (cases "readChar s")
    case (Inr x)
    obtain c s1 where x: "x = (c, s1)" by (cases x)
    have 1: "length s1 < length s" using Inr by (auto simp: x dest: readChar_shorter)
    have next_ok: "readArray to_real n [] (c' # s2) \<noteq> Inl OutOfFuel" "readObject to_real n c' [] s2 \<noteq> Inl OutOfFuel"
      if "readChar s1 = Inr (c', s2)" for c' s2
      using IH(2) [of "c' # s2" "[]"] IH(3) [of s2 c' "[]"] readChar_shorter [OF that] 1 \<open>2 * length s < Suc n\<close> by simp_all
    show ?thesis
    proof (cases "readChar s1")
      case Inl1: (Inl e)
      then show ?thesis
        using Inr readChar_fuel [of s1] readNumber_fuel [of to_real c s1] readStringToken_fuel [of "[]" s1]
        by (cases "readStringToken [] s1") (auto simp: x readWord_def)
    next
      case Inr1: (Inr y)
      obtain c' s2 where y: "y = (c', s2)" by (cases y)
      show ?thesis
        using Inr Inr1 next_ok [OF Inr1 [unfolded y]] readNumber_fuel [of to_real c s1] readStringToken_fuel [of "[]" s1]
        by (cases "readStringToken [] s1") (auto simp: x y readWord_def)
    qed
  qed (use readChar_fuel [of s] in simp)
  moreover have "readArray to_real (Suc n) acc s \<noteq> Inl OutOfFuel" if len: "2 * length s + 1 < Suc n" for acc s
  proof (cases "json_read to_real n s")
    case (Inr x)
    obtain v s1 where x: "x = (v, s1)" by (cases x)
    show ?thesis
    proof (cases "readChar s1")
      case Inr1: (Inr y)
      obtain c s2 where y: "y = (c, s2)" by (cases y)
      have "readArray to_real n (acc @ [v]) s2 \<noteq> Inl OutOfFuel"
        using IH(2) [of s2 "acc @ [v]"] short(1) [OF Inr [unfolded x]] readChar_shorter [OF Inr1 [unfolded y]] len by simp
      then show ?thesis using Inr Inr1 by (simp add: x y)
    qed (use Inr readChar_fuel [of s1] in \<open>simp add: x\<close>)
  qed (use IH(1) [of s] len in simp)
  moreover have "readObject to_real (Suc n) c entries s \<noteq> Inl OutOfFuel" if len: "2 * length s + 1 < Suc n" for c entries s
  proof (cases "readStringToken [] s")
    case (Inr x)
    obtain name s1 where x: "x = (name, s1)" by (cases x)
    have 1: "length s1 < length s" using short(3) [OF Inr [unfolded x]] .
    show ?thesis
    proof (cases "readChar s1")
      case Inr1: (Inr y)
      obtain c1 s2 where y: "y = (c1, s2)" by (cases y)
      have 2: "length s2 < length s1" by (rule readChar_shorter [OF Inr1 [unfolded y]])
      show ?thesis
      proof (cases "json_read to_real n s2")
        case Inr2: (Inr z)
        obtain v s3 where z: "z = (v, s3)" by (cases z)
        have 3: "length s3 < length s2" by (rule short(1) [OF Inr2 [unfolded z]])
        show ?thesis
        proof (cases "readChar s3")
          case Inr3: (Inr w)
          obtain c2 s4 where w: "w = (c2, s4)" by (cases w)
          have 4: "length s4 < length s3" by (rule readChar_shorter [OF Inr3 [unfolded w]])
          show ?thesis
          proof (cases "readChar s4")
            case Inr4: (Inr u)
            obtain c3 s5 where u: "u = (c3, s5)" by (cases u)
            have "length s5 < length s4" by (rule readChar_shorter [OF Inr4 [unfolded u]])
            then have "readObject to_real n c3 (object_put name v entries) s5 \<noteq> Inl OutOfFuel"
              using IH(3) [of s5 c3 "object_put name v entries"] 1 2 3 4 len by simp
            then show ?thesis using Inr Inr1 Inr2 Inr3 Inr4 by (simp add: x y z w u)
          qed (use Inr Inr1 Inr2 Inr3 readChar_fuel [of s4] in \<open>simp add: x y z w\<close>)
        qed (use Inr Inr1 Inr2 readChar_fuel [of s3] in \<open>simp add: x y z\<close>)
      qed (use Inr Inr1 IH(1) [of s2] 1 2 len in \<open>simp add: x y\<close>)
    qed (use Inr readChar_fuel [of s1] in \<open>simp add: x\<close>)
  qed (use readStringToken_fuel [of "[]" s] in simp)
  ultimately show ?case by blast
qed simp

section \<open>Reading what was written\<close>

text \<open>A string the reader gives back: no white space, no bare quote, and every backslash followed by another character.\<close>

fun token_ok :: "string \<Rightarrow> bool" where
  "token_ok [] = True"
| "token_ok (c # s) =
     (\<not> isspace c \<and> c \<noteq> quote \<and>
      (if c = backslash then (case s of [] \<Rightarrow> False | c' # s \<Rightarrow> \<not> isspace c' \<and> token_ok s) else token_ok s))"

fun json_ok :: "'r json \<Rightarrow> bool" where
  "json_ok (JArray vs) = list_all json_ok vs"
| "json_ok (JObject m) = (sorted_wrt (<) (map fst m) \<and> list_all (\<lambda>(k, v). token_ok k \<and> json_ok v) m)"
| "json_ok (JReal _) = False"
| "json_ok (JString s) = token_ok s"
| "json_ok (JBool _) = True"
| "json_ok (JInteger _) = True"
| "json_ok JNil = True"

lemma token_read: "token_ok s \<Longrightarrow> readStringToken acc (s @ quote # rest) = Inr (acc @ s, rest)"
proof (induction s arbitrary: acc rule: token_ok.induct)
  case 1
  then show ?case by (subst readStringToken.simps) simp
next
  case (2 c s)
  show ?case
  proof (cases "c = backslash")
    case True
    then obtain c' s' where s: "s = c' # s'" "\<not> isspace c'" "token_ok s'" using 2(3) by (auto split: list.splits)
    then show ?thesis using True 2(1) [of c' s' "acc @ [c, c']"] by (subst readStringToken.simps) simp
  next
    case False
    then show ?thesis using 2(2) [of "acc @ [c]"] 2(3) by (subst readStringToken.simps) simp
  qed
qed

lemma to_string_head: "0 < n \<Longrightarrow> hd (to_string n) \<noteq> CHR ''0''"
proof (induction n rule: to_string.induct)
  case (1 n)
  have "digit_char n \<noteq> CHR ''0''" if "n < 10"
    using 1(2) that of_char_digit [OF that] by auto
  then show ?case using 1 to_string_sound [of "n div 10"] by (subst to_string.simps) (auto simp: hd_append)
qed

definition stops :: "string \<Rightarrow> bool" where
  "stops rest \<longleftrightarrow> rest = [] \<or> \<not> (isdigit (hd rest) \<or> hd rest = CHR ''.'')"

lemma digits_taken:
  assumes "list_all isdigit ds" and "stops rest"
  shows "takeWhile (\<lambda>c. isdigit c \<or> c = CHR ''.'') (ds @ rest) = ds"
    and "dropWhile (\<lambda>c. isdigit c \<or> c = CHR ''.'') (ds @ rest) = rest"
    and "filter (\<lambda>c. c = CHR ''.'') ds = []"
proof -
  show "takeWhile (\<lambda>c. isdigit c \<or> c = CHR ''.'') (ds @ rest) = ds"
    and "dropWhile (\<lambda>c. isdigit c \<or> c = CHR ''.'') (ds @ rest) = rest"
    using assms by (induction ds; cases rest; simp add: stops_def)+
  show "filter (\<lambda>c. c = CHR ''.'') ds = []"
    using assms(1) by (auto simp: filter_empty_conv list_all_iff dest: isdigit_not_point)
qed

lemma integer_read:
  assumes "stops rest"
  shows "\<exists>c ds. integer_text i = c # ds \<and> (c = CHR ''-'' \<or> isdigit c) \<and> readNumber to_real c (ds @ rest) = Inr (JInteger i, rest)"
proof (cases "sint i < 0")
  case True
  define n where "n = nat (- sint i)"
  have n: "0 < n" "n \<le> 2 ^ 63" using True sint_ge [of i] by (auto simp: n_def)
  have s: "digits_value (to_string n) = n" "list_all isdigit (to_string n)" "to_string n \<noteq> []" using to_string_sound by blast+
  have "- of_nat n = (of_int (sint i) :: u64)" using True by (simp add: n_def)
  then have "- of_nat n = i" by simp
  moreover have "to_string n ! 0 \<noteq> CHR ''0''" using to_string_head [OF n(1)] s(3) by (simp add: hd_conv_nth)
  ultimately have "readNumber to_real (CHR ''-'') (to_string n @ rest) = Inr (JInteger i, rest)"
    using n(2) s by (simp add: readNumber_def digits_taken [OF s(2) assms] Let_def to_integer_def)
  then show ?thesis using True by (auto simp: integer_text_def n_def)
next
  case False
  define n where "n = nat (sint i)"
  have n: "n < 2 ^ 63" using False sint_lt [of i] by (auto simp: n_def)
  have s: "digits_value (to_string n) = n" "list_all isdigit (to_string n)" "to_string n \<noteq> []" using to_string_sound by blast+
  obtain c ds where cs: "to_string n = c # ds" using s(3) by (cases "to_string n") auto
  have c: "isdigit c" "list_all isdigit ds" using s(2) by (simp_all add: cs)
  have "of_nat n = (of_int (sint i) :: u64)" using False by (simp add: n_def)
  then have "of_nat n = i" by simp
  moreover have "ds = [] \<or> c \<noteq> CHR ''0''"
  proof (cases "n = 0")
    case True
    then show ?thesis using cs by (simp add: to_string.simps)
  qed (use to_string_head [of n] cs in simp)
  moreover have "c \<noteq> CHR ''-''" using c(1) by (auto simp: isdigit_def)
  ultimately have "readNumber to_real c (ds @ rest) = Inr (JInteger i, rest)"
    using n s(1) by (auto simp: readNumber_def digits_taken [OF c(2) assms] Let_def to_integer_def cs)
  then show ?thesis using False c(1) cs by (auto simp: integer_text_def n_def)
qed

lemma json_text_head:
  assumes "json_ok v"
  shows "\<exists>c s. json_text fixed v = c # s \<and> \<not> isspace c \<and> c \<noteq> CHR '']''"
proof (cases v)
  case (JInteger i)
  obtain c ds where "integer_text i = c # ds" "c = CHR ''-'' \<or> isdigit c"
    using integer_read [of "[]" i "\<lambda>_. undefined"] by (auto simp: stops_def)
  then show ?thesis using JInteger by (auto dest: isdigit_not_space)
qed (use assms in auto)

lemma object_put_last: "\<forall>k' \<in> set (map fst m). k' < k \<Longrightarrow> object_put k v m = m @ [(k, v)]"
  by (induction m) auto

text \<open>The statement for one value, and from it the loops over the elements and the entries.\<close>

definition reads_back :: "(string \<Rightarrow> 'r) \<Rightarrow> ('r \<Rightarrow> string) \<Rightarrow> 'r json \<Rightarrow> bool" where
  "reads_back to_real fixed v \<longleftrightarrow>
     (\<forall>n rest. stops rest \<longrightarrow> 2 * length (json_text fixed v @ rest) < n \<longrightarrow>
        json_read to_real n (json_text fixed v @ rest) = Inr (v, rest))"

lemma reads_backD:
  "reads_back to_real fixed v \<Longrightarrow> stops rest \<Longrightarrow> 2 * length (json_text fixed v) + 2 * length rest < n \<Longrightarrow>
   json_read to_real n (json_text fixed v @ rest) = Inr (v, rest)"
  by (simp add: reads_back_def)

lemma stops_punctuation [simp]: "stops (CHR '','' # s)" "stops (CHR '']'' # s)" "stops (CHR ''}'' # s)" "stops []"
  by (simp_all add: stops_def)

lemma array_read:
  assumes "\<forall>v \<in> set (v # vs). reads_back to_real fixed v"
    and "2 * length (with_commas (map (json_text fixed) (v # vs))) + 2 * length rest + 3 < n"
  shows "readArray to_real n acc (with_commas (map (json_text fixed) (v # vs)) @ CHR '']'' # rest) = Inr (JArray (acc @ v # vs), rest)"
  using assms
proof (induction vs arbitrary: v acc n)
  case Nil
  obtain m where n: "n = Suc m" using Nil.prems(2) by (cases n) auto
  have "json_read to_real m (json_text fixed v @ CHR '']'' # rest) = Inr (v, CHR '']'' # rest)"
    using Nil.prems by (intro reads_backD) (auto simp: n)
  then show ?case by (simp add: n)
next
  case (Cons w vs)
  obtain m where n: "n = Suc m" using Cons.prems(2) by (cases n) auto
  let ?tail = "with_commas (map (json_text fixed) (w # vs)) @ CHR '']'' # rest"
  have "json_read to_real m (json_text fixed v @ CHR '','' # ?tail) = Inr (v, CHR '','' # ?tail)"
    using Cons.prems by (intro reads_backD) (auto simp: n)
  moreover have "readArray to_real m (acc @ [v]) ?tail = Inr (JArray ((acc @ [v]) @ w # vs), rest)"
    using Cons.prems by (intro Cons.IH) (auto simp: n)
  ultimately show ?case by (simp add: n)
qed

definition entry_text :: "('r \<Rightarrow> string) \<Rightarrow> string \<times> 'r json \<Rightarrow> string" where
  "entry_text fixed = (\<lambda>(k, v). quote # k @ quote # '':'' @ json_text fixed v)"

lemma object_read:
  assumes "\<forall>e \<in> set (e # m). token_ok (fst e) \<and> reads_back to_real fixed (snd e)"
    and "sorted_wrt (<) (map fst (acc @ e # m))"
    and "2 * length (with_commas (map (entry_text fixed) (e # m))) + 2 * length rest + 3 < n"
  shows "readObject to_real n quote acc (tl (with_commas (map (entry_text fixed) (e # m)) @ CHR ''}'' # rest))
    = Inr (JObject (acc @ e # m), rest)"
  using assms
proof (induction m arbitrary: e acc n)
  case Nil
  obtain k v where e: "e = (k, v)" by (cases e)
  obtain j where n: "n = Suc j" using Nil.prems(3) by (cases n) auto
  have "readStringToken [] (k @ quote # '':'' @ json_text fixed v @ CHR ''}'' # rest) = Inr (k, '':'' @ json_text fixed v @ CHR ''}'' # rest)"
    using token_read [of k "[]"] Nil.prems(1) by (simp add: e)
  moreover have "json_read to_real j (json_text fixed v @ CHR ''}'' # rest) = Inr (v, CHR ''}'' # rest)"
    using Nil.prems by (intro reads_backD) (auto simp: n e entry_text_def)
  moreover have "object_put k v acc = acc @ [(k, v)]"
    using Nil.prems(2) by (intro object_put_last) (auto simp: e sorted_wrt_append)
  ultimately show ?case by (simp add: n e entry_text_def)
next
  case (Cons e' m)
  obtain k v where e: "e = (k, v)" by (cases e)
  obtain k' v' where e': "e' = (k', v')" by (cases e')
  obtain j where n: "n = Suc j" using Cons.prems(3) by (cases n) auto
  let ?next = "with_commas (map (entry_text fixed) (e' # m)) @ CHR ''}'' # rest"
  have "readStringToken [] (k @ quote # '':'' @ json_text fixed v @ CHR '','' # ?next) = Inr (k, '':'' @ json_text fixed v @ CHR '','' # ?next)"
    using token_read [of k "[]"] Cons.prems(1) by (simp add: e)
  moreover have "json_read to_real j (json_text fixed v @ CHR '','' # ?next) = Inr (v, CHR '','' # ?next)"
    using Cons.prems by (intro reads_backD) (auto simp: n e entry_text_def)
  moreover have "object_put k v acc = acc @ [(k, v)]"
    using Cons.prems(2) by (intro object_put_last) (auto simp: e sorted_wrt_append)
  moreover have "readChar ?next = Inr (quote, tl ?next)" by (simp add: e' entry_text_def)
  moreover have "readObject to_real j quote (acc @ [(k, v)]) (tl ?next) = Inr (JObject ((acc @ [(k, v)]) @ e' # m), rest)"
    using Cons.prems by (intro Cons.IH) (auto simp: n e)
  ultimately show ?case by (simp add: n e entry_text_def)
qed

lemma json_reads_back: "json_ok v \<Longrightarrow> reads_back to_real fixed v"
proof (induction v)
  case (JArray vs)
  show ?case unfolding reads_back_def
  proof (intro allI impI)
    fix n rest
    assume rest: "stops rest" and len: "2 * length (json_text fixed (JArray vs) @ rest) < n"
    obtain m where n: "n = Suc m" using len by (cases n) auto
    show "json_read to_real n (json_text fixed (JArray vs) @ rest) = Inr (JArray vs, rest)"
    proof (cases vs)
      case Nil
      then show ?thesis by (simp add: n)
    next
      case (Cons w ws)
      let ?body = "with_commas (map (json_text fixed) (w # ws)) @ CHR '']'' # rest"
      obtain c s where head: "json_text fixed w = c # s" "\<not> isspace c" "c \<noteq> CHR '']''"
        using json_text_head [of w fixed] JArray.prems by (auto simp: Cons)
      have "readArray to_real m [] ?body = Inr (JArray ([] @ w # ws), rest)"
        using JArray len by (intro array_read) (auto simp: Cons n list_all_iff)
      moreover have "readChar ?body = Inr (c, tl ?body)" "c # tl ?body = ?body" using head by simp_all
      ultimately show ?thesis using head(3) by (simp add: Cons n)
    qed
  qed
next
  case (JObject m)
  show ?case unfolding reads_back_def
  proof (intro allI impI)
    fix n rest
    assume rest: "stops rest" and len: "2 * length (json_text fixed (JObject m) @ rest) < n"
    have entries: "map (\<lambda>(k, v). quote # k @ quote # '':'' @ json_text fixed v) m = map (entry_text fixed) m"
      by (simp add: entry_text_def)
    obtain j where n: "n = Suc j" using len by (cases n) auto
    show "json_read to_real n (json_text fixed (JObject m) @ rest) = Inr (JObject m, rest)"
    proof (cases m)
      case Nil
      then show ?thesis by (simp add: n)
    next
      case (Cons e es)
      let ?body = "with_commas (map (entry_text fixed) (e # es)) @ CHR ''}'' # rest"
      have "\<forall>x \<in> set (e # es). token_ok (fst x) \<and> reads_back to_real fixed (snd x)"
        using JObject by (fastforce simp: Cons list_all_iff)
      then have "readObject to_real j quote [] (tl ?body) = Inr (JObject ([] @ e # es), rest)"
        using JObject.prems len by (intro object_read) (auto simp: n entry_text_def Cons)
      moreover have "readChar ?body = Inr (quote, tl ?body)" by (cases e) (simp add: entry_text_def)
      ultimately show ?thesis unfolding json_text.simps entries by (simp add: Cons n)
    qed
  qed
next
  case (JInteger i)
  show ?case unfolding reads_back_def
  proof (intro allI impI)
    fix n rest
    assume rest: "stops rest" and len: "2 * length (json_text fixed (JInteger i) @ rest) < n"
    obtain m where n: "n = Suc m" using len by (cases n) auto
    obtain c ds where i: "integer_text i = c # ds" "c = CHR ''-'' \<or> isdigit c"
      "readNumber to_real c (ds @ rest) = Inr (JInteger i, rest)"
      using integer_read [OF rest] by blast
    then have "\<not> isspace c" by (auto dest: isdigit_not_space)
    moreover have "c \<noteq> CHR ''['' \<and> c \<noteq> CHR ''t'' \<and> c \<noteq> CHR ''f''" using i(2) by (auto simp: isdigit_def)
    ultimately show "json_read to_real n (json_text fixed (JInteger i) @ rest) = Inr (JInteger i, rest)"
      using i by (auto simp: n)
  qed
next
  case (JString s)
  then have "readStringToken [] (s @ quote # rest) = Inr (s, rest)" for rest using token_read [of s "[]"] by simp
  then show ?case unfolding reads_back_def by (auto simp: gr0_conv_Suc dest!: less_imp_Suc_add)
next
  case (JBool b)
  show ?case unfolding reads_back_def
  proof (intro allI impI)
    fix n rest
    assume "2 * length (json_text fixed (JBool b) @ rest) < n"
    then obtain m where n: "n = Suc m" by (cases n) auto
    show "json_read to_real n (json_text fixed (JBool b) @ rest) = Inr (JBool b, rest)"
      by (simp add: n readWord_def)
  qed
next
  case JNil
  show ?case unfolding reads_back_def
  proof (intro allI impI)
    fix n rest
    assume "2 * length (json_text fixed JNil @ rest) < n"
    then obtain m where n: "n = Suc m" by (cases n) auto
    show "json_read to_real n (json_text fixed JNil @ rest) = Inr (JNil, rest)"
      by (simp add: n readWord_def)
  qed
qed simp

section \<open>Properties\<close>

text \<open>
  C37: a value without reals, whose strings and keys hold neither white space nor unpaired quotes and backslashes, is
  read back from the text written for it, integers of every size and nested arrays and objects included.
\<close>

theorem json_roundtrip:
  assumes "json_ok v"
  shows "fromString to_real (json_text fixed v) = Inr v"
  using reads_backD [OF json_reads_back [OF assms], of "[]" fixed "2 * length (json_text fixed v) + 1" to_real]
  by (simp add: fromString_def stops_def)

theorem json_roundtrip_witness:
  "fromString (\<lambda>_. ()) (json_text (\<lambda>_. []) (JObject [(''a'', JArray [JInteger (- 5), JNil]), (''b'', JString ''x'')]))
    = Inr (JObject [(''a'', JArray [JInteger (- 5), JNil]), (''b'', JString ''x'')])"
  using json_roundtrip [of "JObject [(''a'', JArray [JInteger (- 5), JNil]), (''b'', JString ''x'')]"]
  by (simp add: isspace_def)

text \<open>
  C38: the reader takes every character of a string with \<open>operator>>\<close>, which skips white space, so that a string is read
  back without its spaces, tabs and line ends.
\<close>

theorem json_spaces_lost:
  assumes "list_all (\<lambda>c. c \<noteq> quote \<and> c \<noteq> backslash) s"
  shows "fromString to_real (json_text fixed (JString s)) = Inr (JString (filter (\<lambda>c. \<not> isspace c) s))"
proof -
  have "readStringToken acc (s @ quote # rest) = Inr (acc @ filter (\<lambda>c. \<not> isspace c) s, rest)" for acc rest
    using assms
  proof (induction s arbitrary: acc)
    case Nil
    then show ?case by (subst readStringToken.simps) simp
  next
    case (Cons c s)
    show ?case
    proof (cases "isspace c")
      case True
      then have "readStringToken acc ((c # s) @ quote # rest) = readStringToken acc (s @ quote # rest)"
        by (subst (1 2) readStringToken.simps) simp
      then show ?thesis using Cons True by simp
    next
      case False
      then have "readStringToken acc ((c # s) @ quote # rest) = readStringToken (acc @ [c]) (s @ quote # rest)"
        using Cons.prems by (subst readStringToken.simps) simp
      then show ?thesis using Cons False by simp
    qed
  qed
  from this [of "[]" "[]"] show ?thesis by (simp add: fromString_def)
qed

theorem json_spaces_lost_witness:
  "fromString (\<lambda>_. ()) (json_text (\<lambda>_. []) (JString ''two words'')) = Inr (JString ''twowords'')"
  using json_spaces_lost [of "''two words''"] by (simp add: isspace_def)

end
