(* ===== verification/KvBinary.thy ===== *)
theory KvBinary
  imports Json
begin

text \<open>
  The binary key-value format of the network messages (\<open>serialization/KVBinaryOutputStreamSerializer.cpp\<close>,
  \<open>KVBinaryInputStreamSerializer.cpp\<close>, \<open>JsonInputValueSerializer.cpp\<close>): the writer with its stack of open objects and
  arrays, the parser into a JSON value, and the reader of the members of that value. The functional form of the format
  is \<open>kv_body\<close>; the writer refines it and the parser reads it back.

  A \<open>std::string\<close> is its bytes on the stream and a list of characters in a JSON value. A \<open>double\<close> is its 64 bits.
\<close>

section \<open>Definitions\<close>

definition to_chars :: "bytes \<Rightarrow> string" where
  "to_chars bs = map (\<lambda>b. char_of (unat b)) bs"

definition to_bytes :: "string \<Rightarrow> bytes" where
  "to_bytes s = map (\<lambda>c. of_nat (of_char c)) s"

text \<open>
  The exceptions. \<open>ShiftUndefined\<close> is a shift of an \<open>int\<close> by 32 bits or more, \<open>Overrun\<close> a copy past the end of its target,
  \<open>NotOpen\<close> the use of a stack that is empty; they have no defined behaviour in C++.
\<close>

datatype kv_exn =
    ReadFailed exn
  | JsonFailed json_exn
  | NameTooLong
  | SizeTooBig
  | BadSignature
  | UnknownVersion
  | UnknownDataType
  | BlockSizeMismatch
  | ObjectExpected
  | ShiftUndefined
  | Overrun
  | NotOpen
  | NoFuel

type_synonym 'a kv_reader = "bytes \<Rightarrow> kv_exn + 'a \<times> bytes"

abbreviation (input) "PORTABLE_STORAGE_SIGNATUREA \<equiv> 0x01011101 :: nat"
abbreviation (input) "PORTABLE_STORAGE_SIGNATUREB \<equiv> 0x01020101 :: nat"
abbreviation (input) "PORTABLE_STORAGE_FORMAT_VER \<equiv> 1 :: nat"

abbreviation (input) "BIN_KV_SERIALIZE_TYPE_INT64 \<equiv> 1 :: u8"
abbreviation (input) "BIN_KV_SERIALIZE_TYPE_INT32 \<equiv> 2 :: u8"
abbreviation (input) "BIN_KV_SERIALIZE_TYPE_INT16 \<equiv> 3 :: u8"
abbreviation (input) "BIN_KV_SERIALIZE_TYPE_INT8 \<equiv> 4 :: u8"
abbreviation (input) "BIN_KV_SERIALIZE_TYPE_UINT64 \<equiv> 5 :: u8"
abbreviation (input) "BIN_KV_SERIALIZE_TYPE_UINT32 \<equiv> 6 :: u8"
abbreviation (input) "BIN_KV_SERIALIZE_TYPE_UINT16 \<equiv> 7 :: u8"
abbreviation (input) "BIN_KV_SERIALIZE_TYPE_UINT8 \<equiv> 8 :: u8"
abbreviation (input) "BIN_KV_SERIALIZE_TYPE_DOUBLE \<equiv> 9 :: u8"
abbreviation (input) "BIN_KV_SERIALIZE_TYPE_STRING \<equiv> 10 :: u8"
abbreviation (input) "BIN_KV_SERIALIZE_TYPE_BOOL \<equiv> 11 :: u8"
abbreviation (input) "BIN_KV_SERIALIZE_TYPE_OBJECT \<equiv> 12 :: u8"
abbreviation (input) "BIN_KV_SERIALIZE_TYPE_ARRAY \<equiv> 13 :: u8"
abbreviation (input) "BIN_KV_SERIALIZE_FLAG_ARRAY \<equiv> 0x80 :: u8"

subsection \<open>Parsing\<close>

text \<open>\<open>readPod\<close> of an unsigned integer of \<open>k\<close> bytes.\<close>

definition readPod :: "nat \<Rightarrow> nat kv_reader" where
  "readPod k s = (case read_bytes k s of Inl e \<Rightarrow> Inl (ReadFailed e) | Inr (bs, s) \<Rightarrow> Inr (le_nat bs, s))"

text \<open>
  The bytes after the first of a size. The byte is shifted as an \<open>int\<close> and the result extended by its sign to the
  width of the size.
\<close>

fun varint_rest :: "nat \<Rightarrow> nat \<Rightarrow> u64 \<Rightarrow> u64 kv_reader" where
  "varint_rest 0 i v s = Inr (v, s)"
| "varint_rest (Suc bytesLeft) i v s =
     (case readPod 1 s of
        Inl e \<Rightarrow> Inl e
      | Inr (n, s) \<Rightarrow>
          if 4 \<le> i then Inl ShiftUndefined
          else varint_rest bytesLeft (i + 1) (v OR scast (push_bit (i * 8) (of_nat n :: u32))) s)"

definition kv_readVarint :: "u64 kv_reader" where
  "kv_readVarint s =
     (case readPod 1 s of
        Inl e \<Rightarrow> Inl e
      | Inr (b, s) \<Rightarrow>
          let size_mask = b mod 4;
              bytesLeft = (if size_mask = 0 then 0 else if size_mask = 1 then 1 else if size_mask = 2 then 3 else 7)
          in case varint_rest bytesLeft 1 (of_nat b) s of
               Inl e \<Rightarrow> Inl e
             | Inr (v, s) \<Rightarrow> Inr (drop_bit 2 v, s))"

definition kv_readString :: "string kv_reader" where
  "kv_readString s =
     (case kv_readVarint s of
        Inl e \<Rightarrow> Inl e
      | Inr (sz, s) \<Rightarrow>
          (case read_bytes (unat sz) s of Inl e \<Rightarrow> Inl (ReadFailed e) | Inr (bs, s) \<Rightarrow> Inr (to_chars bs, s)))"

text \<open>A name of length 0 leaves the variable with the name of the entry before.\<close>

definition readName :: "string \<Rightarrow> string kv_reader" where
  "readName name s =
     (case readPod 1 s of
        Inl e \<Rightarrow> Inl e
      | Inr (len, s) \<Rightarrow>
          if len = 0 then Inr (name, s)
          else case read_bytes len s of Inl e \<Rightarrow> Inl (ReadFailed e) | Inr (bs, s) \<Rightarrow> Inr (to_chars bs, s))"

definition readIntegerJson :: "nat \<Rightarrow> (nat \<Rightarrow> u64) \<Rightarrow> u64 json kv_reader" where
  "readIntegerJson k widen s = (case readPod k s of Inl e \<Rightarrow> Inl e | Inr (v, s) \<Rightarrow> Inr (JInteger (widen v), s))"

text \<open>
  The parser. Its functions call each other; here the others take the function that loads a nested value, and \<open>loadValue\<close>
  bounds the depth of the nesting by its first argument. Every level reads the byte of a size.
\<close>

fun array_loop :: "u64 json kv_reader \<Rightarrow> nat \<Rightarrow> u64 json list \<Rightarrow> u64 json kv_reader" where
  "array_loop load 0 arr s = Inr (JArray arr, s)"
| "array_loop load (Suc k) arr s =
     (case load s of Inl e \<Rightarrow> Inl e | Inr (v, s) \<Rightarrow> array_loop load k (arr @ [v]) s)"

definition loadArray :: "(u8 \<Rightarrow> u64 json kv_reader) \<Rightarrow> u8 \<Rightarrow> u64 json kv_reader" where
  "loadArray load itemType s =
     (case kv_readVarint s of Inl e \<Rightarrow> Inl e | Inr (sz, s) \<Rightarrow> array_loop (load itemType) (unat sz) [] s)"

definition loadEntry :: "(u8 \<Rightarrow> u64 json kv_reader) \<Rightarrow> u64 json kv_reader" where
  "loadEntry load s =
     (case readPod 1 s of
        Inl e \<Rightarrow> Inl e
      | Inr (t, s) \<Rightarrow>
          let type = of_nat t :: u8
          in if type AND BIN_KV_SERIALIZE_FLAG_ARRAY \<noteq> 0
             then loadArray load (type AND NOT BIN_KV_SERIALIZE_FLAG_ARRAY) s else load type s)"

text \<open>\<open>insert\<close> keeps the entry of a name that is already there.\<close>

definition object_insert :: "string \<Rightarrow> 'v \<Rightarrow> (string \<times> 'v) list \<Rightarrow> (string \<times> 'v) list" where
  "object_insert name v m = (case map_of m name of None \<Rightarrow> object_put name v m | Some _ \<Rightarrow> m)"

fun section_loop :: "u64 json kv_reader \<Rightarrow> nat \<Rightarrow> string \<Rightarrow> (string \<times> u64 json) list \<Rightarrow> u64 json kv_reader" where
  "section_loop entry 0 name sec s = Inr (JObject sec, s)"
| "section_loop entry (Suc k) name sec s =
     (case readName name s of
        Inl e \<Rightarrow> Inl e
      | Inr (name, s) \<Rightarrow>
          (case entry s of Inl e \<Rightarrow> Inl e | Inr (v, s) \<Rightarrow> section_loop entry k name (object_insert name v sec) s))"

definition loadSection :: "(u8 \<Rightarrow> u64 json kv_reader) \<Rightarrow> u64 json kv_reader" where
  "loadSection load s =
     (case kv_readVarint s of Inl e \<Rightarrow> Inl e | Inr (sz, s) \<Rightarrow> section_loop (loadEntry load) (unat sz) [] [] s)"

primrec loadValue :: "nat \<Rightarrow> u8 \<Rightarrow> u64 json kv_reader" where
  "loadValue 0 = (\<lambda>type s. Inl NoFuel)"
| "loadValue (Suc n) = (\<lambda>type s.
     if type = BIN_KV_SERIALIZE_TYPE_INT64 then readIntegerJson 8 of_nat s
     else if type = BIN_KV_SERIALIZE_TYPE_INT32 then readIntegerJson 4 (\<lambda>v. scast (of_nat v :: u32)) s
     else if type = BIN_KV_SERIALIZE_TYPE_INT16 then readIntegerJson 2 (\<lambda>v. scast (of_nat v :: u16)) s
     else if type = BIN_KV_SERIALIZE_TYPE_INT8 then readIntegerJson 1 (\<lambda>v. scast (of_nat v :: u8)) s
     else if type = BIN_KV_SERIALIZE_TYPE_UINT64 then readIntegerJson 8 of_nat s
     else if type = BIN_KV_SERIALIZE_TYPE_UINT32 then readIntegerJson 4 of_nat s
     else if type = BIN_KV_SERIALIZE_TYPE_UINT16 then readIntegerJson 2 of_nat s
     else if type = BIN_KV_SERIALIZE_TYPE_UINT8 then readIntegerJson 1 of_nat s
     else if type = BIN_KV_SERIALIZE_TYPE_DOUBLE then
       (case readPod 8 s of Inl e \<Rightarrow> Inl e | Inr (v, s) \<Rightarrow> Inr (JReal (of_nat v), s))
     else if type = BIN_KV_SERIALIZE_TYPE_BOOL then
       (case readPod 1 s of Inl e \<Rightarrow> Inl e | Inr (v, s) \<Rightarrow> Inr (JBool (v \<noteq> 0), s))
     else if type = BIN_KV_SERIALIZE_TYPE_STRING then
       (case kv_readString s of Inl e \<Rightarrow> Inl e | Inr (v, s) \<Rightarrow> Inr (JString v, s))
     else if type = BIN_KV_SERIALIZE_TYPE_OBJECT then loadSection (loadValue n) s
     else if type = BIN_KV_SERIALIZE_TYPE_ARRAY then loadArray (loadValue n) type s
     else Inl UnknownDataType)"

definition parseBinary :: "u64 json kv_reader" where
  "parseBinary s =
     (case readPod 4 s of
        Inl e \<Rightarrow> Inl e
      | Inr (a, s1) \<Rightarrow>
          (case readPod 4 s1 of
             Inl e \<Rightarrow> Inl e
           | Inr (b, s2) \<Rightarrow>
               (case readPod 1 s2 of
                  Inl e \<Rightarrow> Inl e
                | Inr (ver, s3) \<Rightarrow>
                    if a \<noteq> PORTABLE_STORAGE_SIGNATUREA \<or> b \<noteq> PORTABLE_STORAGE_SIGNATUREB then Inl BadSignature
                    else if ver \<noteq> PORTABLE_STORAGE_FORMAT_VER then Inl UnknownVersion
                    else loadSection (loadValue (length s3)) s3)))"

subsection \<open>Writing\<close>

datatype kv_level_state = InObject | InArrayPrefix | InArray

record kv_level =
  lv_state :: kv_level_state
  lv_name :: string
  lv_count :: nat

text \<open>Both stacks are kept with their top first.\<close>

record kv_out =
  m_objectsStack :: "bytes list"
  m_stack :: "kv_level list"

definition packVarint :: "nat \<Rightarrow> nat \<Rightarrow> nat \<Rightarrow> bytes" where
  "packVarint k type_or pv = nat_le k (push_bit 2 pv OR type_or)"

definition writeElementName :: "string \<Rightarrow> kv_exn + bytes" where
  "writeElementName name =
     (if 255 < length name then Inl NameTooLong else Inr (of_nat (length name) # to_bytes name))"

definition writeArraySize :: "nat \<Rightarrow> kv_exn + bytes" where
  "writeArraySize val =
     (if val \<le> 63 then Inr (packVarint 1 0 val)
      else if val \<le> 16383 then Inr (packVarint 2 1 val)
      else if val \<le> 1073741823 then Inr (packVarint 4 2 val)
      else if 4611686018427387903 < val then Inl SizeTooBig
      else Inr (packVarint 8 3 val))"

text \<open>\<open>stream().write\<close>\<close>

definition kv_append :: "bytes \<Rightarrow> kv_out \<Rightarrow> kv_exn + kv_out" where
  "kv_append bs st =
     (case m_objectsStack st of
        [] \<Rightarrow> Inl NotOpen
      | out # outs \<Rightarrow> Inr (st\<lparr>m_objectsStack := (out @ bs) # outs\<rparr>))"

definition checkArrayPreamble :: "u8 \<Rightarrow> kv_out \<Rightarrow> kv_exn + kv_out" where
  "checkArrayPreamble type st =
     (case m_stack st of
        [] \<Rightarrow> Inr st
      | level # levels \<Rightarrow>
          if lv_state level = InArrayPrefix then
            (case writeElementName (lv_name level) of
               Inl e \<Rightarrow> Inl e
             | Inr name \<Rightarrow>
                 (case writeArraySize (lv_count level) of
                    Inl e \<Rightarrow> Inl e
                  | Inr sz \<Rightarrow>
                      kv_append (name @ [BIN_KV_SERIALIZE_FLAG_ARRAY OR type] @ sz)
                        (st\<lparr>m_stack := level\<lparr>lv_state := InArray\<rparr> # levels\<rparr>)))
          else Inr st)"

definition count_member :: "kv_out \<Rightarrow> kv_out" where
  "count_member st =
     (case m_stack st of
        [] \<Rightarrow> st
      | level # levels \<Rightarrow> st\<lparr>m_stack := level\<lparr>lv_count := lv_count level + 1\<rparr> # levels\<rparr>)"

definition writeElementPrefix :: "u8 \<Rightarrow> string \<Rightarrow> kv_out \<Rightarrow> kv_exn + kv_out" where
  "writeElementPrefix type name st =
     (if m_stack st = [] then Inl NotOpen
      else case checkArrayPreamble type st of
        Inl e \<Rightarrow> Inl e
      | Inr st \<Rightarrow>
          if lv_state (hd (m_stack st)) = InArray then Inr st
          else if name = [] then Inr (count_member st)
          else case writeElementName name of
            Inl e \<Rightarrow> Inl e
          | Inr bs \<Rightarrow> (case kv_append (bs @ [type]) st of Inl e \<Rightarrow> Inl e | Inr st \<Rightarrow> Inr (count_member st)))"

definition out_beginObject :: "string \<Rightarrow> kv_out \<Rightarrow> kv_exn + kv_out" where
  "out_beginObject name st =
     (case checkArrayPreamble BIN_KV_SERIALIZE_TYPE_OBJECT st of
        Inl e \<Rightarrow> Inl e
      | Inr st \<Rightarrow>
          Inr \<lparr>m_objectsStack = [] # m_objectsStack st,
               m_stack = \<lparr>lv_state = InObject, lv_name = name, lv_count = 0\<rparr> # m_stack st\<rparr>)"

definition out_endObject :: "kv_out \<Rightarrow> kv_exn + kv_out" where
  "out_endObject st =
     (case (m_stack st, m_objectsStack st) of
        (level # levels, objStream # outs) \<Rightarrow>
          (case writeElementPrefix BIN_KV_SERIALIZE_TYPE_OBJECT (lv_name level)
                  (st\<lparr>m_stack := levels, m_objectsStack := outs\<rparr>) of
             Inl e \<Rightarrow> Inl e
           | Inr st \<Rightarrow>
               (case writeArraySize (lv_count level) of
                  Inl e \<Rightarrow> Inl e
                | Inr sz \<Rightarrow> kv_append (sz @ objStream) st))
      | _ \<Rightarrow> Inl NotOpen)"

definition out_beginArray :: "nat \<Rightarrow> string \<Rightarrow> kv_out \<Rightarrow> kv_out" where
  "out_beginArray sz name st =
     st\<lparr>m_stack := \<lparr>lv_state = InArrayPrefix, lv_name = name, lv_count = sz\<rparr> # m_stack st\<rparr>"

text \<open>An array in which nothing was written is not counted: its preamble never was written either.\<close>

definition out_endArray :: "kv_out \<Rightarrow> kv_exn + kv_out" where
  "out_endArray st =
     (case m_stack st of
        level # parent # levels \<Rightarrow>
          let st = st\<lparr>m_stack := parent # levels\<rparr>
          in Inr (if lv_state parent = InObject \<and> lv_state level = InArray then count_member st else st)
      | _ \<Rightarrow> Inl NotOpen)"

text \<open>The operators for the integers, \<open>bool\<close> and \<open>double\<close>: the type and the bytes of the value.\<close>

definition out_pod :: "u8 \<Rightarrow> bytes \<Rightarrow> string \<Rightarrow> kv_out \<Rightarrow> kv_exn + kv_out" where
  "out_pod type bs name st =
     (case writeElementPrefix type name st of Inl e \<Rightarrow> Inl e | Inr st \<Rightarrow> kv_append bs st)"

definition out_string :: "bytes \<Rightarrow> string \<Rightarrow> kv_out \<Rightarrow> kv_exn + kv_out" where
  "out_string bs name st =
     (case writeElementPrefix BIN_KV_SERIALIZE_TYPE_STRING name st of
        Inl e \<Rightarrow> Inl e
      | Inr st \<Rightarrow>
          (case writeArraySize (length bs) of Inl e \<Rightarrow> Inl e | Inr sz \<Rightarrow> kv_append (sz @ bs) st))"

definition out_binary :: "bytes \<Rightarrow> string \<Rightarrow> kv_out \<Rightarrow> kv_exn + kv_out" where
  "out_binary bs name st = (if 0 < length bs then out_string bs name st else Inr st)"

definition kv_out_new :: "kv_exn + kv_out" where
  "kv_out_new = out_beginObject [] \<lparr>m_objectsStack = [], m_stack = []\<rparr>"

definition kv_dump :: "kv_out \<Rightarrow> kv_exn + bytes" where
  "kv_dump st =
     (case (m_objectsStack st, m_stack st) of
        ([out], [level]) \<Rightarrow>
          (case writeArraySize (lv_count level) of
             Inl e \<Rightarrow> Inl e
           | Inr sz \<Rightarrow>
               Inr (nat_le 4 PORTABLE_STORAGE_SIGNATUREA @ nat_le 4 PORTABLE_STORAGE_SIGNATUREB
                 @ nat_le 1 PORTABLE_STORAGE_FORMAT_VER @ sz @ out))
      | _ \<Rightarrow> Inl NotOpen)"

subsection \<open>What is written\<close>

text \<open>
  A value as the overloads of \<open>serialize\<close> take it apart: the virtual operators of \<open>ISerializer\<close>, \<open>binary\<close>, a container and
  a structure with its members. \<open>kv_put\<close> is the sequence of calls they make.
\<close>

datatype kv =
    KU8 u8
  | KI16 u16
  | KU16 u16
  | KI32 u32
  | KU32 u32
  | KI64 u64
  | KU64 u64
  | KDouble u64
  | KBool bool
  | KString bytes
  | KBinary bytes
  | KArray "kv list"
  | KObject "(string \<times> kv) list"

fun kv_put :: "string \<Rightarrow> kv \<Rightarrow> kv_out \<Rightarrow> kv_exn + kv_out"
and put_items :: "kv list \<Rightarrow> kv_out \<Rightarrow> kv_exn + kv_out"
and put_members :: "(string \<times> kv) list \<Rightarrow> kv_out \<Rightarrow> kv_exn + kv_out" where
  "kv_put name (KU8 v) st = out_pod BIN_KV_SERIALIZE_TYPE_UINT8 (nat_le 1 (unat v)) name st"
| "kv_put name (KI16 v) st = out_pod BIN_KV_SERIALIZE_TYPE_INT16 (nat_le 2 (unat v)) name st"
| "kv_put name (KU16 v) st = out_pod BIN_KV_SERIALIZE_TYPE_UINT16 (nat_le 2 (unat v)) name st"
| "kv_put name (KI32 v) st = out_pod BIN_KV_SERIALIZE_TYPE_INT32 (nat_le 4 (unat v)) name st"
| "kv_put name (KU32 v) st = out_pod BIN_KV_SERIALIZE_TYPE_UINT32 (nat_le 4 (unat v)) name st"
| "kv_put name (KI64 v) st = out_pod BIN_KV_SERIALIZE_TYPE_INT64 (nat_le 8 (unat v)) name st"
| "kv_put name (KU64 v) st = out_pod BIN_KV_SERIALIZE_TYPE_UINT64 (nat_le 8 (unat v)) name st"
| "kv_put name (KDouble v) st = out_pod BIN_KV_SERIALIZE_TYPE_DOUBLE (nat_le 8 (unat v)) name st"
| "kv_put name (KBool b) st = out_pod BIN_KV_SERIALIZE_TYPE_BOOL [if b then 1 else 0] name st"
| "kv_put name (KString bs) st = out_string bs name st"
| "kv_put name (KBinary bs) st = out_binary bs name st"
| "kv_put name (KArray vs) st =
     (case put_items vs (out_beginArray (length vs) name st) of Inl e \<Rightarrow> Inl e | Inr st \<Rightarrow> out_endArray st)"
| "kv_put name (KObject ms) st =
     (case out_beginObject name st of
        Inl e \<Rightarrow> Inl e
      | Inr st \<Rightarrow> (case put_members ms st of Inl e \<Rightarrow> Inl e | Inr st \<Rightarrow> out_endObject st))"
| "put_items [] st = Inr st"
| "put_items (v # vs) st = (case kv_put [] v st of Inl e \<Rightarrow> Inl e | Inr st \<Rightarrow> put_items vs st)"
| "put_members [] st = Inr st"
| "put_members ((name, v) # ms) st = (case kv_put name v st of Inl e \<Rightarrow> Inl e | Inr st \<Rightarrow> put_members ms st)"

text \<open>\<open>LevinProtocol::encode\<close>: the members of a message, written by a new serializer.\<close>

definition kv_encode :: "(string \<times> kv) list \<Rightarrow> kv_exn + bytes" where
  "kv_encode ms =
     (case kv_out_new of
        Inl e \<Rightarrow> Inl e
      | Inr st \<Rightarrow> (case put_members ms st of Inl e \<Rightarrow> Inl e | Inr st \<Rightarrow> kv_dump st))"

subsection \<open>Reading the members\<close>

text \<open>
  \<open>JsonInputValueSerializer\<close>: the chain of the values entered and the positions in the arrays among them, both with the
  innermost first. A member that is absent leaves its variable as it is: every operation takes the value before it.
\<close>

record kv_in =
  chain :: "u64 json list"
  idxs :: "nat list"

type_synonym 'a in_op = "kv_in \<Rightarrow> kv_exn + 'a \<times> kv_in"

definition in_ret :: "'a \<Rightarrow> 'a in_op" where
  "in_ret x st = Inr (x, st)"

definition in_bind :: "'a in_op \<Rightarrow> ('a \<Rightarrow> 'b in_op) \<Rightarrow> 'b in_op" where
  "in_bind m f st = (case m st of Inl e \<Rightarrow> Inl e | Inr (x, st) \<Rightarrow> f x st)"

definition in_json :: "json_exn + 'a \<Rightarrow> 'a in_op" where
  "in_json r st = (case r of Inl e \<Rightarrow> Inl (JsonFailed e) | Inr x \<Rightarrow> Inr (x, st))"

definition kv_in_new :: "u64 json \<Rightarrow> kv_exn + kv_in" where
  "kv_in_new j = (case j of JObject _ \<Rightarrow> Inr \<lparr>chain = [j], idxs = []\<rparr> | _ \<Rightarrow> Inl ObjectExpected)"

text \<open>The next element of the array on top.\<close>

definition next_element :: "u64 json \<Rightarrow> u64 json in_op" where
  "next_element arr st =
     (case idxs st of
        [] \<Rightarrow> Inl NotOpen
      | i # is \<Rightarrow> in_json (json_at arr i) (st\<lparr>idxs := (i + 1) # is\<rparr>))"

definition getValue :: "string \<Rightarrow> u64 json option in_op" where
  "getValue name st =
     (case chain st of
        [] \<Rightarrow> Inl NotOpen
      | JArray vs # _ \<Rightarrow> in_bind (next_element (JArray vs)) (\<lambda>v. in_ret (Some v)) st
      | parent # _ \<Rightarrow>
          in_bind (in_json (json_contains parent name))
            (\<lambda>b. if b then in_bind (in_json (json_member parent name)) (\<lambda>v. in_ret (Some v)) else in_ret None) st)"

definition in_push :: "u64 json \<Rightarrow> unit in_op" where
  "in_push v st = Inr ((), st\<lparr>chain := v # chain st\<rparr>)"

definition in_beginObject :: "string \<Rightarrow> bool in_op" where
  "in_beginObject name =
     in_bind (getValue name) (\<lambda>v. case v of None \<Rightarrow> in_ret False | Some v \<Rightarrow> in_bind (in_push v) (\<lambda>_. in_ret True))"

definition in_endObject :: "unit in_op" where
  "in_endObject st = (case chain st of [] \<Rightarrow> Inl NotOpen | _ # vs \<Rightarrow> Inr ((), st\<lparr>chain := vs\<rparr>))"

text \<open>The size of the array, or that there is none.\<close>

definition in_beginArray :: "string \<Rightarrow> nat option in_op" where
  "in_beginArray name st =
     (case chain st of
        [] \<Rightarrow> Inl NotOpen
      | parent # _ \<Rightarrow>
          in_bind (in_json (json_contains parent name)) (\<lambda>b.
            if \<not> b then in_ret None
            else in_bind (in_json (json_member parent name)) (\<lambda>arr.
              in_bind (in_json (json_size arr)) (\<lambda>sz st.
                Inr (Some sz, st\<lparr>chain := arr # chain st, idxs := 0 # idxs st\<rparr>)))) st)"

definition in_endArray :: "unit in_op" where
  "in_endArray st =
     (case (chain st, idxs st) of
        (_ # vs, _ # is) \<Rightarrow> Inr ((), st\<lparr>chain := vs, idxs := is\<rparr>)
      | _ \<Rightarrow> Inl NotOpen)"

text \<open>\<open>getNumber\<close> for a type that \<open>narrow\<close> casts an \<open>int64_t\<close> to.\<close>

definition getNumber :: "(u64 \<Rightarrow> 'a) \<Rightarrow> string \<Rightarrow> 'a \<Rightarrow> 'a in_op" where
  "getNumber narrow name old =
     in_bind (getValue name) (\<lambda>v. case v of
       None \<Rightarrow> in_ret old
     | Some v \<Rightarrow> in_bind (in_json (getInteger v)) (\<lambda>i. in_ret (narrow i)))"

text \<open>The result of the operator tells whether the member is there.\<close>

definition in_string :: "string \<Rightarrow> bytes \<Rightarrow> (bool \<times> bytes) in_op" where
  "in_string name old =
     in_bind (getValue name) (\<lambda>v. case v of
       None \<Rightarrow> in_ret (False, old)
     | Some v \<Rightarrow> in_bind (in_json (getString v)) (\<lambda>s. in_ret (True, to_bytes s)))"

definition in_str :: "string \<Rightarrow> bytes \<Rightarrow> bytes in_op" where
  "in_str name old = in_bind (in_string name old) (\<lambda>(_, s). in_ret s)"

definition in_bool :: "string \<Rightarrow> bool \<Rightarrow> bool in_op" where
  "in_bool name old =
     in_bind (getValue name) (\<lambda>v. case v of None \<Rightarrow> in_ret old | Some v \<Rightarrow> in_json (getBool v))"

definition in_fail :: "kv_exn \<Rightarrow> 'a in_op" where
  "in_fail e st = Inl e"

text \<open>\<open>KVBinaryInputStreamSerializer::binary\<close> for a block of a fixed size.\<close>

definition in_block :: "nat \<Rightarrow> string \<Rightarrow> bytes \<Rightarrow> bytes in_op" where
  "in_block sz name old =
     in_bind (in_string name []) (\<lambda>(found, str).
       if \<not> found then in_ret old
       else if length str \<noteq> sz then in_fail BlockSizeMismatch
       else in_ret str)"

subsection \<open>Containers\<close>

text \<open>
  \<open>serializeAsBinary\<close> of a vector of structures of \<open>sz\<close> bytes: the vector gets as many elements as fit into the block and
  then the whole block is copied into it.
\<close>

fun blocks_of :: "nat \<Rightarrow> nat \<Rightarrow> bytes \<Rightarrow> bytes list" where
  "blocks_of sz 0 bs = []"
| "blocks_of sz (Suc n) bs = take sz bs # blocks_of sz n (drop sz bs)"

definition in_vector_binary :: "nat \<Rightarrow> string \<Rightarrow> bytes list in_op" where
  "in_vector_binary sz name =
     in_bind (in_string name []) (\<lambda>(_, blob).
       if (length blob div sz) * sz < length blob then in_fail Overrun
       else in_ret (blocks_of sz (length blob div sz) blob))"

text \<open>The same of a \<open>std::list\<close>, whose elements are copied one by one behind those it has.\<close>

definition in_list_binary :: "nat \<Rightarrow> string \<Rightarrow> bytes list \<Rightarrow> bytes list in_op" where
  "in_list_binary sz name old =
     in_bind (in_string name []) (\<lambda>(_, blob). in_ret (old @ blocks_of sz (length blob div sz) blob))"

definition out_list_binary :: "bytes list \<Rightarrow> kv" where
  "out_list_binary xs = KBinary (concat xs)"

text \<open>
  \<open>serializeContainer\<close>: the vector is resized, which keeps elements it has and fills up with \<open>dflt\<close>, and every element is
  read by the operator for it.
\<close>

fun in_items :: "('a \<Rightarrow> 'a in_op) \<Rightarrow> 'a list \<Rightarrow> 'a list in_op" where
  "in_items item [] = in_ret []"
| "in_items item (old # olds) = in_bind (item old) (\<lambda>v. in_bind (in_items item olds) (\<lambda>vs. in_ret (v # vs)))"

definition in_container :: "('a \<Rightarrow> 'a in_op) \<Rightarrow> 'a \<Rightarrow> string \<Rightarrow> 'a list \<Rightarrow> 'a list in_op" where
  "in_container item dflt name old =
     in_bind (in_beginArray name) (\<lambda>n. case n of
       None \<Rightarrow> in_ret []
     | Some n \<Rightarrow>
         in_bind (in_items item (take n old @ replicate (n - length old) dflt))
           (\<lambda>vs. in_bind in_endArray (\<lambda>_. in_ret vs)))"

text \<open>\<open>serialize\<close> of a structure with the function that reads its members.\<close>

definition in_object :: "('a \<Rightarrow> 'a in_op) \<Rightarrow> string \<Rightarrow> 'a \<Rightarrow> 'a in_op" where
  "in_object members name old =
     in_bind (in_beginObject name) (\<lambda>b.
       if \<not> b then in_ret old else in_bind (members old) (\<lambda>v. in_bind in_endObject (\<lambda>_. in_ret v)))"

text \<open>\<open>LevinProtocol::decode\<close> into a message; what follows the root section is not looked at.\<close>

definition kv_decode :: "('a \<Rightarrow> 'a in_op) \<Rightarrow> bytes \<Rightarrow> 'a \<Rightarrow> kv_exn + 'a" where
  "kv_decode members buf old =
     (case parseBinary buf of
        Inl e \<Rightarrow> Inl e
      | Inr (j, _) \<Rightarrow>
          (case kv_in_new j of
             Inl e \<Rightarrow> Inl e
           | Inr st \<Rightarrow> (case members old st of Inl e \<Rightarrow> Inl e | Inr (v, _) \<Rightarrow> Inr v)))"

section \<open>The format as a function\<close>

text \<open>A size, and what the writer makes of a value: its type, its bytes, and the entry it is in an object.\<close>

definition kv_size :: "nat \<Rightarrow> bytes" where
  "kv_size n = (case writeArraySize n of Inl e \<Rightarrow> [] | Inr bs \<Rightarrow> bs)"

fun kv_type :: "kv \<Rightarrow> u8" where
  "kv_type (KU8 _) = BIN_KV_SERIALIZE_TYPE_UINT8"
| "kv_type (KI16 _) = BIN_KV_SERIALIZE_TYPE_INT16"
| "kv_type (KU16 _) = BIN_KV_SERIALIZE_TYPE_UINT16"
| "kv_type (KI32 _) = BIN_KV_SERIALIZE_TYPE_INT32"
| "kv_type (KU32 _) = BIN_KV_SERIALIZE_TYPE_UINT32"
| "kv_type (KI64 _) = BIN_KV_SERIALIZE_TYPE_INT64"
| "kv_type (KU64 _) = BIN_KV_SERIALIZE_TYPE_UINT64"
| "kv_type (KDouble _) = BIN_KV_SERIALIZE_TYPE_DOUBLE"
| "kv_type (KBool _) = BIN_KV_SERIALIZE_TYPE_BOOL"
| "kv_type (KString _) = BIN_KV_SERIALIZE_TYPE_STRING"
| "kv_type (KBinary _) = BIN_KV_SERIALIZE_TYPE_STRING"
| "kv_type (KObject _) = BIN_KV_SERIALIZE_TYPE_OBJECT"
| "kv_type (KArray []) = BIN_KV_SERIALIZE_FLAG_ARRAY"
| "kv_type (KArray (v # vs)) = BIN_KV_SERIALIZE_FLAG_ARRAY OR kv_type v"

definition kv_absent :: "kv \<Rightarrow> bool" where
  "kv_absent v \<longleftrightarrow> v = KBinary [] \<or> v = KArray []"

fun kv_is_array :: "kv \<Rightarrow> bool" where
  "kv_is_array (KArray _) = True"
| "kv_is_array _ = False"

definition name_bytes :: "string \<Rightarrow> bytes" where
  "name_bytes name = of_nat (length name) # to_bytes name"

fun kv_body :: "kv \<Rightarrow> bytes" where
  "kv_body (KU8 v) = nat_le 1 (unat v)"
| "kv_body (KI16 v) = nat_le 2 (unat v)"
| "kv_body (KU16 v) = nat_le 2 (unat v)"
| "kv_body (KI32 v) = nat_le 4 (unat v)"
| "kv_body (KU32 v) = nat_le 4 (unat v)"
| "kv_body (KI64 v) = nat_le 8 (unat v)"
| "kv_body (KU64 v) = nat_le 8 (unat v)"
| "kv_body (KDouble v) = nat_le 8 (unat v)"
| "kv_body (KBool b) = [if b then 1 else 0]"
| "kv_body (KString bs) = kv_size (length bs) @ bs"
| "kv_body (KBinary bs) = kv_size (length bs) @ bs"
| "kv_body (KArray vs) = kv_size (length vs) @ concat (map kv_body vs)"
| "kv_body (KObject ms) =
     kv_size (length (filter (\<lambda>m. \<not> kv_absent (snd m)) ms))
     @ concat (map (\<lambda>(k, v). if kv_absent v then [] else name_bytes k @ kv_type v # kv_body v) ms)"

definition kv_entries :: "(string \<times> kv) list \<Rightarrow> bytes" where
  "kv_entries ms = concat (map (\<lambda>(k, v). if kv_absent v then [] else name_bytes k @ kv_type v # kv_body v) ms)"

definition kv_present :: "(string \<times> kv) list \<Rightarrow> nat" where
  "kv_present ms = length (filter (\<lambda>m. \<not> kv_absent (snd m)) ms)"

lemma kv_body_object [simp]: "kv_body (KObject ms) = kv_size (kv_present ms) @ kv_entries ms"
  by (simp add: kv_entries_def kv_present_def)

declare kv_body.simps(13) [simp del]

text \<open>
  The values the format is made for: names that fit their length byte, sizes below \<open>2 ^ 29\<close>, and arrays of values of one
  type that are neither arrays nor empty blocks.
\<close>

definition name_ok :: "string \<Rightarrow> bool" where
  "name_ok name \<longleftrightarrow> name \<noteq> [] \<and> length name \<le> 255"

fun kv_ok :: "kv \<Rightarrow> bool" where
  "kv_ok (KString bs) = (length bs < 2 ^ 29)"
| "kv_ok (KBinary bs) = (length bs < 2 ^ 29)"
| "kv_ok (KArray vs) =
     (length vs < 2 ^ 29 \<and> list_all kv_ok vs
      \<and> list_all (\<lambda>v. kv_type v = kv_type (hd vs) \<and> \<not> kv_is_array v \<and> \<not> kv_absent v) vs)"
| "kv_ok (KObject ms) =
     (length ms < 2 ^ 29 \<and> distinct (map fst ms) \<and> list_all name_ok (map fst ms) \<and> list_all (\<lambda>(_, v). kv_ok v) ms)"
| "kv_ok _ = True"

lemma size_written: "n < 2 ^ 29 \<Longrightarrow> writeArraySize n = Inr (kv_size n)"
  by (simp add: kv_size_def writeArraySize_def)

lemma kv_present_le: "kv_present ms \<le> length ms"
  by (simp add: kv_present_def)

section \<open>The writer\<close>

definition in_mode :: "bytes \<Rightarrow> bytes list \<Rightarrow> kv_level \<Rightarrow> kv_level list \<Rightarrow> kv_out" where
  "in_mode out outs lv lvs = \<lparr>m_objectsStack = out # outs, m_stack = lv # lvs\<rparr>"

text \<open>What a call of \<open>kv_put\<close> leaves, by the state of the level it is made in.\<close>

definition entered :: "string \<Rightarrow> kv \<Rightarrow> bytes \<Rightarrow> bytes list \<Rightarrow> kv_level \<Rightarrow> kv_level list \<Rightarrow> kv_out" where
  "entered name v out outs lv lvs =
     (case lv_state lv of
        InObject \<Rightarrow>
          if kv_absent v then in_mode out outs lv lvs
          else in_mode (out @ name_bytes name @ kv_type v # kv_body v) outs (lv\<lparr>lv_count := lv_count lv + 1\<rparr>) lvs
      | InArrayPrefix \<Rightarrow>
          in_mode (out @ name_bytes (lv_name lv) @ (BIN_KV_SERIALIZE_FLAG_ARRAY OR kv_type v) # kv_size (lv_count lv) @ kv_body v)
            outs (lv\<lparr>lv_state := InArray\<rparr>) lvs
      | InArray \<Rightarrow> in_mode (out @ kv_body v) outs lv lvs)"

definition level_ok :: "string \<Rightarrow> kv \<Rightarrow> kv_level \<Rightarrow> bool" where
  "level_ok name v lv \<longleftrightarrow>
     (case lv_state lv of
        InObject \<Rightarrow> name_ok name
      | InArrayPrefix \<Rightarrow> \<not> kv_is_array v \<and> \<not> kv_absent v \<and> name_ok (lv_name lv) \<and> lv_count lv < 2 ^ 29
      | InArray \<Rightarrow> \<not> kv_is_array v \<and> \<not> kv_absent v)"

lemmas kv_out_defs = in_mode_def entered_def level_ok_def name_ok_def name_bytes_def kv_append_def count_member_def
  writeElementPrefix_def checkArrayPreamble_def writeElementName_def size_written

lemma prefix_put:
  assumes "level_ok name v lv" "\<not> kv_absent v" "\<not> kv_is_array v"
  shows "(case writeElementPrefix (kv_type v) name (in_mode out outs lv lvs) of
      Inl e \<Rightarrow> Inl e | Inr st \<Rightarrow> kv_append (kv_body v) st) = Inr (entered name v out outs lv lvs)"
  using assms by (cases "lv_state lv") (simp_all add: kv_out_defs)

lemma items_put:
  assumes "\<forall>v \<in> set vs. \<forall>name out outs lv lvs. level_ok name v lv \<longrightarrow> kv_put name v (in_mode out outs lv lvs) = Inr (entered name v out outs lv lvs)"
    and "lv_state lv = InArray" "list_all (\<lambda>v. \<not> kv_is_array v \<and> \<not> kv_absent v) vs"
  shows "put_items vs (in_mode out outs lv lvs) = Inr (in_mode (out @ concat (map kv_body vs)) outs lv lvs)"
  using assms
proof (induction vs arbitrary: out)
  case (Cons v vs)
  have "kv_put [] v (in_mode out outs lv lvs) = Inr (in_mode (out @ kv_body v) outs lv lvs)"
    using Cons.prems by (simp add: level_ok_def entered_def)
  then show ?case using Cons by simp
qed simp

lemma members_put:
  assumes "\<forall>(k, v) \<in> set ms. \<forall>name out outs lv lvs. level_ok name v lv \<longrightarrow> kv_put name v (in_mode out outs lv lvs) = Inr (entered name v out outs lv lvs)"
    and "lv_state lv = InObject" "list_all name_ok (map fst ms)"
  shows "put_members ms (in_mode out outs lv lvs)
    = Inr (in_mode (out @ kv_entries ms) outs (lv\<lparr>lv_count := lv_count lv + kv_present ms\<rparr>) lvs)"
  using assms
proof (induction ms arbitrary: out lv)
  case (Cons m ms)
  obtain k v where m: "m = (k, v)" by (cases m)
  have "kv_put k v (in_mode out outs lv lvs) = Inr (entered k v out outs lv lvs)"
    using Cons.prems by (simp add: level_ok_def m)
  then show ?case using Cons.IH [of lv out] Cons.IH [of "lv\<lparr>lv_count := lv_count lv + 1\<rparr>"] Cons.prems
    by (simp add: m entered_def kv_entries_def kv_present_def)
qed (simp add: kv_entries_def kv_present_def)

text \<open>For a value that is neither an array nor an object, \<open>kv_put\<close> is the prefix and the bytes.\<close>

lemma leaf_put:
  assumes "kv_ok v" "\<not> kv_absent v" "\<forall>vs. v \<noteq> KArray vs" "\<forall>ms. v \<noteq> KObject ms"
  shows "kv_put name v st
    = (case writeElementPrefix (kv_type v) name st of Inl e \<Rightarrow> Inl e | Inr st \<Rightarrow> kv_append (kv_body v) st)"
  using assms by (cases v) (auto simp: out_pod_def out_string_def out_binary_def size_written kv_absent_def split: sum.splits)

lemma leaf_entered:
  assumes "kv_ok v" "level_ok name v lv" "\<not> kv_absent v" "\<forall>vs. v \<noteq> KArray vs" "\<forall>ms. v \<noteq> KObject ms"
  shows "kv_put name v (in_mode out outs lv lvs) = Inr (entered name v out outs lv lvs)"
proof -
  have "\<not> kv_is_array v" using assms(4) by (cases v) auto
  from leaf_put [OF assms(1,3-5)] prefix_put [OF assms(2,3) this] show ?thesis by (simp only:)
qed

lemma array_put:
  assumes IH: "\<forall>v \<in> set vs. \<forall>name out outs lv lvs. level_ok name v lv \<longrightarrow> kv_put name v (in_mode out outs lv lvs) = Inr (entered name v out outs lv lvs)"
    and ok: "kv_ok (KArray vs)" "level_ok name (KArray vs) lv"
  shows "kv_put name (KArray vs) (in_mode out outs lv lvs) = Inr (entered name (KArray vs) out outs lv lvs)"
proof (cases vs)
  case Nil
  have "lv_state lv = InObject" using ok(2) by (simp add: level_ok_def split: kv_level_state.splits)
  then show ?thesis by (simp add: Nil entered_def kv_absent_def out_beginArray_def out_endArray_def in_mode_def)
next
  case (Cons v ws)
  define lv' where "lv' = \<lparr>lv_state = InArrayPrefix, lv_name = name, lv_count = length vs\<rparr>"
  have obj: "lv_state lv = InObject" "name_ok name" using ok(2) by (simp_all add: level_ok_def split: kv_level_state.splits)
  have opened: "out_beginArray (length vs) name (in_mode out outs lv lvs) = in_mode out outs lv' (lv # lvs)"
    by (simp add: out_beginArray_def in_mode_def lv'_def)
  have "level_ok [] v lv'" using ok(1) obj(2) by (simp add: level_ok_def lv'_def Cons)
  then have first: "kv_put [] v (in_mode out outs lv' (lv # lvs)) = Inr (entered [] v out outs lv' (lv # lvs))"
    using IH by (simp add: Cons)
  have rest: "put_items ws (in_mode o' outs (lv'\<lparr>lv_state := InArray\<rparr>) (lv # lvs))
      = Inr (in_mode (o' @ concat (map kv_body ws)) outs (lv'\<lparr>lv_state := InArray\<rparr>) (lv # lvs))" for o'
    using IH ok(1) by (intro items_put) (auto simp: Cons list_all_iff)
  have "put_items vs (in_mode out outs lv' (lv # lvs))
      = Inr (in_mode (out @ name_bytes name @ kv_type (KArray vs) # kv_body (KArray vs)) outs (lv'\<lparr>lv_state := InArray\<rparr>) (lv # lvs))"
    using first rest by (simp add: Cons entered_def lv'_def)
  then have "kv_put name (KArray vs) (in_mode out outs lv lvs)
      = out_endArray (in_mode (out @ name_bytes name @ kv_type (KArray vs) # kv_body (KArray vs)) outs (lv'\<lparr>lv_state := InArray\<rparr>) (lv # lvs))"
    by (simp only: kv_put.simps opened sum.case)
  then show ?thesis
    using obj by (simp add: entered_def kv_absent_def Cons out_endArray_def in_mode_def count_member_def)
qed

lemma object_put_out:
  assumes IH: "\<forall>(k, v) \<in> set ms. \<forall>name out outs lv lvs. level_ok name v lv \<longrightarrow> kv_put name v (in_mode out outs lv lvs) = Inr (entered name v out outs lv lvs)"
    and ok: "kv_ok (KObject ms)" "level_ok name (KObject ms) lv"
  shows "kv_put name (KObject ms) (in_mode out outs lv lvs) = Inr (entered name (KObject ms) out outs lv lvs)"
proof -
  define lv' where "lv' = \<lparr>lv_state = InObject, lv_name = name, lv_count = 0\<rparr>"
  have sz: "writeArraySize (kv_present ms) = Inr (kv_size (kv_present ms))"
    using ok(1) kv_present_le [of ms] by (intro size_written) simp
  have "put_members ms (in_mode [] (o' # outs) lv' lvs')
      = Inr (in_mode ([] @ kv_entries ms) (o' # outs) (lv'\<lparr>lv_count := lv_count lv' + kv_present ms\<rparr>) lvs')" for o' lvs'
    using ok(1) by (intro members_put [OF IH]) (auto simp: lv'_def)
  then have members: "put_members ms (in_mode [] (o' # outs) lv' lvs')
      = Inr (in_mode (kv_entries ms) (o' # outs) \<lparr>lv_state = InObject, lv_name = name, lv_count = kv_present ms\<rparr> lvs')" for o' lvs'
    by (simp add: lv'_def)
  show ?thesis
  proof (cases "lv_state lv")
    case InObject
    then have "out_beginObject name (in_mode out outs lv lvs) = Inr (in_mode [] (out # outs) lv' (lv # lvs))"
      by (simp add: out_beginObject_def checkArrayPreamble_def in_mode_def lv'_def)
    then show ?thesis
      using InObject ok(2) by (simp add: members) (simp add: out_endObject_def kv_out_defs sz kv_absent_def)
  next
    case InArrayPrefix
    let ?o = "out @ name_bytes (lv_name lv) @ (BIN_KV_SERIALIZE_FLAG_ARRAY OR BIN_KV_SERIALIZE_TYPE_OBJECT) # kv_size (lv_count lv)"
    have "out_beginObject name (in_mode out outs lv lvs) = Inr (in_mode [] (?o # outs) lv' (lv\<lparr>lv_state := InArray\<rparr> # lvs))"
      using InArrayPrefix ok(2) by (simp add: out_beginObject_def kv_out_defs lv'_def)
    then show ?thesis
      using InArrayPrefix ok(2) by (simp add: members) (simp add: out_endObject_def kv_out_defs sz)
  next
    case InArray
    then have "out_beginObject name (in_mode out outs lv lvs) = Inr (in_mode [] (out # outs) lv' (lv # lvs))"
      by (simp add: out_beginObject_def checkArrayPreamble_def in_mode_def lv'_def)
    then show ?thesis
      using InArray ok(2) by (simp add: members) (simp add: out_endObject_def kv_out_defs sz)
  qed
qed

lemma kv_put_entered:
  "kv_ok v \<Longrightarrow> level_ok name v lv \<Longrightarrow> kv_put name v (in_mode out outs lv lvs) = Inr (entered name v out outs lv lvs)"
proof (induction v arbitrary: name out outs lv lvs)
  case (KArray vs)
  then show ?case by (intro array_put) (auto simp: list_all_iff)
next
  case (KObject ms)
  then show ?case by (intro object_put_out) (fastforce simp: list_all_iff)+
next
  case (KBinary bs)
  show ?case
  proof (cases "bs = []")
    case True
    then show ?thesis using KBinary by (cases "lv_state lv") (auto simp: out_binary_def entered_def level_ok_def kv_absent_def)
  next
    case False
    then show ?thesis using KBinary by (intro leaf_entered) (auto simp: kv_absent_def)
  qed
qed (rule leaf_entered; simp add: kv_absent_def)+

text \<open>What a message is on the wire.\<close>

definition kv_message :: "(string \<times> kv) list \<Rightarrow> bytes" where
  "kv_message ms =
     nat_le 4 PORTABLE_STORAGE_SIGNATUREA @ nat_le 4 PORTABLE_STORAGE_SIGNATUREB @ nat_le 1 PORTABLE_STORAGE_FORMAT_VER
     @ kv_body (KObject ms)"

lemma kv_encode_message: "kv_ok (KObject ms) \<Longrightarrow> kv_encode ms = Inr (kv_message ms)"
proof -
  assume ok: "kv_ok (KObject ms)"
  define lv where "lv = \<lparr>lv_state = InObject, lv_name = [], lv_count = 0\<rparr>"
  have new: "kv_out_new = Inr (in_mode [] [] lv [])"
    by (simp add: kv_out_new_def out_beginObject_def checkArrayPreamble_def in_mode_def lv_def)
  have "put_members ms (in_mode [] [] lv []) = Inr (in_mode ([] @ kv_entries ms) [] (lv\<lparr>lv_count := lv_count lv + kv_present ms\<rparr>) [])"
    using ok by (intro members_put) (auto simp: lv_def list_all_iff kv_put_entered)
  moreover have "writeArraySize (kv_present ms) = Inr (kv_size (kv_present ms))"
    using ok kv_present_le [of ms] by (intro size_written) simp
  ultimately show ?thesis by (simp add: kv_encode_def new kv_dump_def in_mode_def lv_def kv_message_def)
qed

section \<open>The parser\<close>

lemma to_bytes_chars [simp]: "to_bytes (to_chars bs) = bs"
  by (simp add: to_bytes_def to_chars_def comp_def unat_bounds)

lemma to_chars_bytes [simp]: "to_chars (to_bytes s) = s"
  by (simp add: to_bytes_def to_chars_def comp_def unat_of_nat_u8)

lemma length_to_bytes [simp]: "length (to_bytes s) = length s"
  by (simp add: to_bytes_def)

lemma readPod_le: "n < 256 ^ k \<Longrightarrow> readPod k (nat_le k n @ s) = Inr (n, s)"
  by (simp add: readPod_def read_bytes_append le_nat_nat_le)

lemma readPod_byte [simp]: "readPod (Suc 0) (b # s) = Inr (unat b, s)"
  by (simp add: readPod_def read_bytes_def)

lemma readPod_first: "readPod 1 (nat_le (Suc k) n @ s) = Inr (n mod 256, nat_le k (n div 256) @ s)"
  by (simp add: unat_of_nat_u8)

lemma scast_small: "unat (w :: u32) < 2 ^ 31 \<Longrightarrow> (scast w :: u64) = of_nat (unat w)"
proof -
  assume small: "unat w < 2 ^ 31"
  have u: "uint w = int (unat w)" by (rule uint_nat)
  have "signed_take_bit (LENGTH(32) - Suc 0) (int (unat w)) = int (unat w)"
  proof (rule signed_take_bit_int_eq_self)
    have "- (2 ^ (LENGTH(32) - Suc 0)) \<le> (0 :: int)" by simp
    then show "- (2 ^ (LENGTH(32) - Suc 0)) \<le> int (unat w)" by linarith
    have "int (unat w) < int (2 ^ 31)" using small by (simp only: of_nat_less_iff)
    then show "int (unat w) < 2 ^ (LENGTH(32) - Suc 0)" by simp
  qed
  then have "(scast w :: u64) = word_of_int (int (unat w))" by (simp only: scast_eq sint_uint u)
  then show ?thesis by (simp only: of_int_of_nat_eq)
qed

lemma or_int_piece:
  assumes "unat v < 2 ^ (i * 8)" "n * 2 ^ (i * 8) < 2 ^ 31" "i < 4"
  shows "unat (v OR scast (push_bit (i * 8) (of_nat n :: u32)) :: u64) = unat v + n * 2 ^ (i * 8)"
proof -
  have "n * 2 ^ (i * 8) mod 4294967296 = n * 2 ^ (i * 8)" using assms(2) by simp
  moreover have "n mod 4294967296 * 2 ^ (i * 8) mod 4294967296 = n * 2 ^ (i * 8) mod 4294967296" by (rule mod_mult_left_eq)
  ultimately have "unat (push_bit (i * 8) (of_nat n :: u32)) = n * 2 ^ (i * 8)"
    by (simp add: unat_push_bit unat_of_nat_u32)
  then have "(scast (push_bit (i * 8) (of_nat n :: u32)) :: u64) = push_bit (i * 8) (of_nat n)"
    using assms(2) by (simp add: scast_small push_bit_eq_mult)
  moreover have "unat (of_nat (unat v + n * 2 ^ (i * 8)) :: u64) = unat v + n * 2 ^ (i * 8)"
  proof (rule unat_length)
    have "(2 :: nat) ^ (i * 8) \<le> 2 ^ 24" using assms(3) by (intro power_increasing) auto
    then show "unat v + n * 2 ^ (i * 8) < 18446744073709551616" using assms(1,2) by simp
  qed
  ultimately show ?thesis by (simp only: or_eq_add_shift [OF assms(1)]) (simp add: push_bit_eq_mult)
qed

lemma varint_rest_le:
  assumes "m < 256 ^ k" "unat v < 2 ^ (i * 8)" "m * 2 ^ (i * 8) < 2 ^ 31" "i + k \<le> 4"
  shows "\<exists>v'. varint_rest k i v (nat_le k m @ s) = Inr (v', s) \<and> unat v' = unat v + m * 2 ^ (i * 8)"
  using assms
proof (induction k arbitrary: i v m)
  case (Suc k)
  let ?p = "(2 :: nat) ^ (i * 8)"
  let ?v = "v OR scast (push_bit (i * 8) (of_nat (m mod 256) :: u32)) :: u64"
  have split: "m * ?p = m mod 256 * ?p + m div 256 * 256 * ?p"
    by (metis add.commute add_mult_distrib div_mult_mod_eq)
  have next_p: "(2 :: nat) ^ ((i + 1) * 8) = 256 * ?p" by (simp add: power_add)
  have v: "unat ?v = unat v + m mod 256 * ?p" using Suc.prems split by (intro or_int_piece) linarith+
  have "m mod 256 * ?p \<le> 255 * ?p" by (rule mult_le_mono1) simp
  then have "unat ?v < 2 ^ ((i + 1) * 8)" using v Suc.prems(2) unfolding next_p by linarith
  moreover have "m div 256 < 256 ^ k" using Suc.prems(1) by (simp add: less_mult_imp_div_less mult.commute)
  moreover have "m div 256 * 2 ^ ((i + 1) * 8) < 2 ^ 31" using Suc.prems(3) split unfolding next_p by (simp only: mult.assoc)
  ultimately obtain v' where v': "varint_rest k (i + 1) ?v (nat_le k (m div 256) @ s) = Inr (v', s)"
    "unat v' = unat ?v + m div 256 * 2 ^ ((i + 1) * 8)"
    using Suc.IH [of "m div 256" ?v "i + 1"] Suc.prems(4) by auto
  show ?case using v v' split Suc.prems(4) unfolding next_p varint_rest.simps readPod_first
    by (simp add: mult.assoc)
qed simp

lemma packVarint_le: "type_or < 4 \<Longrightarrow> packVarint k type_or pv = nat_le k (4 * pv + type_or)"
proof -
  assume "type_or < 4"
  then have low: "take_bit 2 type_or = type_or" by (simp add: take_bit_eq_mod)
  have "push_bit 2 pv AND type_or = 0"
  proof (rule bit_eqI)
    fix n
    have "bit type_or n \<Longrightarrow> n < 2" using low by (metis bit_take_bit_iff)
    then show "bit (push_bit 2 pv AND type_or) n = bit 0 n" by (auto simp: bit_simps)
  qed
  from disjunctive_add_eq_or [OF this] show ?thesis by (simp add: packVarint_def push_bit_eq_mult mult.commute)
qed

lemma readVarint_size:
  assumes "n < 2 ^ 29"
  shows "kv_readVarint (kv_size n @ s) = Inr (of_nat n, s)"
proof -
  have step: "kv_readVarint (nat_le (Suc k) (4 * n + m) @ s) = Inr (of_nat n, s)"
    if N: "4 * n + m < 256 ^ Suc k" "m < 4" "k \<le> 3" "(if m = 0 then 0 else if m = 1 then 1 else if m = 2 then 3 else 7) = k" for k m
  proof -
    let ?N = "4 * n + m"
    have "?N < 2 ^ 31" using assms N(2) by simp
    then have "?N div 256 * 256 < 2 ^ 31" by (meson div_times_less_eq_dividend le_less_trans)
    moreover have "unat (of_nat (?N mod 256) :: u64) = ?N mod 256" by (intro unat_length) (simp add: less_le_trans [OF mod_less_divisor])
    moreover have "?N div 256 < 256 ^ k" using N(1) by (simp add: less_mult_imp_div_less mult.commute)
    ultimately obtain v where v: "varint_rest k 1 (of_nat (?N mod 256)) (nat_le k (?N div 256) @ s) = Inr (v, s)"
      "unat v = ?N mod 256 + ?N div 256 * 256"
      using varint_rest_le [of "?N div 256" k "of_nat (?N mod 256)" 1 s] N(3) by auto
    have low: "drop_bit 2 v = of_nat n"
    proof (rule word_unat_eq_iff [THEN iffD2])
      show "unat (drop_bit 2 v) = unat (of_nat n :: u64)"
        using v(2) assms N(2) by (simp add: unat_drop_bit mod_div_mult_eq mult.commute)
    qed
    have mark: "?N mod 256 mod 4 = m" using N(2) by (simp add: mod_mod_cancel)
    show ?thesis unfolding kv_readVarint_def readPod_first sum.case prod.case Let_def mark N(4) v(1) low ..
  qed
  consider "n \<le> 63" | "63 < n" "n \<le> 16383" | "16383 < n" by linarith
  then show ?thesis
  proof cases
    case 1
    then have "kv_size n = nat_le (Suc 0) (4 * n + 0)" by (simp add: kv_size_def writeArraySize_def packVarint_le)
    then show ?thesis using step [of 0 0] 1 by simp
  next
    case 2
    then have "kv_size n = nat_le (Suc 1) (4 * n + 1)"
      by (simp add: kv_size_def writeArraySize_def packVarint_le numeral_2_eq_2 del: nat_le.simps)
    then show ?thesis using step [of 1 1] 2 by (simp del: nat_le.simps)
  next
    case 3
    have four: "(4 :: nat) = Suc 3" by simp
    have "kv_size n = packVarint 4 2 n" using 3 assms by (simp add: kv_size_def writeArraySize_def)
    also have "\<dots> = nat_le (Suc 3) (4 * n + 2)" using packVarint_le [of 2 "Suc 3" n] by (simp only: flip: four)
    finally have sz: "kv_size n = nat_le (Suc 3) (4 * n + 2)" .
    show ?thesis unfolding sz by (rule step) (use assms in simp_all)
  qed
qed

text \<open>The JSON value a message is parsed into; the entries of an object are kept in the order of their names.\<close>

fun kv_json :: "kv \<Rightarrow> u64 json" where
  "kv_json (KU8 v) = JInteger (ucast v)"
| "kv_json (KI16 v) = JInteger (scast v)"
| "kv_json (KU16 v) = JInteger (ucast v)"
| "kv_json (KI32 v) = JInteger (scast v)"
| "kv_json (KU32 v) = JInteger (ucast v)"
| "kv_json (KI64 v) = JInteger v"
| "kv_json (KU64 v) = JInteger v"
| "kv_json (KDouble v) = JReal v"
| "kv_json (KBool b) = JBool b"
| "kv_json (KString bs) = JString (to_chars bs)"
| "kv_json (KBinary bs) = JString (to_chars bs)"
| "kv_json (KArray vs) = JArray (map kv_json vs)"
| "kv_json (KObject ms) =
     JObject (fold (\<lambda>(k, v) m. if kv_absent v then m else object_insert k (kv_json v) m) ms [])"

definition kv_fields :: "(string \<times> kv) list \<Rightarrow> (string \<times> u64 json) list \<Rightarrow> (string \<times> u64 json) list" where
  "kv_fields = fold (\<lambda>(k, v) m. if kv_absent v then m else object_insert k (kv_json v) m)"

lemma kv_json_object [simp]: "kv_json (KObject ms) = JObject (kv_fields ms [])"
  by (simp add: kv_fields_def)

declare kv_json.simps(13) [simp del]

lemma size_nonempty: "n < 2 ^ 29 \<Longrightarrow> 0 < length (kv_size n)"
  by (simp add: kv_size_def writeArraySize_def packVarint_def del: length_greater_0_conv nat_le.simps)

lemma readName_bytes: "name_ok k \<Longrightarrow> readName old (name_bytes k @ s) = Inr (k, s)"
  by (simp add: readName_def name_bytes_def name_ok_def unat_of_nat_u8 read_bytes_append)

lemma kv_readString_size: "length bs < 2 ^ 29 \<Longrightarrow> kv_readString (kv_size (length bs) @ bs @ s) = Inr (to_chars bs, s)"
  by (simp add: kv_readString_def readVarint_size read_bytes_append)

text \<open>The parser on one value, with more levels than the value has bytes.\<close>

definition parses :: "kv \<Rightarrow> bool" where
  "parses v \<longleftrightarrow>
     (\<forall>n s. length (kv_body v) < n \<longrightarrow>
        (if kv_is_array v then loadArray (loadValue n) (kv_type v AND NOT BIN_KV_SERIALIZE_FLAG_ARRAY) (kv_body v @ s)
         else loadValue n (kv_type v) (kv_body v @ s)) = Inr (kv_json v, s))"

lemma loop_items:
  assumes "\<forall>v \<in> set vs. \<forall>s. load (kv_body v @ s) = Inr (kv_json v, s)"
  shows "array_loop load (length vs) arr (concat (map kv_body vs) @ s) = Inr (JArray (arr @ map kv_json vs), s)"
  using assms by (induction vs arbitrary: arr) simp_all

lemma entry_parsed:
  assumes "parses v" "kv_ok v" "\<not> kv_absent v" "length (kv_body v) < n"
  shows "loadEntry (loadValue n) (kv_type v # kv_body v @ s) = Inr (kv_json v, s)"
proof (cases "kv_is_array v")
  case True
  then obtain w ws where "v = KArray (w # ws)" using assms(3) by (cases v rule: kv_is_array.cases) (auto simp: kv_absent_def neq_Nil_conv)
  then have "kv_type v AND BIN_KV_SERIALIZE_FLAG_ARRAY \<noteq> 0" using assms(2) by (cases w) auto
  then show ?thesis using assms(1,4) True by (simp add: loadEntry_def parses_def)
next
  case False
  then have "kv_type v AND BIN_KV_SERIALIZE_FLAG_ARRAY = 0" by (cases v) auto
  then show ?thesis using assms(1,4) False by (simp add: loadEntry_def parses_def)
qed

lemma loop_members:
  assumes "\<forall>(k, v) \<in> set ms. name_ok k \<and> (\<not> kv_absent v \<longrightarrow> (\<forall>s. entry (kv_type v # kv_body v @ s) = Inr (kv_json v, s)))"
  shows "section_loop entry (kv_present ms) name sec (kv_entries ms @ s) = Inr (JObject (kv_fields ms sec), s)"
  using assms
proof (induction ms arbitrary: name sec)
  case (Cons m ms)
  obtain k v where m: "m = (k, v)" by (cases m)
  show ?case
  proof (cases "kv_absent v")
    case True
    then show ?thesis using Cons by (simp add: m kv_present_def kv_entries_def kv_fields_def)
  next
    case False
    have "readName name (name_bytes k @ kv_type v # kv_body v @ kv_entries ms @ s) = Inr (k, kv_type v # kv_body v @ kv_entries ms @ s)"
      using Cons.prems by (intro readName_bytes) (simp add: m)
    then show ?thesis using Cons False by (simp add: m kv_present_def kv_entries_def kv_fields_def)
  qed
qed (simp add: kv_present_def kv_entries_def kv_fields_def)

lemma concat_part: "v \<in> set vs \<Longrightarrow> length (kv_body v) \<le> length (concat (map kv_body vs))"
  by (induction vs) auto

lemma entry_part: "(k, v) \<in> set ms \<Longrightarrow> \<not> kv_absent v \<Longrightarrow> length (kv_body v) < length (kv_entries ms)"
  by (induction ms) (auto simp: kv_entries_def)

lemma leaf_parses: "kv_ok v \<Longrightarrow> \<forall>vs. v \<noteq> KArray vs \<Longrightarrow> \<forall>ms. v \<noteq> KObject ms \<Longrightarrow> parses v"
  unfolding parses_def
proof (intro allI impI)
  fix n s
  assume v: "kv_ok v" "\<forall>vs. v \<noteq> KArray vs" "\<forall>ms. v \<noteq> KObject ms" and n: "length (kv_body v) < n"
  obtain m where n': "n = Suc m" using n by (cases n) auto
  have pods: "readPod (Suc 0) (nat_le (Suc 0) (unat x) @ s) = Inr (unat x, s)" "readPod 2 (nat_le 2 (unat y) @ s) = Inr (unat y, s)"
    "readPod 4 (nat_le 4 (unat z) @ s) = Inr (unat z, s)" "readPod 8 (nat_le 8 (unat w) @ s) = Inr (unat w, s)"
    for x :: u8 and y :: u16 and z :: u32 and w :: u64
    by (rule readPod_le; simp add: unat_bounds del: nat_le.simps)+
  show "(if kv_is_array v then loadArray (loadValue n) (kv_type v AND NOT BIN_KV_SERIALIZE_FLAG_ARRAY) (kv_body v @ s)
         else loadValue n (kv_type v) (kv_body v @ s)) = Inr (kv_json v, s)"
    using v by (cases v) (simp_all add: n' readIntegerJson_def pods kv_readString_size del: nat_le.simps)
qed

lemma kv_parses: "kv_ok v \<Longrightarrow> parses v"
proof (induction v)
  case (KArray vs)
  show ?case unfolding parses_def
  proof (intro allI impI)
    fix n s
    assume n: "length (kv_body (KArray vs)) < n"
    have "array_loop (loadValue n t) (length vs) [] (concat (map kv_body vs) @ s) = Inr (JArray ([] @ map kv_json vs), s)"
      if "\<forall>v \<in> set vs. kv_type v = t" for t
    proof (intro loop_items ballI allI)
      fix v s
      assume v: "v \<in> set vs"
      have "length (kv_body v) < n" using concat_part [OF v] n by simp
      then show "loadValue n t (kv_body v @ s) = Inr (kv_json v, s)"
        using KArray v that by (auto simp: parses_def list_all_iff)
    qed
    moreover have "\<forall>v \<in> set vs. kv_type v = (kv_type (KArray vs) AND NOT BIN_KV_SERIALIZE_FLAG_ARRAY)"
    proof (cases vs)
      case (Cons w ws)
      have "(BIN_KV_SERIALIZE_FLAG_ARRAY OR kv_type w) AND NOT BIN_KV_SERIALIZE_FLAG_ARRAY = kv_type w"
        using KArray.prems by (cases w) (simp_all add: Cons)
      then show ?thesis using KArray.prems by (auto simp: Cons list_all_iff)
    qed simp
    ultimately show "(if kv_is_array (KArray vs)
          then loadArray (loadValue n) (kv_type (KArray vs) AND NOT BIN_KV_SERIALIZE_FLAG_ARRAY) (kv_body (KArray vs) @ s)
          else loadValue n (kv_type (KArray vs)) (kv_body (KArray vs) @ s)) = Inr (kv_json (KArray vs), s)"
      using KArray.prems by (simp add: loadArray_def readVarint_size)
  qed
next
  case (KObject ms)
  show ?case unfolding parses_def
  proof (intro allI impI)
    fix n s
    assume n: "length (kv_body (KObject ms)) < n"
    obtain m where n': "n = Suc m" using n by (cases n) auto
    have "section_loop (loadEntry (loadValue m)) (kv_present ms) [] [] (kv_entries ms @ s) = Inr (JObject (kv_fields ms []), s)"
    proof (intro loop_members ballI, clarify, intro conjI impI allI)
      fix k v s
      assume v: "(k, v) \<in> set ms"
      show "name_ok k" using KObject.prems v by (force simp: list_all_iff)
      assume "\<not> kv_absent v"
      with entry_part [OF v this] n have "length (kv_body v) < m" by (simp add: n')
      then show "loadEntry (loadValue m) (kv_type v # kv_body v @ s) = Inr (kv_json v, s)"
        using KObject v \<open>\<not> kv_absent v\<close> by (intro entry_parsed) (force simp: list_all_iff)+
    qed
    moreover have "kv_present ms < 2 ^ 29" using KObject.prems kv_present_le [of ms] by simp
    ultimately show "(if kv_is_array (KObject ms)
          then loadArray (loadValue n) (kv_type (KObject ms) AND NOT BIN_KV_SERIALIZE_FLAG_ARRAY) (kv_body (KObject ms) @ s)
          else loadValue n (kv_type (KObject ms)) (kv_body (KObject ms) @ s)) = Inr (kv_json (KObject ms), s)"
      by (simp add: n' loadSection_def readVarint_size)
  qed
qed (rule leaf_parses; simp)+

lemma parseBinary_message:
  assumes "kv_ok (KObject ms)"
  shows "parseBinary (kv_message ms @ s) = Inr (JObject (kv_fields ms []), s)"
proof -
  let ?body = "kv_body (KObject ms) @ s"
  have "readPod 4 (nat_le 4 PORTABLE_STORAGE_SIGNATUREA @ r) = Inr (PORTABLE_STORAGE_SIGNATUREA, r)"
    "readPod 4 (nat_le 4 PORTABLE_STORAGE_SIGNATUREB @ r) = Inr (PORTABLE_STORAGE_SIGNATUREB, r)"
    "readPod 1 (nat_le 1 PORTABLE_STORAGE_FORMAT_VER @ r) = Inr (PORTABLE_STORAGE_FORMAT_VER, r)" for r
    by (rule readPod_le; simp)+
  moreover have "loadSection (loadValue (length ?body)) ?body = Inr (JObject (kv_fields ms []), s)"
  proof -
    have "loadValue (Suc (length ?body)) BIN_KV_SERIALIZE_TYPE_OBJECT ?body = Inr (JObject (kv_fields ms []), s)"
      using kv_parses [OF assms] unfolding parses_def by (metis kv_is_array.simps(13) kv_json_object kv_type.simps(12) le_imp_less_Suc length_append le_add1)
    then show ?thesis by simp
  qed
  ultimately show ?thesis by (simp add: parseBinary_def kv_message_def del: kv_body_object nat_le.simps)
qed

section \<open>The bound on the nesting\<close>

text \<open>
  A reader that, on an input shorter than \<open>n\<close>, does not run out of levels; \<open>takes\<close> if it also reads at least a byte,
  \<open>tails\<close> if it may read none.
\<close>

definition takes :: "nat \<Rightarrow> 'a kv_reader \<Rightarrow> bool" where
  "takes n rd \<longleftrightarrow> (\<forall>s. length s < n \<longrightarrow> (case rd s of Inl e \<Rightarrow> e \<noteq> NoFuel | Inr (_, s') \<Rightarrow> length s' < length s))"

definition tails :: "nat \<Rightarrow> 'a kv_reader \<Rightarrow> bool" where
  "tails n rd \<longleftrightarrow> (\<forall>s. length s < n \<longrightarrow> (case rd s of Inl e \<Rightarrow> e \<noteq> NoFuel | Inr (_, s') \<Rightarrow> length s' \<le> length s))"

named_theorems takes_intros \<open>composing readers that stay within the levels\<close>

lemma takes_step [takes_intros]:
  assumes "takes (Suc n) m" "\<And>x. tails n (f x)"
  shows "takes (Suc n) (\<lambda>s. case m s of Inl e \<Rightarrow> Inl e | Inr (x, s) \<Rightarrow> f x s)"
  unfolding takes_def
proof (intro allI impI)
  fix s :: bytes
  assume s: "length s < Suc n"
  show "case (case m s of Inl e \<Rightarrow> Inl e | Inr (x, s) \<Rightarrow> f x s) of Inl e \<Rightarrow> e \<noteq> NoFuel | Inr (_, s') \<Rightarrow> length s' < length s"
  proof (cases "m s")
    case (Inr r)
    obtain x s1 where r: "r = (x, s1)" by (cases r)
    then have less: "length s1 < length s" using assms(1) s Inr by (force simp: takes_def)
    then have "case f x s1 of Inl e \<Rightarrow> e \<noteq> NoFuel | Inr (_, s') \<Rightarrow> length s' \<le> length s1"
      using assms(2) [of x] s by (simp add: tails_def)
    then show ?thesis using less by (auto simp: Inr r split: sum.splits)
  qed (use assms(1) s in \<open>force simp: takes_def\<close>)
qed

lemma tails_step [takes_intros]:
  assumes "tails n m" "\<And>x. tails n (f x)"
  shows "tails n (\<lambda>s. case m s of Inl e \<Rightarrow> Inl e | Inr (x, s) \<Rightarrow> f x s)"
  unfolding tails_def
proof (intro allI impI)
  fix s :: bytes
  assume s: "length s < n"
  show "case (case m s of Inl e \<Rightarrow> Inl e | Inr (x, s) \<Rightarrow> f x s) of Inl e \<Rightarrow> e \<noteq> NoFuel | Inr (_, s') \<Rightarrow> length s' \<le> length s"
  proof (cases "m s")
    case (Inr r)
    obtain x s1 where r: "r = (x, s1)" by (cases r)
    then have less: "length s1 \<le> length s" using assms(1) s Inr by (force simp: tails_def)
    then have "case f x s1 of Inl e \<Rightarrow> e \<noteq> NoFuel | Inr (_, s') \<Rightarrow> length s' \<le> length s1"
      using assms(2) [of x] s by (simp add: tails_def)
    then show ?thesis using less by (auto simp: Inr r split: sum.splits)
  qed (use assms(1) s in \<open>force simp: tails_def\<close>)
qed

lemma takes_tails: "takes m rd \<Longrightarrow> n \<le> m \<Longrightarrow> tails n rd"
  unfolding takes_def tails_def
proof (intro allI impI)
  fix s :: bytes
  assume t: "\<forall>s. length s < m \<longrightarrow> (case rd s of Inl e \<Rightarrow> e \<noteq> NoFuel | Inr (_, s') \<Rightarrow> length s' < length s)" "n \<le> m" "length s < n"
  then have "case rd s of Inl e \<Rightarrow> e \<noteq> NoFuel | Inr (_, s') \<Rightarrow> length s' < length s" by simp
  then show "case rd s of Inl e \<Rightarrow> e \<noteq> NoFuel | Inr (_, s') \<Rightarrow> length s' \<le> length s" by (auto split: sum.splits)
qed

lemma tails_if [takes_intros]: "(c \<Longrightarrow> tails n a) \<Longrightarrow> (\<not> c \<Longrightarrow> tails n b) \<Longrightarrow> tails n (\<lambda>s. if c then a s else b s)"
  and takes_if [takes_intros]: "(c \<Longrightarrow> takes n a) \<Longrightarrow> (\<not> c \<Longrightarrow> takes n b) \<Longrightarrow> takes n (\<lambda>s. if c then a s else b s)"
  by (cases c; simp)+

lemma tails_ret [takes_intros]: "tails n (\<lambda>s. Inr (x, s))"
  and tails_fail [takes_intros]: "e \<noteq> NoFuel \<Longrightarrow> tails n (\<lambda>s. Inl e)"
  and takes_fail [takes_intros]: "e \<noteq> NoFuel \<Longrightarrow> takes n (\<lambda>s. Inl e)"
  by (simp_all add: tails_def takes_def)

lemma tails_bytes [takes_intros]: "tails n (\<lambda>s. case read_bytes k s of Inl e \<Rightarrow> Inl (ReadFailed e) | Inr (bs, s) \<Rightarrow> Inr (f bs, s))"
  by (simp add: tails_def read_bytes_def)

lemma takes_pod [takes_intros]: "0 < k \<Longrightarrow> takes n (readPod k)"
  by (auto simp: takes_def readPod_def read_bytes_def)

lemma tails_pod [takes_intros]: "tails n (readPod k)"
  by (auto simp: tails_def readPod_def read_bytes_def)

lemma tails_rest [takes_intros]: "tails n (varint_rest k i v)"
proof (induction k arbitrary: i v)
  case 0
  have "varint_rest 0 i v = (\<lambda>s. Inr (v, s))" by (simp add: fun_eq_iff)
  then show ?case by (simp add: tails_ret)
next
  case (Suc k)
  have "varint_rest (Suc k) i v = (\<lambda>s. case readPod 1 s of Inl e \<Rightarrow> Inl e | Inr (n, s) \<Rightarrow>
      if 4 \<le> i then Inl ShiftUndefined else varint_rest k (i + 1) (v OR scast (push_bit (i * 8) (of_nat n :: u32))) s)"
    by (simp add: fun_eq_iff)
  then show ?case by (simp only:) (intro takes_intros Suc; simp)
qed

lemma takes_varint [takes_intros]: "takes (Suc n) kv_readVarint"
  unfolding kv_readVarint_def [abs_def] Let_def by (intro takes_intros) simp_all

lemma takes_string [takes_intros]: "takes (Suc n) kv_readString"
  unfolding kv_readString_def [abs_def] by (intro takes_intros)

lemma takes_name [takes_intros]: "takes (Suc n) (readName name)"
  unfolding readName_def [abs_def] by (intro takes_intros) simp

lemma takes_integer [takes_intros]: "0 < k \<Longrightarrow> takes (Suc n) (readIntegerJson k widen)"
  unfolding readIntegerJson_def [abs_def] by (intro takes_intros)

lemma tails_array_loop [takes_intros]:
  assumes "tails n load"
  shows "tails n (array_loop load k arr)"
proof (induction k arbitrary: arr)
  case 0
  have "array_loop load 0 arr = (\<lambda>s. Inr (JArray arr, s))" by (simp add: fun_eq_iff)
  then show ?case by (simp add: tails_ret)
next
  case (Suc k)
  have "array_loop load (Suc k) arr
      = (\<lambda>s. case load s of Inl e \<Rightarrow> Inl e | Inr (v, s) \<Rightarrow> array_loop load k (arr @ [v]) s)" by (simp add: fun_eq_iff)
  then show ?case using assms Suc by (simp add: tails_step)
qed

lemma takes_array [takes_intros]: "tails n (load t) \<Longrightarrow> takes (Suc n) (loadArray load t)"
  unfolding loadArray_def [abs_def] by (intro takes_intros)

lemma tails_array: "tails n (load t) \<Longrightarrow> tails n (loadArray load t)"
  by (rule takes_tails [OF takes_array [of n]]) simp_all

lemma tails_entry [takes_intros]: "(\<And>t. tails n (load t)) \<Longrightarrow> tails n (loadEntry load)"
  unfolding loadEntry_def [abs_def] Let_def by (intro takes_intros tails_array)

lemma tails_section_loop [takes_intros]:
  assumes "tails n entry"
  shows "tails n (section_loop entry k name sec)"
proof (induction k arbitrary: name sec)
  case 0
  have "section_loop entry 0 name sec = (\<lambda>s. Inr (JObject sec, s))" by (simp add: fun_eq_iff)
  then show ?case by (simp add: tails_ret)
next
  case (Suc k)
  have eq: "section_loop entry (Suc k) name sec
      = (\<lambda>s. case readName name s of Inl e \<Rightarrow> Inl e | Inr (name, s) \<Rightarrow>
          (case entry s of Inl e \<Rightarrow> Inl e | Inr (v, s) \<Rightarrow> section_loop entry k name (object_insert name v sec) s))"
    by (simp add: fun_eq_iff)
  have "tails n (readName name)" by (rule takes_tails [OF takes_name [of n]]) simp
  then show ?case unfolding eq by (intro takes_intros assms Suc)
qed

lemma takes_section [takes_intros]: "(\<And>t. tails n (load t)) \<Longrightarrow> takes (Suc n) (loadSection load)"
  unfolding loadSection_def [abs_def] by (intro takes_intros)

lemma takes_value: "takes n (loadValue n t)"
proof (induction n arbitrary: t)
  case (Suc n)
  then have "tails n (loadValue n t)" for t by (rule takes_tails) simp
  then show ?case unfolding loadValue.simps by (intro takes_intros) simp_all
qed (simp add: takes_def)

lemma parseBinary_levels: "parseBinary s \<noteq> Inl NoFuel"
proof -
  have "loadSection (loadValue (length r)) r \<noteq> Inl NoFuel" for r
  proof -
    have "tails (length r) (loadValue (length r) t)" for t by (rule takes_tails [OF takes_value]) simp
    then have "takes (Suc (length r)) (loadSection (loadValue (length r)))" by (rule takes_section)
    then show ?thesis by (force simp: takes_def)
  qed
  moreover have "readPod k r \<noteq> Inl NoFuel" for k r by (simp add: readPod_def read_bytes_def)
  ultimately show ?thesis by (auto simp: parseBinary_def split: sum.splits)
qed

section \<open>The entries of an object\<close>

text \<open>
  What a map with ordered keys promises, and what follows for the members of an object that are put into it one
  after the other.
\<close>

locale object_map =
  fixes empty_map :: 'm
    and put :: "'k \<Rightarrow> 'v \<Rightarrow> 'm \<Rightarrow> 'm"
    and erase :: "'k \<Rightarrow> 'm \<Rightarrow> 'm"
    and lookup :: "'m \<Rightarrow> 'k \<Rightarrow> 'v option"
    and ok :: "'m \<Rightarrow> bool"
  assumes ok_empty: "ok empty_map"
    and lookup_empty: "lookup empty_map = Map.empty"
    and ok_put: "ok m \<Longrightarrow> ok (put k v m)"
    and lookup_put: "ok m \<Longrightarrow> lookup (put k v m) = (lookup m)(k \<mapsto> v)"
    and ok_erase: "ok m \<Longrightarrow> ok (erase k m)"
    and lookup_erase: "ok m \<Longrightarrow> lookup (erase k m) = (lookup m)(k := None)"
begin

lemma erase_put: "ok m \<Longrightarrow> lookup (erase k (put k v m)) = lookup (erase k m)"
  by (simp add: lookup_erase lookup_put ok_put)

lemma put_new:
  assumes "ok m" "distinct (map fst xs)" "\<forall>k \<in> fst ` set xs. lookup m k = None"
  shows "ok (fold (\<lambda>(k, v) m. case lookup m k of None \<Rightarrow> put k v m | Some _ \<Rightarrow> m) xs m)
    \<and> lookup (fold (\<lambda>(k, v) m. case lookup m k of None \<Rightarrow> put k v m | Some _ \<Rightarrow> m) xs m) = lookup m ++ map_of xs"
  using assms
proof (induction xs arbitrary: m)
  case (Cons x xs)
  obtain k v where x: "x = (k, v)" by (cases x)
  have "\<forall>k' \<in> fst ` set xs. lookup (put k v m) k' = None" using Cons.prems by (force simp: x lookup_put)
  then have IH: "ok (fold (\<lambda>(k, v) m. case lookup m k of None \<Rightarrow> put k v m | Some _ \<Rightarrow> m) xs (put k v m))
    \<and> lookup (fold (\<lambda>(k, v) m. case lookup m k of None \<Rightarrow> put k v m | Some _ \<Rightarrow> m) xs (put k v m)) = lookup (put k v m) ++ map_of xs"
    using Cons.prems by (intro Cons.IH) (simp_all add: x ok_put)
  have "lookup (put k v m) ++ map_of xs = lookup m ++ map_of (x # xs)"
    using Cons.prems by (simp add: x lookup_put map_add_upd_left dom_map_of_conv_image_fst)
  moreover have "fold (\<lambda>(k, v) m. case lookup m k of None \<Rightarrow> put k v m | Some _ \<Rightarrow> m) (x # xs) m
      = fold (\<lambda>(k, v) m. case lookup m k of None \<Rightarrow> put k v m | Some _ \<Rightarrow> m) xs (put k v m)"
    using Cons.prems(3) by (simp add: x)
  ultimately show ?case using IH by (simp only:)
qed simp

end

definition object_ok :: "(string \<times> 'v) list \<Rightarrow> bool" where
  "object_ok m \<longleftrightarrow> sorted_wrt (<) (map fst m)"

lemma object_put_keys: "fst ` set (object_put k v m) = insert k (fst ` set m)"
proof (induction m)
  case (Cons e m)
  then show ?case by (cases e) (simp add: insert_commute)
qed simp

lemma object_ok_Cons: "object_ok ((k, v) # m) \<longleftrightarrow> (\<forall>k' \<in> fst ` set m. k < k') \<and> object_ok m"
  by (simp add: object_ok_def)

lemma object_put_ok: "object_ok m \<Longrightarrow> object_ok (object_put k v m) \<and> map_of (object_put k v m) = (map_of m)(k \<mapsto> v)"
proof (induction m)
  case (Cons e m)
  obtain k' v' where e: "e = (k', v')" by (cases e)
  consider "k < k'" | "k = k'" | "k' < k" by fastforce
  then show ?case
    using Cons by cases (auto simp: e object_ok_Cons object_put_keys fun_eq_iff intro: less_trans)
qed (simp add: object_ok_def)

lemma object_erase_ok: "object_ok m \<Longrightarrow> object_ok (object_erase k m) \<and> map_of (object_erase k m) = (map_of m)(k := None)"
  by (induction m) (auto simp: object_erase_def object_ok_def fun_eq_iff)

interpretation obj: object_map "[]" object_put object_erase map_of object_ok
  by unfold_locales (simp_all add: object_put_ok object_erase_ok, simp_all add: object_ok_def)

lemma kv_fields_insert:
  "kv_fields ms = fold (\<lambda>(k, v) m. case map_of m k of None \<Rightarrow> object_put k v m | Some _ \<Rightarrow> m)
     (map (\<lambda>(k, v). (k, kv_json v)) (filter (\<lambda>m. \<not> kv_absent (snd m)) ms))"
  unfolding kv_fields_def by (induction ms) (auto simp: fun_eq_iff object_insert_def split: option.splits)

lemma kv_fields_lookup:
  assumes "distinct (map fst ms)"
  shows "map_of (kv_fields ms []) k = (case map_of ms k of None \<Rightarrow> None | Some v \<Rightarrow> if kv_absent v then None else Some (kv_json v))"
proof -
  let ?xs = "map (\<lambda>(k, v). (k, kv_json v)) (filter (\<lambda>m. \<not> kv_absent (snd m)) ms)"
  have "distinct (map fst (filter (\<lambda>m. \<not> kv_absent (snd m)) ms))" using assms by (simp add: distinct_map_filter)
  then have "distinct (map fst ?xs)" by (simp add: comp_def case_prod_unfold)
  then have "map_of (kv_fields ms []) k = map_of ?xs k"
    using obj.put_new [OF obj.ok_empty, of ?xs] unfolding kv_fields_insert by simp
  also have "map_of ?xs k = (case map_of ms k of None \<Rightarrow> None | Some v \<Rightarrow> if kv_absent v then None else Some (kv_json v))"
    using assms by (induction ms) (auto simp: map_of_eq_None_iff rev_image_eqI split: option.splits)
  finally show ?thesis .
qed

section \<open>The members read back\<close>

text \<open>The reader has entered the object a message was parsed into.\<close>

definition at_object :: "(string \<times> kv) list \<Rightarrow> kv_in \<Rightarrow> bool" where
  "at_object ms st \<longleftrightarrow> kv_ok (KObject ms) \<and> (\<exists>vs. chain st = JObject (kv_fields ms []) # vs)"

lemma at_member:
  assumes "at_object ms st" "map_of ms name = Some v"
  shows "getValue name st = Inr (if kv_absent v then None else Some (kv_json v), st)"
proof -
  have ms: "kv_ok (KObject ms)" using assms(1) by (simp add: at_object_def)
  obtain vs where "chain st = JObject (kv_fields ms []) # vs" using assms(1) by (auto simp: at_object_def)
  moreover have "map_of (kv_fields ms []) name = (if kv_absent v then None else Some (kv_json v))"
    using kv_fields_lookup [of ms name] ms assms(2) by simp
  ultimately show ?thesis
    by (simp add: getValue_def in_bind_def in_json_def in_ret_def json_contains_def json_member_def getObject_def)
qed

text \<open>
  An operation that reads a value makes \<open>x\<close> of \<open>v\<close>, wherever \<open>getValue\<close> finds it: as a member or as an element.
\<close>

definition reads :: "(string \<Rightarrow> 'a \<Rightarrow> 'a in_op) \<Rightarrow> kv \<Rightarrow> 'a \<Rightarrow> bool" where
  "reads op v x \<longleftrightarrow>
     (\<forall>name old st st'. getValue name st = Inr (if kv_absent v then None else Some (kv_json v), st') \<longrightarrow>
        op name old st = Inr (x, st'))"

lemma reads_member: "reads op v x \<Longrightarrow> at_object ms st \<Longrightarrow> map_of ms name = Some v \<Longrightarrow> op name old st = Inr (x, st)"
  using at_member unfolding reads_def by blast

named_theorems kv_reads \<open>operations that read back what was written\<close>

lemmas in_op_defs = in_bind_def in_ret_def in_json_def in_fail_def

lemma narrow_wide:
  "ucast (ucast a :: u64) = (a :: u8)" "ucast (ucast b :: u64) = (b :: u16)" "ucast (ucast c :: u64) = (c :: u32)"
  "ucast (scast b :: u64) = b" "ucast (scast c :: u64) = c"
  by (rule bit_word_eqI; simp add: bit_simps)+

lemma reads_numbers [kv_reads]:
  "reads (getNumber ucast) (KU8 a) a" "reads (getNumber ucast) (KU16 b) b" "reads (getNumber ucast) (KI16 b) b"
  "reads (getNumber ucast) (KU32 c) c" "reads (getNumber ucast) (KI32 c) c"
  "reads (getNumber id) (KU64 d) d" "reads (getNumber id) (KI64 d) d"
  by (simp_all add: reads_def getNumber_def in_op_defs getInteger_def kv_absent_def narrow_wide)

lemma reads_bool [kv_reads]: "reads in_bool (KBool b) b"
  by (simp add: reads_def in_bool_def in_op_defs getBool_def kv_absent_def)

lemma reads_string [kv_reads]: "reads in_str (KString bs) bs"
  by (simp add: reads_def in_str_def in_string_def in_op_defs getString_def kv_absent_def)

lemma reads_block [kv_reads]: "length bs = sz \<Longrightarrow> 0 < sz \<Longrightarrow> reads (in_block sz) (KBinary bs) bs"
  by (auto simp: reads_def in_block_def in_string_def in_op_defs getString_def kv_absent_def)

lemma blocks_of_concat: "\<forall>x \<in> set xs. length x = sz \<Longrightarrow> blocks_of sz (length xs) (concat xs) = xs"
  by (induction xs) simp_all

lemma length_blocks: "\<forall>x \<in> set xs. length x = sz \<Longrightarrow> length (concat xs) = length xs * sz"
  by (induction xs) simp_all

lemma in_string_binary:
  assumes "getValue name st = Inr (if kv_absent (KBinary bs) then None else Some (kv_json (KBinary bs)), st')"
  shows "in_string name [] st = Inr ((bs \<noteq> [], bs), st')"
  using assms by (cases "bs = []") (simp_all add: in_string_def in_op_defs getString_def kv_absent_def)

lemma reads_vector [kv_reads]:
  assumes "\<forall>x \<in> set xs. length x = sz" "0 < sz"
  shows "reads (\<lambda>name _. in_vector_binary sz name) (out_list_binary xs) xs"
  unfolding reads_def out_list_binary_def
  using in_string_binary [of _ _ "concat xs"] length_blocks [OF assms(1)] blocks_of_concat [OF assms(1)] assms(2)
  by (auto simp: in_vector_binary_def in_op_defs)

lemma reads_list [kv_reads]:
  assumes "\<forall>x \<in> set xs. length x = sz" "0 < sz"
  shows "reads (\<lambda>name _. in_list_binary sz name []) (out_list_binary xs) xs"
  unfolding reads_def out_list_binary_def
  using in_string_binary [of _ _ "concat xs"] length_blocks [OF assms(1)] blocks_of_concat [OF assms(1)] assms(2)
  by (auto simp: in_list_binary_def in_op_defs)

text \<open>A structure: what its members read from inside.\<close>

definition members_read :: "('a \<Rightarrow> 'a in_op) \<Rightarrow> (string \<times> kv) list \<Rightarrow> 'a \<Rightarrow> bool" where
  "members_read members ms x \<longleftrightarrow> (\<forall>old st. at_object ms st \<longrightarrow> members old st = Inr (x, st))"

lemma reads_object [kv_reads]:
  assumes "members_read members ms x" "kv_ok (KObject ms)"
  shows "reads (in_object members) (KObject ms) x"
proof -
  have "in_object members name old st = Inr (x, st')" if "getValue name st = Inr (Some (JObject (kv_fields ms [])), st')" for name old st st'
  proof -
    let ?st = "st'\<lparr>chain := JObject (kv_fields ms []) # chain st'\<rparr>"
    have "at_object ms ?st" using assms(2) by (simp add: at_object_def)
    then have "members old ?st = Inr (x, ?st)" using assms(1) by (simp add: members_read_def)
    then show ?thesis using that by (simp add: in_object_def in_beginObject_def in_push_def in_endObject_def in_op_defs)
  qed
  then show ?thesis by (simp add: reads_def kv_absent_def)
qed

text \<open>The elements of a container, from the position of the reader on.\<close>

lemma items_read:
  assumes "list_all2 (\<lambda>v x. reads item v x \<and> \<not> kv_absent v) vs xs" "length olds = length xs"
    and "chain st = JArray (us @ map kv_json vs) # ch" "idxs st = length us # is"
  shows "in_items (item []) olds st = Inr (xs, st\<lparr>idxs := (length us + length xs) # is\<rparr>)"
  using assms
proof (induction vs xs arbitrary: us olds st rule: list_all2_induct)
  case Nil
  then show ?case by (simp add: in_ret_def)
next
  case (Cons v vs x xs)
  obtain o' os where olds: "olds = o' # os" using Cons.prems(1) by (cases olds) auto
  let ?st = "st\<lparr>idxs := (length us + 1) # is\<rparr>"
  have "getValue [] st = Inr (Some (kv_json v), ?st)"
    using Cons.prems by (simp add: getValue_def next_element_def in_op_defs json_at_def getArray_def)
  then have "item [] o' st = Inr (x, ?st)" using Cons.hyps(1) by (simp add: reads_def)
  moreover have "in_items (item []) os ?st = Inr (xs, ?st\<lparr>idxs := (length (us @ [kv_json v]) + length xs) # is\<rparr>)"
    using Cons.prems by (intro Cons.IH) (simp_all add: olds)
  ultimately show ?case by (simp add: olds in_op_defs)
qed

lemma container_read:
  assumes at: "at_object ms st" "map_of ms name = Some (KArray vs)" and items: "list_all2 (reads item) vs xs"
  shows "in_container (item []) dflt name old st = Inr (xs, st)"
proof -
  have ms: "kv_ok (KObject ms)" using at(1) by (simp add: at_object_def)
  obtain ch where ch: "chain st = JObject (kv_fields ms []) # ch" using at(1) by (auto simp: at_object_def)
  have field: "map_of (kv_fields ms []) name = (if vs = [] then None else Some (JArray (map kv_json vs)))"
    using kv_fields_lookup [of ms name] ms at(2) by (simp add: kv_absent_def)
  show ?thesis
  proof (cases "vs = []")
    case True
    then show ?thesis using items ch field
      by (simp add: in_container_def in_beginArray_def in_op_defs json_contains_def getObject_def)
  next
    case False
    let ?st = "st\<lparr>chain := JArray (map kv_json vs) # chain st, idxs := 0 # idxs st\<rparr>"
    have "in_beginArray name st = Inr (Some (length vs), ?st)"
      using False ch field
      by (simp add: in_beginArray_def in_op_defs json_contains_def json_member_def getObject_def json_size_def)
    moreover have "(name, KArray vs) \<in> set ms" using at(2) by (rule map_of_SomeD)
    then have "kv_ok (KArray vs)" using ms by (fastforce simp: list_all_iff)
    then have "list_all2 (\<lambda>v x. reads item v x \<and> \<not> kv_absent v) vs xs"
      using items by (auto simp: list_all2_conv_all_nth list_all_length)
    from items_read [OF this, of "take (length vs) old @ replicate (length vs - length old) dflt" ?st "[]"]
    have "in_items (item []) (take (length vs) old @ replicate (length vs - length old) dflt) ?st
        = Inr (xs, ?st\<lparr>idxs := length xs # idxs st\<rparr>)"
      using list_all2_lengthD [OF items] by (simp add: min_def split: if_splits)
    ultimately show ?thesis by (simp add: in_container_def in_op_defs in_endArray_def)
  qed
qed

text \<open>A whole message.\<close>

lemma decode_encode:
  assumes "kv_ok (KObject ms)" "\<forall>st. at_object ms st \<longrightarrow> members old st = Inr (x, st)" "kv_encode ms = Inr buf"
  shows "kv_decode members buf old = Inr x"
proof -
  have buf: "buf = kv_message ms" using assms(3) kv_encode_message [OF assms(1)] by simp
  have "parseBinary buf = Inr (JObject (kv_fields ms []), [])" using parseBinary_message [OF assms(1), of "[]"] by (simp add: buf)
  moreover have "at_object ms \<lparr>chain = [JObject (kv_fields ms [])], idxs = []\<rparr>" using assms(1) by (simp add: at_object_def)
  ultimately show ?thesis using assms(2) by (simp add: kv_decode_def kv_in_new_def)
qed

end
