(* ===== verification/Messages.thy ===== *)
theory Messages
  imports KvBinary TxTypes
begin

text \<open>
  The messages of the node protocol (\<open>cryptonote/protocol/definitions.h\<close>) and of the peer protocol
  (\<open>p2p/P2pProtocolDefinitions.h\<close>), written and read by the binary key-value format, and the packets they travel in
  (\<open>p2p/LevinProtocol.cpp\<close>).

  The \<open>serialize\<close> function of a structure appears twice: as the members it writes and as the operations by which it reads
  them, with the value of the structure before.
\<close>

section \<open>Messages between nodes\<close>

definition hash_out :: "hash_t \<Rightarrow> kv" where
  "hash_out h = KBinary h"

definition hash_in :: "string \<Rightarrow> hash_t \<Rightarrow> hash_t in_op" where
  "hash_in = in_block 32"

definition strings_out :: "bytes list \<Rightarrow> kv" where
  "strings_out ss = KArray (map KString ss)"

definition strings_in :: "string \<Rightarrow> bytes list \<Rightarrow> bytes list in_op" where
  "strings_in = in_container (in_str []) []"

record block_complete_entry =
  bce_block :: bytes
  bce_txs :: "bytes list"

definition block_complete_entry_out :: "block_complete_entry \<Rightarrow> (string \<times> kv) list" where
  "block_complete_entry_out b = [(''block'', KString (bce_block b)), (''txs'', strings_out (bce_txs b))]"

definition block_complete_entry_in :: "block_complete_entry \<Rightarrow> block_complete_entry in_op" where
  "block_complete_entry_in old =
     in_bind (in_str ''block'' (bce_block old)) (\<lambda>b.
     in_bind (strings_in ''txs'' (bce_txs old)) (\<lambda>txs.
     in_ret (old\<lparr>bce_block := b, bce_txs := txs\<rparr>)))"

record new_block_request =
  nb_b :: block_complete_entry
  nb_current_blockchain_height :: u32
  nb_hop :: u32

definition new_block_out :: "new_block_request \<Rightarrow> (string \<times> kv) list" where
  "new_block_out r =
     [(''b'', KObject (block_complete_entry_out (nb_b r))),
      (''current_blockchain_height'', KU32 (nb_current_blockchain_height r)), (''hop'', KU32 (nb_hop r))]"

definition new_block_in :: "new_block_request \<Rightarrow> new_block_request in_op" where
  "new_block_in old =
     in_bind (in_object block_complete_entry_in ''b'' (nb_b old)) (\<lambda>b.
     in_bind (getNumber ucast ''current_blockchain_height'' (nb_current_blockchain_height old)) (\<lambda>height.
     in_bind (getNumber ucast ''hop'' (nb_hop old)) (\<lambda>hop.
     in_ret (old\<lparr>nb_b := b, nb_current_blockchain_height := height, nb_hop := hop\<rparr>))))"

record new_transactions_request =
  nt_txs :: "bytes list"

definition new_transactions_out :: "new_transactions_request \<Rightarrow> (string \<times> kv) list" where
  "new_transactions_out r = [(''txs'', strings_out (nt_txs r))]"

definition new_transactions_in :: "new_transactions_request \<Rightarrow> new_transactions_request in_op" where
  "new_transactions_in old = in_bind (strings_in ''txs'' (nt_txs old)) (\<lambda>txs. in_ret (old\<lparr>nt_txs := txs\<rparr>))"

record request_get_objects =
  ro_txs :: "hash_t list"
  ro_blocks :: "hash_t list"

definition request_get_objects_out :: "request_get_objects \<Rightarrow> (string \<times> kv) list" where
  "request_get_objects_out r = [(''txs'', out_list_binary (ro_txs r)), (''blocks'', out_list_binary (ro_blocks r))]"

definition request_get_objects_in :: "request_get_objects \<Rightarrow> request_get_objects in_op" where
  "request_get_objects_in old =
     in_bind (in_vector_binary 32 ''txs'') (\<lambda>txs.
     in_bind (in_vector_binary 32 ''blocks'') (\<lambda>bs.
     in_ret (old\<lparr>ro_txs := txs, ro_blocks := bs\<rparr>)))"

record response_get_objects =
  rs_txs :: "bytes list"
  rs_blocks :: "block_complete_entry list"
  rs_missed_ids :: "hash_t list"
  rs_current_blockchain_height :: u32

definition response_get_objects_out :: "response_get_objects \<Rightarrow> (string \<times> kv) list" where
  "response_get_objects_out r =
     [(''txs'', strings_out (rs_txs r)),
      (''blocks'', KArray (map (\<lambda>b. KObject (block_complete_entry_out b)) (rs_blocks r))),
      (''missed_ids'', out_list_binary (rs_missed_ids r)),
      (''current_blockchain_height'', KU32 (rs_current_blockchain_height r))]"

definition response_get_objects_in :: "response_get_objects \<Rightarrow> response_get_objects in_op" where
  "response_get_objects_in old =
     in_bind (strings_in ''txs'' (rs_txs old)) (\<lambda>txs.
     in_bind (in_container (in_object block_complete_entry_in []) \<lparr>bce_block = [], bce_txs = []\<rparr> ''blocks'' (rs_blocks old)) (\<lambda>bs.
     in_bind (in_vector_binary 32 ''missed_ids'') (\<lambda>missed.
     in_bind (getNumber ucast ''current_blockchain_height'' (rs_current_blockchain_height old)) (\<lambda>height.
     in_ret (old\<lparr>rs_txs := txs, rs_blocks := bs, rs_missed_ids := missed, rs_current_blockchain_height := height\<rparr>)))))"

record request_chain =
  rc_block_ids :: "hash_t list"

definition request_chain_out :: "request_chain \<Rightarrow> (string \<times> kv) list" where
  "request_chain_out r = [(''block_ids'', out_list_binary (rc_block_ids r))]"

definition request_chain_in :: "request_chain \<Rightarrow> request_chain in_op" where
  "request_chain_in old = in_bind (in_vector_binary 32 ''block_ids'') (\<lambda>ids. in_ret (old\<lparr>rc_block_ids := ids\<rparr>))"

record response_chain_entry =
  ce_start_height :: u32
  ce_total_height :: u32
  ce_block_ids :: "hash_t list"

definition response_chain_entry_out :: "response_chain_entry \<Rightarrow> (string \<times> kv) list" where
  "response_chain_entry_out r =
     [(''start_height'', KU32 (ce_start_height r)), (''total_height'', KU32 (ce_total_height r)),
      (''m_block_ids'', out_list_binary (ce_block_ids r))]"

definition response_chain_entry_in :: "response_chain_entry \<Rightarrow> response_chain_entry in_op" where
  "response_chain_entry_in old =
     in_bind (getNumber ucast ''start_height'' (ce_start_height old)) (\<lambda>start.
     in_bind (getNumber ucast ''total_height'' (ce_total_height old)) (\<lambda>total.
     in_bind (in_vector_binary 32 ''m_block_ids'') (\<lambda>ids.
     in_ret (old\<lparr>ce_start_height := start, ce_total_height := total, ce_block_ids := ids\<rparr>))))"

record request_tx_pool =
  tp_txs :: "hash_t list"

definition request_tx_pool_out :: "request_tx_pool \<Rightarrow> (string \<times> kv) list" where
  "request_tx_pool_out r = [(''txs'', out_list_binary (tp_txs r))]"

definition request_tx_pool_in :: "request_tx_pool \<Rightarrow> request_tx_pool in_op" where
  "request_tx_pool_in old = in_bind (in_vector_binary 32 ''txs'') (\<lambda>txs. in_ret (old\<lparr>tp_txs := txs\<rparr>))"

text \<open>The notifications with their command numbers, \<open>LevinProtocol::encode\<close> of each and the decoding by \<open>notifyAdaptor\<close>.\<close>

datatype message =
    NOTIFY_NEW_BLOCK new_block_request
  | NOTIFY_NEW_TRANSACTIONS new_transactions_request
  | NOTIFY_REQUEST_GET_OBJECTS request_get_objects
  | NOTIFY_RESPONSE_GET_OBJECTS response_get_objects
  | NOTIFY_REQUEST_CHAIN request_chain
  | NOTIFY_RESPONSE_CHAIN_ENTRY response_chain_entry
  | NOTIFY_REQUEST_TX_POOL request_tx_pool

fun message_id :: "message \<Rightarrow> u32" where
  "message_id (NOTIFY_NEW_BLOCK _) = 2001"
| "message_id (NOTIFY_NEW_TRANSACTIONS _) = 2002"
| "message_id (NOTIFY_REQUEST_GET_OBJECTS _) = 2003"
| "message_id (NOTIFY_RESPONSE_GET_OBJECTS _) = 2004"
| "message_id (NOTIFY_REQUEST_CHAIN _) = 2006"
| "message_id (NOTIFY_RESPONSE_CHAIN_ENTRY _) = 2007"
| "message_id (NOTIFY_REQUEST_TX_POOL _) = 2008"

fun message_out :: "message \<Rightarrow> (string \<times> kv) list" where
  "message_out (NOTIFY_NEW_BLOCK r) = new_block_out r"
| "message_out (NOTIFY_NEW_TRANSACTIONS r) = new_transactions_out r"
| "message_out (NOTIFY_REQUEST_GET_OBJECTS r) = request_get_objects_out r"
| "message_out (NOTIFY_RESPONSE_GET_OBJECTS r) = response_get_objects_out r"
| "message_out (NOTIFY_REQUEST_CHAIN r) = request_chain_out r"
| "message_out (NOTIFY_RESPONSE_CHAIN_ENTRY r) = response_chain_entry_out r"
| "message_out (NOTIFY_REQUEST_TX_POOL r) = request_tx_pool_out r"

definition encode_message :: "message \<Rightarrow> kv_exn + bytes" where
  "encode_message m = kv_encode (message_out m)"

text \<open>\<open>None\<close> is a command the handler does not know.\<close>

definition notifyAdaptor :: "('a \<Rightarrow> 'a in_op) \<Rightarrow> 'a \<Rightarrow> ('a \<Rightarrow> message) \<Rightarrow> bytes \<Rightarrow> kv_exn + message option" where
  "notifyAdaptor members zero mk buf =
     (case kv_decode members buf zero of Inl e \<Rightarrow> Inl e | Inr r \<Rightarrow> Inr (Some (mk r)))"

definition decode_message :: "u32 \<Rightarrow> bytes \<Rightarrow> kv_exn + message option" where
  "decode_message cmd buf =
     (if cmd = 2001 then
        notifyAdaptor new_block_in
          \<lparr>nb_b = \<lparr>bce_block = [], bce_txs = []\<rparr>, nb_current_blockchain_height = 0, nb_hop = 0\<rparr> NOTIFY_NEW_BLOCK buf
      else if cmd = 2002 then notifyAdaptor new_transactions_in \<lparr>nt_txs = []\<rparr> NOTIFY_NEW_TRANSACTIONS buf
      else if cmd = 2003 then
        notifyAdaptor request_get_objects_in \<lparr>ro_txs = [], ro_blocks = []\<rparr> NOTIFY_REQUEST_GET_OBJECTS buf
      else if cmd = 2004 then
        notifyAdaptor response_get_objects_in
          \<lparr>rs_txs = [], rs_blocks = [], rs_missed_ids = [], rs_current_blockchain_height = 0\<rparr> NOTIFY_RESPONSE_GET_OBJECTS buf
      else if cmd = 2006 then notifyAdaptor request_chain_in \<lparr>rc_block_ids = []\<rparr> NOTIFY_REQUEST_CHAIN buf
      else if cmd = 2007 then
        notifyAdaptor response_chain_entry_in \<lparr>ce_start_height = 0, ce_total_height = 0, ce_block_ids = []\<rparr>
          NOTIFY_RESPONSE_CHAIN_ENTRY buf
      else if cmd = 2008 then notifyAdaptor request_tx_pool_in \<lparr>tp_txs = []\<rparr> NOTIFY_REQUEST_TX_POOL buf
      else Inr None)"

section \<open>Messages between peers\<close>

record network_address =
  ip :: u32
  port :: u32

record peerlist_entry =
  adr :: network_address
  peer_id :: u64
  last_seen :: u64

text \<open>The packed structure, copied to and from a block of 24 bytes.\<close>

definition peerlist_entry_bytes :: "peerlist_entry \<Rightarrow> bytes" where
  "peerlist_entry_bytes e =
     nat_le 4 (unat (ip (adr e))) @ nat_le 4 (unat (port (adr e))) @ nat_le 8 (unat (peer_id e)) @ nat_le 8 (unat (last_seen e))"

definition peerlist_entry_of :: "bytes \<Rightarrow> peerlist_entry" where
  "peerlist_entry_of bs =
     \<lparr>adr = \<lparr>ip = of_nat (le_nat (take 4 bs)), port = of_nat (le_nat (take 4 (drop 4 bs)))\<rparr>,
      peer_id = of_nat (le_nat (take 8 (drop 8 bs))), last_seen = of_nat (le_nat (take 8 (drop 16 bs)))\<rparr>"

definition peerlist_out :: "peerlist_entry list \<Rightarrow> kv" where
  "peerlist_out es = out_list_binary (map peerlist_entry_bytes es)"

definition peerlist_in :: "string \<Rightarrow> peerlist_entry list \<Rightarrow> peerlist_entry list in_op" where
  "peerlist_in name old =
     in_bind (in_list_binary 24 name (map peerlist_entry_bytes old)) (\<lambda>bs. in_ret (map peerlist_entry_of bs))"

record basic_node_data =
  network_id :: bytes
  nd_version :: u8
  local_time :: u64
  my_port :: u32
  nd_peer_id :: u64

definition basic_node_data_out :: "basic_node_data \<Rightarrow> (string \<times> kv) list" where
  "basic_node_data_out d =
     [(''network_id'', KBinary (network_id d)), (''version'', KU8 (nd_version d)), (''peer_id'', KU64 (nd_peer_id d)),
      (''local_time'', KU64 (local_time d)), (''my_port'', KU32 (my_port d))]"

definition basic_node_data_in :: "basic_node_data \<Rightarrow> basic_node_data in_op" where
  "basic_node_data_in old =
     in_bind (in_block 16 ''network_id'' (network_id old)) (\<lambda>net.
     in_bind (getNumber ucast ''version'' 0) (\<lambda>ver.
     in_bind (getNumber id ''peer_id'' (nd_peer_id old)) (\<lambda>peer.
     in_bind (getNumber id ''local_time'' (local_time old)) (\<lambda>t.
     in_bind (getNumber ucast ''my_port'' (my_port old)) (\<lambda>p.
     in_ret (old\<lparr>network_id := net, nd_version := ver, nd_peer_id := peer, local_time := t, my_port := p\<rparr>))))))"

record core_sync_data =
  current_height :: u32
  top_id :: hash_t

definition core_sync_data_out :: "core_sync_data \<Rightarrow> (string \<times> kv) list" where
  "core_sync_data_out d = [(''current_height'', KU32 (current_height d)), (''top_id'', hash_out (top_id d))]"

definition core_sync_data_in :: "core_sync_data \<Rightarrow> core_sync_data in_op" where
  "core_sync_data_in old =
     in_bind (getNumber ucast ''current_height'' (current_height old)) (\<lambda>h.
     in_bind (hash_in ''top_id'' (top_id old)) (\<lambda>t. in_ret (old\<lparr>current_height := h, top_id := t\<rparr>)))"

record handshake_request =
  hq_node_data :: basic_node_data
  hq_payload_data :: core_sync_data

definition handshake_request_out :: "handshake_request \<Rightarrow> (string \<times> kv) list" where
  "handshake_request_out r =
     [(''node_data'', KObject (basic_node_data_out (hq_node_data r))),
      (''payload_data'', KObject (core_sync_data_out (hq_payload_data r)))]"

definition handshake_request_in :: "handshake_request \<Rightarrow> handshake_request in_op" where
  "handshake_request_in old =
     in_bind (in_object basic_node_data_in ''node_data'' (hq_node_data old)) (\<lambda>n.
     in_bind (in_object core_sync_data_in ''payload_data'' (hq_payload_data old)) (\<lambda>p.
     in_ret (old\<lparr>hq_node_data := n, hq_payload_data := p\<rparr>)))"

record handshake_response =
  hr_node_data :: basic_node_data
  hr_payload_data :: core_sync_data
  hr_local_peerlist :: "peerlist_entry list"

definition handshake_response_out :: "handshake_response \<Rightarrow> (string \<times> kv) list" where
  "handshake_response_out r =
     [(''node_data'', KObject (basic_node_data_out (hr_node_data r))),
      (''payload_data'', KObject (core_sync_data_out (hr_payload_data r))),
      (''local_peerlist'', peerlist_out (hr_local_peerlist r))]"

definition handshake_response_in :: "handshake_response \<Rightarrow> handshake_response in_op" where
  "handshake_response_in old =
     in_bind (in_object basic_node_data_in ''node_data'' (hr_node_data old)) (\<lambda>n.
     in_bind (in_object core_sync_data_in ''payload_data'' (hr_payload_data old)) (\<lambda>p.
     in_bind (peerlist_in ''local_peerlist'' (hr_local_peerlist old)) (\<lambda>l.
     in_ret (old\<lparr>hr_node_data := n, hr_payload_data := p, hr_local_peerlist := l\<rparr>))))"

record timed_sync_response =
  ts_local_time :: u64
  ts_payload_data :: core_sync_data
  ts_local_peerlist :: "peerlist_entry list"

definition timed_sync_request_out :: "core_sync_data \<Rightarrow> (string \<times> kv) list" where
  "timed_sync_request_out d = [(''payload_data'', KObject (core_sync_data_out d))]"

definition timed_sync_request_in :: "core_sync_data \<Rightarrow> core_sync_data in_op" where
  "timed_sync_request_in old = in_object core_sync_data_in ''payload_data'' old"

definition timed_sync_response_out :: "timed_sync_response \<Rightarrow> (string \<times> kv) list" where
  "timed_sync_response_out r =
     [(''local_time'', KU64 (ts_local_time r)), (''payload_data'', KObject (core_sync_data_out (ts_payload_data r))),
      (''local_peerlist'', peerlist_out (ts_local_peerlist r))]"

definition timed_sync_response_in :: "timed_sync_response \<Rightarrow> timed_sync_response in_op" where
  "timed_sync_response_in old =
     in_bind (getNumber id ''local_time'' (ts_local_time old)) (\<lambda>t.
     in_bind (in_object core_sync_data_in ''payload_data'' (ts_payload_data old)) (\<lambda>p.
     in_bind (peerlist_in ''local_peerlist'' (ts_local_peerlist old)) (\<lambda>l.
     in_ret (old\<lparr>ts_local_time := t, ts_payload_data := p, ts_local_peerlist := l\<rparr>))))"

record ping_response =
  pr_status :: bytes
  pr_peer_id :: u64

definition ping_response_out :: "ping_response \<Rightarrow> (string \<times> kv) list" where
  "ping_response_out r = [(''status'', KString (pr_status r)), (''peer_id'', KU64 (pr_peer_id r))]"

definition ping_response_in :: "ping_response \<Rightarrow> ping_response in_op" where
  "ping_response_in old =
     in_bind (in_str ''status'' (pr_status old)) (\<lambda>st.
     in_bind (getNumber id ''peer_id'' (pr_peer_id old)) (\<lambda>p. in_ret (old\<lparr>pr_status := st, pr_peer_id := p\<rparr>)))"

section \<open>Packets\<close>

text \<open>The pieces in which the bytes of the peer arrive; \<open>read\<close> returns 0 when there are no more.\<close>

type_synonym incoming = "bytes list"

fun conn_read :: "nat \<Rightarrow> incoming \<Rightarrow> bytes \<times> incoming" where
  "conn_read n [] = ([], [])"
| "conn_read n (c # cs) = (take n c, if length c \<le> n then cs else drop n c # cs)"

function readStrict :: "nat \<Rightarrow> incoming \<Rightarrow> bytes option \<times> incoming" where
  "readStrict n cs =
     (if n = 0 then (Some [], cs)
      else let (bs, cs) = conn_read n cs
           in if length bs = 0 then (None, cs)
              else case readStrict (n - length bs) cs of
                (None, cs) \<Rightarrow> (None, cs)
              | (Some more_bytes, cs) \<Rightarrow> (Some (bs @ more_bytes), cs))"
  by pat_completeness auto

termination by (relation "measure fst") auto

declare readStrict.simps [simp del]

text \<open>
  \<open>writeStrict\<close> on a connection that takes, at its successive calls, the given numbers of bytes. \<open>None\<close> is a loop that has not
  ended with them.
\<close>

fun writeStrict :: "bytes \<Rightarrow> nat list \<Rightarrow> bytes option" where
  "writeStrict bs [] = (if bs = [] then Some [] else None)"
| "writeStrict bs (k # ks) =
     (if bs = [] then Some []
      else case writeStrict (drop k bs) ks of None \<Rightarrow> None | Some sent \<Rightarrow> Some (take k bs @ sent))"

abbreviation (input) "LEVIN_SIGNATURE \<equiv> 0x0101010101012101 :: nat"
abbreviation (input) "LEVIN_PACKET_REQUEST \<equiv> 1 :: u32"
abbreviation (input) "LEVIN_PACKET_RESPONSE \<equiv> 2 :: u32"
abbreviation (input) "LEVIN_DEFAULT_MAX_PACKET_SIZE \<equiv> 100000000 :: nat"
abbreviation (input) "LEVIN_PROTOCOL_VER_1 \<equiv> 1 :: u32"

text \<open>\<open>bucket_head2\<close> with the body behind it.\<close>

definition levin_packet :: "bytes \<Rightarrow> bool \<Rightarrow> u32 \<Rightarrow> u32 \<Rightarrow> u32 \<Rightarrow> bytes" where
  "levin_packet out have_to_return_data cmd return_code flags =
     nat_le 8 LEVIN_SIGNATURE @ nat_le 8 (length out) @ [if have_to_return_data then 1 else 0]
     @ nat_le 4 (unat cmd) @ nat_le 4 (unat return_code) @ nat_le 4 (unat flags) @ nat_le 4 (unat LEVIN_PROTOCOL_VER_1) @ out"

definition sendMessage :: "u32 \<Rightarrow> bytes \<Rightarrow> bool \<Rightarrow> bytes" where
  "sendMessage cmd out needResponse = levin_packet out needResponse cmd 0 LEVIN_PACKET_REQUEST"

definition sendReply :: "u32 \<Rightarrow> bytes \<Rightarrow> u32 \<Rightarrow> bytes" where
  "sendReply cmd out returnCode = levin_packet out False cmd returnCode LEVIN_PACKET_RESPONSE"

record levin_command =
  lc_command :: u32
  lc_isNotify :: bool
  lc_isResponse :: bool
  lc_buf :: bytes

definition needReply :: "levin_command \<Rightarrow> bool" where
  "needReply c \<longleftrightarrow> \<not> (lc_isNotify c \<or> lc_isResponse c)"

text \<open>\<open>None\<close> is the result \<open>false\<close>: the peer has closed the connection.\<close>

definition readCommand :: "incoming \<Rightarrow> exn + levin_command option \<times> incoming" where
  "readCommand cs =
     (case readStrict 33 cs of
        (None, cs) \<Rightarrow> Inr (None, cs)
      | (Some head, cs) \<Rightarrow>
          let cb = le_nat (take 8 (drop 8 head));
              cmd = of_nat (le_nat (take 4 (drop 17 head)));
              flags = of_nat (le_nat (take 4 (drop 25 head))) :: u32
          in if le_nat (take 8 head) \<noteq> LEVIN_SIGNATURE then Inl LevinSignature
             else if LEVIN_DEFAULT_MAX_PACKET_SIZE < cb then Inl LevinTooBig
             else case readStrict cb cs of
               (None, cs) \<Rightarrow> Inr (None, cs)
             | (Some buf, cs) \<Rightarrow>
                 Inr (Some \<lparr>lc_command = cmd, lc_isNotify = (head ! 16 = 0),
                            lc_isResponse = (flags AND LEVIN_PACKET_RESPONSE = LEVIN_PACKET_RESPONSE), lc_buf = buf\<rparr>, cs))"

section \<open>Messages read back\<close>

definition hashes_ok :: "hash_t list \<Rightarrow> bool" where
  "hashes_ok hs \<longleftrightarrow> list_all (\<lambda>h. length h = 32) hs \<and> 32 * length hs < 2 ^ 29"

definition strings_ok :: "bytes list \<Rightarrow> bool" where
  "strings_ok ss \<longleftrightarrow> list_all (\<lambda>s. length s < 2 ^ 29) ss \<and> length ss < 2 ^ 29"

definition entry_ok :: "block_complete_entry \<Rightarrow> bool" where
  "entry_ok b \<longleftrightarrow> length (bce_block b) < 2 ^ 29 \<and> strings_ok (bce_txs b)"

fun message_ok :: "message \<Rightarrow> bool" where
  "message_ok (NOTIFY_NEW_BLOCK r) = entry_ok (nb_b r)"
| "message_ok (NOTIFY_NEW_TRANSACTIONS r) = strings_ok (nt_txs r)"
| "message_ok (NOTIFY_REQUEST_GET_OBJECTS r) = (hashes_ok (ro_txs r) \<and> hashes_ok (ro_blocks r))"
| "message_ok (NOTIFY_RESPONSE_GET_OBJECTS r) =
     (strings_ok (rs_txs r) \<and> list_all entry_ok (rs_blocks r) \<and> length (rs_blocks r) < 2 ^ 29 \<and> hashes_ok (rs_missed_ids r))"
| "message_ok (NOTIFY_REQUEST_CHAIN r) = hashes_ok (rc_block_ids r)"
| "message_ok (NOTIFY_RESPONSE_CHAIN_ENTRY r) = hashes_ok (ce_block_ids r)"
| "message_ok (NOTIFY_REQUEST_TX_POOL r) = hashes_ok (tp_txs r)"

lemma strings_kv: "strings_ok ss \<Longrightarrow> kv_ok (strings_out ss)"
  by (cases ss) (auto simp: strings_ok_def strings_out_def list_all_iff kv_absent_def)

lemma hashes_kv: "hashes_ok hs \<Longrightarrow> kv_ok (out_list_binary hs)"
  using length_blocks [of hs 32] by (simp add: hashes_ok_def out_list_binary_def list_all_iff)

lemma names_kv: "name_ok (c # s) \<longleftrightarrow> length s \<le> 254"
  by (auto simp: name_ok_def)

lemma entry_kv: "entry_ok b \<Longrightarrow> kv_ok (KObject (block_complete_entry_out b))"
  by (simp add: entry_ok_def block_complete_entry_out_def strings_kv names_kv)

lemma entries_kv:
  assumes "list_all entry_ok bs" "length bs < 2 ^ 29"
  shows "kv_ok (KArray (map (\<lambda>b. KObject (block_complete_entry_out b)) bs))"
  supply kv_ok.simps(4) [simp del]
  using assms by (cases bs) (auto simp: list_all_iff kv_absent_def entry_kv)

lemma message_kv: "message_ok m \<Longrightarrow> kv_ok (KObject (message_out m))"
  supply kv_ok.simps(3,4) [simp del]
  by (subst kv_ok.simps(4), cases m)
    (simp_all add: new_block_out_def new_transactions_out_def request_get_objects_out_def response_get_objects_out_def
      request_chain_out_def response_chain_entry_out_def request_tx_pool_out_def strings_kv hashes_kv names_kv entry_kv entries_kv)

lemma strings_read:
  assumes "at_object ms st" "map_of ms name = Some (strings_out ss)"
  shows "strings_in name old st = Inr (ss, st)"
  using container_read [OF assms(1), of name "map KString ss" in_str ss] assms(2) reads_string
  by (simp add: strings_out_def strings_in_def list_all2_map1 list_all2_same)

lemma hashes_read:
  assumes "at_object ms st" "map_of ms name = Some (out_list_binary hs)" "hashes_ok hs"
  shows "in_vector_binary 32 name st = Inr (hs, st)"
  using reads_member [OF reads_vector assms(1,2), of 32] assms(3) by (simp add: hashes_ok_def list_all_iff)

lemmas number_read = reads_member [OF reads_numbers(1)] reads_member [OF reads_numbers(4)] reads_member [OF reads_numbers(6)]
lemmas message_reads = number_read reads_member [OF reads_string] strings_read hashes_read

lemma entry_read: "entry_ok b \<Longrightarrow> members_read block_complete_entry_in (block_complete_entry_out b) b"
  by (auto simp: members_read_def block_complete_entry_in_def in_op_defs message_reads block_complete_entry_out_def)

lemma entry_reads: "entry_ok b \<Longrightarrow> reads (in_object block_complete_entry_in) (KObject (block_complete_entry_out b)) b"
  by (rule reads_object [OF entry_read entry_kv])

lemma entries_read:
  assumes "at_object ms st" "map_of ms name = Some (KArray (map (\<lambda>b. KObject (block_complete_entry_out b)) bs))" "list_all entry_ok bs"
  shows "in_container (in_object block_complete_entry_in []) dflt name old st = Inr (bs, st)"
  using container_read [OF assms(1,2), of "in_object block_complete_entry_in" bs] assms(3) entry_reads
  by (simp add: list_all2_map1 list_all2_same list_all_iff)

lemma sent_read:
  assumes "kv_ok (KObject ms)" "\<And>st. at_object ms st \<Longrightarrow> members zero st = Inr (x, st)"
  shows "notifyAdaptor members zero mk (kv_message ms) = Inr (Some (mk x))"
  using decode_encode [OF assms(1), of members zero x] assms kv_encode_message [OF assms(1)]
  by (simp add: notifyAdaptor_def)

text \<open>What the operations of every message make of the members written for it.\<close>

lemma new_block_read: "entry_ok (nb_b r) \<Longrightarrow> at_object (new_block_out r) st \<Longrightarrow> new_block_in old st = Inr (r, st)"
  by (simp add: new_block_in_def in_op_defs message_reads reads_member [OF entry_reads] new_block_out_def)

lemma new_transactions_read: "at_object (new_transactions_out r) st \<Longrightarrow> new_transactions_in old st = Inr (r, st)"
  by (simp add: new_transactions_in_def in_op_defs message_reads new_transactions_out_def)

lemma request_get_objects_read:
  "hashes_ok (ro_txs r) \<Longrightarrow> hashes_ok (ro_blocks r) \<Longrightarrow> at_object (request_get_objects_out r) st \<Longrightarrow>
   request_get_objects_in old st = Inr (r, st)"
  by (simp add: request_get_objects_in_def in_op_defs message_reads request_get_objects_out_def)

lemma response_get_objects_read:
  "list_all entry_ok (rs_blocks r) \<Longrightarrow> hashes_ok (rs_missed_ids r) \<Longrightarrow> at_object (response_get_objects_out r) st \<Longrightarrow>
   response_get_objects_in old st = Inr (r, st)"
  by (simp add: response_get_objects_in_def in_op_defs message_reads entries_read response_get_objects_out_def)

lemma request_chain_read: "hashes_ok (rc_block_ids r) \<Longrightarrow> at_object (request_chain_out r) st \<Longrightarrow> request_chain_in old st = Inr (r, st)"
  by (simp add: request_chain_in_def in_op_defs message_reads request_chain_out_def)

lemma response_chain_entry_read:
  "hashes_ok (ce_block_ids r) \<Longrightarrow> at_object (response_chain_entry_out r) st \<Longrightarrow> response_chain_entry_in old st = Inr (r, st)"
  by (simp add: response_chain_entry_in_def in_op_defs message_reads response_chain_entry_out_def)

lemma request_tx_pool_read: "hashes_ok (tp_txs r) \<Longrightarrow> at_object (request_tx_pool_out r) st \<Longrightarrow> request_tx_pool_in old st = Inr (r, st)"
  by (simp add: request_tx_pool_in_def in_op_defs message_reads request_tx_pool_out_def)

lemmas messages_read = new_block_read new_transactions_read request_get_objects_read response_get_objects_read request_chain_read
  response_chain_entry_read request_tx_pool_read

lemma decode_encode_message:
  assumes "message_ok m"
  shows "\<exists>buf. encode_message m = Inr buf \<and> decode_message (message_id m) buf = Inr (Some m)"
proof -
  have enc: "encode_message m = Inr (kv_message (message_out m))"
    unfolding encode_message_def by (rule kv_encode_message [OF message_kv [OF assms]])
  have "decode_message (message_id m) (kv_message (message_out m)) = Inr (Some m)"
    supply kv_ok.simps(4) [simp del]
    using assms message_kv [OF assms] unfolding decode_message_def
    by (cases m; simp; intro sent_read; simp add: messages_read)
  then show ?thesis using enc by blast
qed

section \<open>Peers\<close>

lemma length_peer_bytes [simp]: "length (peerlist_entry_bytes e) = 24"
  by (simp add: peerlist_entry_bytes_def)

lemma peer_bytes_of [simp]: "peerlist_entry_of (peerlist_entry_bytes e) = e"
  by (simp add: peerlist_entry_of_def peerlist_entry_bytes_def le_nat_nat_le unat_bounds)

lemma peerlist_read:
  assumes "at_object ms st" "map_of ms name = Some (peerlist_out es)"
  shows "peerlist_in name old st = Inr (old @ es, st)"
proof -
  let ?bs = "map peerlist_entry_bytes es"
  have all: "\<forall>x \<in> set ?bs. length x = 24" by simp
  have "in_string name [] st = Inr ((concat ?bs \<noteq> [], concat ?bs), st)"
    using in_string_binary [of name st "concat ?bs" st] at_member [OF assms] by (simp add: peerlist_out_def out_list_binary_def)
  then show ?thesis
    using length_blocks [OF all] blocks_of_concat [OF all]
    by (simp add: peerlist_in_def in_list_binary_def in_op_defs comp_def)
qed

definition node_data_ok :: "basic_node_data \<Rightarrow> bool" where
  "node_data_ok d \<longleftrightarrow> length (network_id d) = 16"

definition sync_data_ok :: "core_sync_data \<Rightarrow> bool" where
  "sync_data_ok d \<longleftrightarrow> length (top_id d) = 32"

lemma node_data_kv: "node_data_ok d \<Longrightarrow> kv_ok (KObject (basic_node_data_out d))"
  by (simp add: basic_node_data_out_def names_kv node_data_ok_def)

lemma sync_data_kv: "sync_data_ok d \<Longrightarrow> kv_ok (KObject (core_sync_data_out d))"
  by (simp add: core_sync_data_out_def hash_out_def names_kv sync_data_ok_def)

lemma node_data_read: "node_data_ok d \<Longrightarrow> reads (in_object basic_node_data_in) (KObject (basic_node_data_out d)) d"
  by (rule reads_object [OF _ node_data_kv])
    (simp_all add: members_read_def basic_node_data_in_def in_op_defs message_reads reads_member [OF reads_block] basic_node_data_out_def
      node_data_ok_def)

lemma sync_data_read: "sync_data_ok d \<Longrightarrow> reads (in_object core_sync_data_in) (KObject (core_sync_data_out d)) d"
  by (rule reads_object [OF _ sync_data_kv])
    (simp_all add: members_read_def core_sync_data_in_def in_op_defs message_reads reads_member [OF reads_block] core_sync_data_out_def
      sync_data_ok_def hash_in_def hash_out_def)

lemmas peer_reads = message_reads peerlist_read reads_member [OF node_data_read] reads_member [OF sync_data_read]

definition peers_ok :: "peerlist_entry list \<Rightarrow> bool" where
  "peers_ok es \<longleftrightarrow> 24 * length es < 2 ^ 29"

lemma peers_kv: "peers_ok es \<Longrightarrow> kv_ok (peerlist_out es)"
  using length_blocks [of "map peerlist_entry_bytes es" 24] by (simp add: peers_ok_def peerlist_out_def out_list_binary_def)

lemma handshake_response_kv:
  assumes "node_data_ok (hr_node_data r)" "sync_data_ok (hr_payload_data r)" "peers_ok (hr_local_peerlist r)"
  shows "kv_ok (KObject (handshake_response_out r))"
  supply kv_ok.simps(4) [simp del]
  using assms by (subst kv_ok.simps(4)) (simp add: handshake_response_out_def node_data_kv sync_data_kv peers_kv names_kv)

lemma handshake_response_read:
  assumes "node_data_ok (hr_node_data r)" "sync_data_ok (hr_payload_data r)" "hr_local_peerlist old = []"
    and "at_object (handshake_response_out r) st"
  shows "handshake_response_in old st = Inr (r, st)"
  using assms by (simp add: handshake_response_in_def in_op_defs peer_reads handshake_response_out_def)

section \<open>Packets on the connection\<close>

lemma readStrict_concat:
  assumes "[] \<notin> set cs" "n \<le> length (concat cs)"
  shows "\<exists>cs'. readStrict n cs = (Some (take n (concat cs)), cs') \<and> concat cs' = drop n (concat cs) \<and> [] \<notin> set cs'"
  using assms
proof (induction n cs rule: readStrict.induct)
  case (1 n cs)
  show ?case
  proof (cases "n = 0")
    case True
    then show ?thesis using 1(2) by (subst readStrict.simps) simp
  next
    case False
    then obtain c ds where cs: "cs = c # ds" using 1(3) by (cases cs) auto
    let ?ds = "if length c \<le> n then ds else drop n c # ds"
    have c: "c \<noteq> []" "conn_read n cs = (take n c, ?ds)" using 1(2) unfolding cs by (metis list.set_intros(1)) simp
    have rest: "concat ?ds = drop (length (take n c)) (concat cs)" "[] \<notin> set ?ds" using 1(2) by (auto simp: cs)
    have "\<exists>cs'. readStrict (n - length (take n c)) ?ds = (Some (take (n - length (take n c)) (concat ?ds)), cs')
        \<and> concat cs' = drop (n - length (take n c)) (concat ?ds) \<and> [] \<notin> set cs'"
    proof (rule 1(1) [OF False c(2) [symmetric] refl])
      show "length (take n c) \<noteq> 0" using False c(1) by simp
      show "[] \<notin> set ?ds" by (rule rest(2))
      show "n - length (take n c) \<le> length (concat ?ds)" using 1(3) by (simp add: cs rest(1))
    qed
    then obtain cs' where IH: "readStrict (n - length (take n c)) ?ds = (Some (take (n - length (take n c)) (concat ?ds)), cs')"
      "concat cs' = drop (n - length (take n c)) (concat ?ds)" "[] \<notin> set cs'" by blast
    have "take n c @ take (n - length (take n c)) (concat ?ds) = take n (concat cs)"
      by (simp add: cs)
    moreover have "drop (n - length (take n c)) (concat ?ds) = drop n (concat cs)"
      unfolding rest(1) by simp
    moreover have "readStrict n cs = (Some (take n c @ take (n - length (take n c)) (concat ?ds)), cs')"
      using False c IH(1) by (subst readStrict.simps) simp
    ultimately show ?thesis using IH(2,3) by auto
  qed
qed

lemma writeStrict_all: "list_all (\<lambda>k. 0 < k) ks \<Longrightarrow> length bs \<le> sum_list ks \<Longrightarrow> writeStrict bs ks = Some bs"
proof (induction bs ks rule: writeStrict.induct)
  case (2 bs k ks)
  then show ?case by (cases "bs = []") auto
qed simp

lemma packet_read:
  assumes "concat cs = levin_packet out reply cmd code flags @ rest" "[] \<notin> set cs" "length out \<le> 100000000"
  shows "\<exists>cs'. readCommand cs = Inr (Some \<lparr>lc_command = cmd, lc_isNotify = (\<not> reply),
      lc_isResponse = (flags AND LEVIN_PACKET_RESPONSE = LEVIN_PACKET_RESPONSE), lc_buf = out\<rparr>, cs') \<and> concat cs' = rest \<and> [] \<notin> set cs'"
proof -
  define head where "head = nat_le 8 LEVIN_SIGNATURE @ nat_le 8 (length out) @ [if reply then 1 else 0 :: u8]
     @ nat_le 4 (unat cmd) @ nat_le 4 (unat code) @ nat_le 4 (unat flags) @ nat_le 4 (unat LEVIN_PROTOCOL_VER_1)"
  have cs: "concat cs = head @ out @ rest" "length head = 33" using assms(1) by (simp_all add: levin_packet_def head_def)
  obtain cs1 where r1: "readStrict 33 cs = (Some head, cs1)" "concat cs1 = out @ rest" "[] \<notin> set cs1"
    using readStrict_concat [OF assms(2), of 33] cs by auto
  obtain cs2 where r2: "readStrict (length out) cs1 = (Some out, cs2)" "concat cs2 = rest" "[] \<notin> set cs2"
    using readStrict_concat [OF r1(3), of "length out"] r1(2) by auto
  have fields: "take 8 head = nat_le 8 LEVIN_SIGNATURE" "take 8 (drop 8 head) = nat_le 8 (length out)"
    "take 4 (drop 17 head) = nat_le 4 (unat cmd)" "take 4 (drop 25 head) = nat_le 4 (unat flags)"
    "head ! 16 = (if reply then 1 else 0)"
    by (simp_all add: head_def nth_append)
  show ?thesis
    using assms(3) r1 r2 by (simp add: readCommand_def fields le_nat_nat_le unat_bounds Let_def)
qed

section \<open>Properties\<close>

text \<open>
  C39: the writer of the binary key-value format, with its stacks of open objects and arrays, writes what the format
  says: the header, the number of members present, and every member with its name, its type and its bytes.
\<close>

theorem kv_writer_refines:
  assumes "kv_ok (KObject ms)"
  shows "kv_encode ms = Inr (kv_message ms)"
  by (rule kv_encode_message [OF assms])

lemma nat_le_numeral: "nat_le (numeral k) n = of_nat n # nat_le (pred_numeral k) (n div 256)"
  by (subst numeral_eq_Suc) (rule nat_le.simps(2))

lemmas kv_eval = kv_message_def kv_entries_def kv_present_def kv_absent_def name_bytes_def to_bytes_def kv_size_def writeArraySize_def
  packVarint_def push_bit_eq_mult nat_le_numeral

theorem kv_writer_refines_witness:
  "kv_encode [(''a'', KU32 7), (''none'', KArray []), (''s'', KString [65])]
    = Inr ([1, 17, 1, 1, 1, 1, 2, 1, 1, 8] @ [1, 97, 6, 7, 0, 0, 0] @ [1, 115, 10, 4, 65])"
proof -
  have "kv_encode [(''a'', KU32 7), (''none'', KArray []), (''s'', KString [65])]
      = Inr (kv_message [(''a'', KU32 7), (''none'', KArray []), (''s'', KString [65])])"
    by (rule kv_writer_refines) (simp add: names_kv)
  also have "kv_message [(''a'', KU32 7), (''none'', KArray []), (''s'', KString [65])]
      = [1, 17, 1, 1, 1, 1, 2, 1, 1, 8] @ [1, 97, 6, 7, 0, 0, 0] @ [1, 115, 10, 4, 65]"
    by (simp add: kv_eval)
  finally show ?thesis .
qed

text \<open>
  C9: a message sent as a notification arrives as it was sent, in whatever pieces the connection delivers the packet:
  the packet is cut where it ends, the command is recognised, and the members are read back.
\<close>

theorem message_delivered:
  assumes "message_ok m" "encode_message m = Inr buf" "length buf \<le> 100000000"
    and "concat cs = sendMessage (message_id m) buf False @ rest" "[] \<notin> set cs"
  shows "\<exists>c cs'. readCommand cs = Inr (Some c, cs') \<and> concat cs' = rest \<and> lc_isNotify c \<and> \<not> needReply c
    \<and> decode_message (lc_command c) (lc_buf c) = Inr (Some m)"
proof -
  obtain cs' where "readCommand cs = Inr (Some \<lparr>lc_command = message_id m, lc_isNotify = True, lc_isResponse = False, lc_buf = buf\<rparr>, cs')"
    "concat cs' = rest"
    using packet_read [OF assms(4) [unfolded sendMessage_def] assms(5,3)] by auto
  moreover have "decode_message (message_id m) buf = Inr (Some m)" using decode_encode_message [OF assms(1)] assms(2) by auto
  ultimately show ?thesis by (simp add: needReply_def)
qed

theorem message_delivered_witness:
  "\<exists>buf c cs'. encode_message (NOTIFY_REQUEST_CHAIN \<lparr>rc_block_ids = [replicate 32 7]\<rparr>) = Inr buf
    \<and> readCommand (map (\<lambda>b. [b]) (sendMessage 2006 buf False)) = Inr (Some c, cs')
    \<and> decode_message (lc_command c) (lc_buf c) = Inr (Some (NOTIFY_REQUEST_CHAIN \<lparr>rc_block_ids = [replicate 32 7]\<rparr>))"
proof -
  let ?m = "NOTIFY_REQUEST_CHAIN \<lparr>rc_block_ids = [replicate 32 7]\<rparr>"
  have ok: "message_ok ?m" by (simp add: hashes_ok_def)
  then obtain buf where buf: "encode_message ?m = Inr buf" using decode_encode_message by blast
  have "buf = kv_message (message_out ?m)"
    using buf kv_encode_message [OF message_kv [OF ok]] by (simp add: encode_message_def)
  then have "length buf \<le> 100000000" by (simp add: kv_eval request_chain_out_def out_list_binary_def)
  then have "\<exists>c cs'. readCommand (map (\<lambda>b. [b]) (sendMessage 2006 buf False)) = Inr (Some c, cs') \<and> concat cs' = [] \<and> lc_isNotify c
      \<and> \<not> needReply c \<and> decode_message (lc_command c) (lc_buf c) = Inr (Some ?m)"
    by (intro message_delivered [OF ok buf]) (auto simp: concat_map_singleton)
  then show ?thesis using buf by blast
qed

text \<open>
  C40: a list of block ids whose length is not a multiple of the size of an id makes the reader copy past the end of the
  vector it has made for the ids.
\<close>

theorem id_list_overrun:
  assumes "length blob < 2 ^ 29" "length blob mod 32 \<noteq> 0" "kv_encode [(''block_ids'', KBinary blob)] = Inr buf"
  shows "decode_message 2006 buf = Inl Overrun"
proof -
  let ?ms = "[(''block_ids'', KBinary blob)]"
  have ok: "kv_ok (KObject ?ms)" using assms(1) by (simp add: names_kv)
  then have buf: "buf = kv_message ?ms" using assms(3) kv_encode_message by simp
  let ?st = "\<lparr>chain = [JObject (kv_fields ?ms [])], idxs = []\<rparr>"
  have at: "at_object ?ms ?st" using ok by (simp add: at_object_def)
  have "in_string ''block_ids'' [] ?st = Inr ((blob \<noteq> [], blob), ?st)"
    by (rule in_string_binary) (use at_member [OF at, of "''block_ids''"] in simp)
  moreover have "length blob div 32 * 32 < length blob" using assms(2) div_mult_mod_eq [of "length blob" 32] by linarith
  ultimately have "request_chain_in \<lparr>rc_block_ids = []\<rparr> ?st = Inl Overrun"
    by (simp add: request_chain_in_def in_vector_binary_def in_op_defs)
  then show ?thesis using parseBinary_message [OF ok, of "[]"]
    by (simp add: buf decode_message_def notifyAdaptor_def kv_decode_def kv_in_new_def del: kv_fields_def)
qed

theorem id_list_overrun_witness:
  "\<exists>buf. kv_encode [(''block_ids'', KBinary (replicate 33 0))] = Inr buf \<and> decode_message 2006 buf = Inl Overrun"
proof -
  have "kv_ok (KObject [(''block_ids'', KBinary (replicate 33 0))])" by (simp add: names_kv)
  then obtain buf where "kv_encode [(''block_ids'', KBinary (replicate 33 0))] = Inr buf" using kv_encode_message by blast
  then show ?thesis using id_list_overrun [of "replicate 33 0" buf] by simp
qed

end
